(* ===== verification/Libio_Prelude.thy ===== *)
theory Libio_Prelude
  imports Main "HOL-Library.Char_ord" "HOL-Library.List_Lexorder"
begin

text \<open>
  What every component shares: the faults a C++ operation can end in, the result type
  \<open>fault + 'a\<close> with its bind, the 32-bit \<open>int\<close> of the source (arithmetic that leaves the
  range is undefined behaviour and so a fault; conversions wrap), a flat memory object
  with bounds-checked reads and writes (\<open>memcpy\<close>, \<open>memmove\<close>, \<open>memcmp\<close>, \<open>p[i] = c\<close>),
  and the C library's number parsing and printing (\<open>std::stol\<close>, \<open>std::stoi\<close>,
  \<open>std::to_string\<close>, \<open>std::hex\<close>).
\<close>

named_theorems res_simps \<open>rewriting of results and of their bind\<close>
named_theorems mem_simps \<open>rewriting of memory reads and writes that stay in bounds\<close>

section \<open>Faults and results\<close>

text \<open>
  The ways an operation of the library can end other than by returning: undefined
  behaviour (a signed overflow, an access outside an object, a dereferenced null
  pointer or a pointer to a freed object, a read of an uninitialised member, a loop that
  never ends), an exception of the standard library, a call of \<open>exit\<close>/\<open>abort\<close>, or the default
  action of a signal.
\<close>

datatype fault =
    IntOverflow
  | BadAccess
  | NullDeref
  | Uninitialised
  | NoReturn
  | InvalidArgument
  | OutOfRange
  | BadAlloc
  | ExitCalled int
  | Aborted
  | BadFunction
  | Killed int

type_synonym 'a res = "fault + 'a"

fun bind_res :: "'a res \<Rightarrow> ('a \<Rightarrow> 'b res) \<Rightarrow> 'b res" where
  "bind_res (Inl e) f = Inl e"
| "bind_res (Inr x) f = f x"

section \<open>The 32-bit int\<close>

definition INT_MAX :: int where
  "INT_MAX = 2147483647"

definition INT_MIN :: int where
  "INT_MIN = - 2147483648"

text \<open>The value of an \<open>int\<close> expression: out of range is undefined behaviour.\<close>

definition cint :: "int \<Rightarrow> int res" where
  "cint x = (if INT_MIN \<le> x \<and> x \<le> INT_MAX then Inr x else Inl IntOverflow)"

text \<open>A conversion of a wider integer (\<open>size_t\<close>, \<open>long\<close>) to \<open>int\<close> wraps.\<close>

definition to_int :: "int \<Rightarrow> int" where
  "to_int x = (x + 2147483648) mod 4294967296 - 2147483648"

section \<open>Memory objects\<close>

definition NUL :: char where
  "NUL = CHR 0x00"

definition mem_read :: "char list \<Rightarrow> int \<Rightarrow> int \<Rightarrow> char list res" where
  "mem_read m p n =
     (if 0 \<le> p \<and> 0 \<le> n \<and> p + n \<le> int (length m)
      then Inr (take (nat n) (drop (nat p) m)) else Inl BadAccess)"

definition mem_write :: "char list \<Rightarrow> int \<Rightarrow> char list \<Rightarrow> char list res" where
  "mem_write m p bs =
     (if 0 \<le> p \<and> p + int (length bs) \<le> int (length m)
      then Inr (take (nat p) m @ bs @ drop (nat p + length bs) m) else Inl BadAccess)"

text \<open>The position of the first occurrence of a character: \<open>memchr\<close> and
  \<open>std::string::find(char)\<close>, with \<open>None\<close> for a null pointer and for \<open>npos\<close>.\<close>

fun find_chr :: "char \<Rightarrow> string \<Rightarrow> nat option" where
  "find_chr c [] = None"
| "find_chr c (x # s) = (if x = c then Some 0 else map_option Suc (find_chr c s))"

text \<open>
  The allocator, code outside the repository: which requests it grants, and what a fresh
  byte holds. Every operation that allocates takes it as an argument.
\<close>

record heap_env =
  can_alloc :: "int \<Rightarrow> bool"
  fresh :: "nat \<Rightarrow> char"

section \<open>Characters and numbers of the C library\<close>

text \<open>\<open>char\<close> is signed on the platform the library targets (Linux on x86).\<close>

definition schar :: "char \<Rightarrow> int" where
  "schar c = (let n = int (of_char c) in if 128 \<le> n then n - 256 else n)"

definition char_of_int :: "int \<Rightarrow> char" where
  "char_of_int x = char_of (nat (x mod 256))"

definition c_isspace :: "char \<Rightarrow> bool" where
  "c_isspace c = (c \<in> {CHR '' '', CHR 0x09, CHR 0x0A, CHR 0x0B, CHR 0x0C, CHR 0x0D})"

definition digit_val :: "char \<Rightarrow> nat option" where
  "digit_val c =
     (let n = of_char c :: nat in
      if 48 \<le> n \<and> n \<le> 57 then Some (n - 48)
      else if 97 \<le> n \<and> n \<le> 122 then Some (n - 87)
      else if 65 \<le> n \<and> n \<le> 90 then Some (n - 55)
      else None)"

definition is_digit :: "nat \<Rightarrow> char \<Rightarrow> bool" where
  "is_digit b c = (case digit_val c of None \<Rightarrow> False | Some d \<Rightarrow> d < b)"

definition digits_value :: "nat \<Rightarrow> string \<Rightarrow> nat" where
  "digits_value b ds = foldl (\<lambda>a c. a * b + the (digit_val c)) 0 ds"

text \<open>\<open>strtol\<close>: white space, a sign, for base 16 an optional \<open>0x\<close>, then digits.\<close>

definition strip_sign :: "string \<Rightarrow> int \<times> string" where
  "strip_sign s =
     (case s of c # r \<Rightarrow> (if c = CHR ''-'' then (-1, r) else if c = CHR ''+'' then (1, r) else (1, s))
      | [] \<Rightarrow> (1, []))"

definition strip_0x :: "nat \<Rightarrow> string \<Rightarrow> string" where
  "strip_0x b s =
     (case s of z # x # d # r \<Rightarrow>
        (if b = 16 \<and> z = CHR ''0'' \<and> x \<in> {CHR ''x'', CHR ''X''} \<and> is_digit 16 d then d # r else s)
      | _ \<Rightarrow> s)"

definition LONG_MAX :: int where
  "LONG_MAX = 9223372036854775807"

definition LONG_MIN :: int where
  "LONG_MIN = - 9223372036854775808"

definition strtol :: "nat \<Rightarrow> string \<Rightarrow> int res" where
  "strtol b s =
     (case strip_sign (dropWhile c_isspace s) of (sg, r) \<Rightarrow>
        let ds = takeWhile (is_digit b) (strip_0x b r); v = sg * int (digits_value b ds) in
        if ds = [] then Inl InvalidArgument
        else if LONG_MIN \<le> v \<and> v \<le> LONG_MAX then Inr v else Inl OutOfRange)"

abbreviation stol :: "string \<Rightarrow> int res" where
  "stol s \<equiv> strtol 10 s"

abbreviation stol16 :: "string \<Rightarrow> int res" where
  "stol16 s \<equiv> strtol 16 s"

definition stoi :: "string \<Rightarrow> int res" where
  "stoi s = bind_res (strtol 10 s) (\<lambda>v.
     if INT_MIN \<le> v \<and> v \<le> INT_MAX then Inr v else Inl OutOfRange)"

text \<open>\<open>atoi\<close>: no number is 0; the behaviour on a number that does not fit is undefined.\<close>

definition atoi :: "string \<Rightarrow> int res" where
  "atoi s =
     (case strtol 10 s of
        Inr v \<Rightarrow> cint v
      | Inl f \<Rightarrow> if f = InvalidArgument then Inr 0 else Inl IntOverflow)"

definition digit_char :: "nat \<Rightarrow> char" where
  "digit_char d = char_of (if d < 10 then 48 + d else 87 + d)"

fun nat_str :: "nat \<Rightarrow> nat \<Rightarrow> string" where
  "nat_str b n = (if b < 2 \<or> n < b then [digit_char n] else nat_str b (n div b) @ [digit_char (n mod b)])"

declare nat_str.simps [simp del]

text \<open>\<open>std::to_string\<close> on an integer, and \<open>ss << std::hex\<close> on a \<open>size_t\<close>.\<close>

definition to_string :: "int \<Rightarrow> string" where
  "to_string x = (if x < 0 then CHR ''-'' # nat_str 10 (nat (- x)) else nat_str 10 (nat x))"

definition to_hex :: "nat \<Rightarrow> string" where
  "to_hex n = nat_str 16 n"

section \<open>Lemmas on results\<close>

declare bind_res.simps [res_simps]

lemma bind_res_eq_Inr [res_simps]:
  "(bind_res m f = Inr y) = (\<exists>x. m = Inr x \<and> f x = Inr y)"
  by (cases m) auto

lemma bind_res_eq_Inl:
  "(bind_res m f = Inl e) = (m = Inl e \<or> (\<exists>x. m = Inr x \<and> f x = Inl e))"
  by (cases m) auto

lemma bind_res_assoc: "bind_res (bind_res m f) g = bind_res m (\<lambda>x. bind_res (f x) g)"
  by (cases m) auto

lemma bind_res_cong [fundef_cong]:
  "m = m' \<Longrightarrow> (\<And>x. m' = Inr x \<Longrightarrow> f x = f' x) \<Longrightarrow> bind_res m f = bind_res m' f'"
  by (cases m') auto

lemma bind_res_split:
  "P (bind_res m f) = ((\<forall>e. m = Inl e \<longrightarrow> P (Inl e)) \<and> (\<forall>x. m = Inr x \<longrightarrow> P (f x)))"
  by (cases m) auto

text \<open>A result that is a fault of \<open>F\<close> or a value with property \<open>P\<close>.\<close>

definition outcome :: "fault set \<Rightarrow> ('a \<Rightarrow> bool) \<Rightarrow> 'a res \<Rightarrow> bool" where
  "outcome F P m = (case m of Inl f \<Rightarrow> f \<in> F | Inr x \<Rightarrow> P x)"

lemma safe_simps [simp]: "outcome F P (Inl f) = (f \<in> F)" "outcome F P (Inr x) = P x"
  by (simp_all add: outcome_def)

lemma safe_bind: "outcome F Q m \<Longrightarrow> (\<And>x. Q x \<Longrightarrow> outcome F P (f x)) \<Longrightarrow> outcome F P (bind_res m f)"
  by (cases m) auto

lemma safe_mono: "outcome F Q m \<Longrightarrow> F \<subseteq> G \<Longrightarrow> (\<And>x. Q x \<Longrightarrow> P x) \<Longrightarrow> outcome G P m"
  by (cases m) auto

lemma safe_Inr_D: "outcome F P m \<Longrightarrow> m = Inr x \<Longrightarrow> P x"
  by simp

lemma safe_iff: "outcome F P m = ((\<forall>f. m = Inl f \<longrightarrow> f \<in> F) \<and> (\<forall>x. m = Inr x \<longrightarrow> P x))"
  by (cases m) auto

section \<open>Lemmas on ints and memory\<close>

lemma cint_Inr [simp, res_simps]: "INT_MIN \<le> x \<Longrightarrow> x \<le> INT_MAX \<Longrightarrow> cint x = Inr x"
  by (simp add: cint_def)

lemma cint_eq_Inr [res_simps]: "(cint x = Inr y) = (y = x \<and> INT_MIN \<le> x \<and> x \<le> INT_MAX)"
  by (auto simp: cint_def)

lemma to_int_id [simp]: "INT_MIN \<le> x \<Longrightarrow> x \<le> INT_MAX \<Longrightarrow> to_int x = x"
  by (simp add: to_int_def INT_MIN_def INT_MAX_def)

lemma to_int_range: "INT_MIN \<le> to_int x \<and> to_int x \<le> INT_MAX"
  by (simp add: to_int_def INT_MIN_def INT_MAX_def pos_mod_bound [of 4294967296, simplified])

lemma mem_read_Inr [mem_simps]:
  "0 \<le> p \<Longrightarrow> 0 \<le> n \<Longrightarrow> p + n \<le> int (length m) \<Longrightarrow>
   mem_read m p n = Inr (take (nat n) (drop (nat p) m))"
  by (simp add: mem_read_def)

lemma mem_read_eq_Inr:
  "(mem_read m p n = Inr bs) =
   (0 \<le> p \<and> 0 \<le> n \<and> p + n \<le> int (length m) \<and> bs = take (nat n) (drop (nat p) m))"
  by (auto simp: mem_read_def)

lemma mem_write_Inr [mem_simps]:
  "0 \<le> p \<Longrightarrow> p + int (length bs) \<le> int (length m) \<Longrightarrow>
   mem_write m p bs = Inr (take (nat p) m @ bs @ drop (nat p + length bs) m)"
  by (simp add: mem_write_def)

lemma mem_write_eq_Inr:
  "(mem_write m p bs = Inr m') =
   (0 \<le> p \<and> p + int (length bs) \<le> int (length m) \<and>
    m' = take (nat p) m @ bs @ drop (nat p + length bs) m)"
  by (auto simp: mem_write_def)

lemma mem_write_length [simp]: "mem_write m p bs = Inr m' \<Longrightarrow> length m' = length m"
  by (auto simp: mem_write_eq_Inr)

lemma find_chr_Some:
  "find_chr c s = Some k \<Longrightarrow> k < length s \<and> s ! k = c \<and> (\<forall>j < k. s ! j \<noteq> c)"
proof (induction s arbitrary: k)
  case (Cons x s)
  show ?case
  proof (cases "x = c")
    case False
    with Cons.prems obtain k' where k': "find_chr c s = Some k'" "k = Suc k'" by auto
    with Cons.IH have ih: "k' < length s" "s ! k' = c" "\<forall>j < k'. s ! j \<noteq> c" by auto
    have "(x # s) ! j \<noteq> c" if "j < k" for j using that ih False k' by (cases j) auto
    with ih k' show ?thesis by simp
  qed (use Cons.prems in auto)
qed simp

lemma find_chr_None: "(find_chr c s = None) = (c \<notin> set s)"
  by (induction s) auto

lemma find_chr_append [simp]: "c \<notin> set a \<Longrightarrow> find_chr c (a @ c # r) = Some (length a)"
  by (induction a) auto

section \<open>Lemmas on number parsing and printing\<close>

lemma digit_val_digit_char [simp]: "d < 36 \<Longrightarrow> digit_val (digit_char d) = Some d"
  by (simp add: digit_val_def digit_char_def Let_def)

lemma is_digit_digit_char [simp]: "d < b \<Longrightarrow> b \<le> 36 \<Longrightarrow> is_digit b (digit_char d)"
  by (simp add: is_digit_def)

lemma digit_char_not_space: "d < 36 \<Longrightarrow> \<not> c_isspace (digit_char d)"
  and digit_char_not_sign: "d < 36 \<Longrightarrow> digit_char d \<noteq> CHR ''-'' \<and> digit_char d \<noteq> CHR ''+''"
  and digit_char_not_x: "d < 16 \<Longrightarrow> digit_char d \<noteq> CHR ''x'' \<and> digit_char d \<noteq> CHR ''X''"
proof -
  have code: "of_char (digit_char d) = (if d < 10 then 48 + d else 87 + d)" if "d < 36"
    using that by (simp add: digit_char_def)
  show "d < 36 \<Longrightarrow> \<not> c_isspace (digit_char d)"
    using code by (auto simp: c_isspace_def split: if_splits)
  show "d < 36 \<Longrightarrow> digit_char d \<noteq> CHR ''-'' \<and> digit_char d \<noteq> CHR ''+''"
    using code by (auto split: if_splits)
  show "d < 16 \<Longrightarrow> digit_char d \<noteq> CHR ''x'' \<and> digit_char d \<noteq> CHR ''X''"
    using code by (auto split: if_splits)
qed

lemma nat_str_digits:
  "2 \<le> b \<Longrightarrow> \<forall>c \<in> set (nat_str b n). \<exists>d < b. c = digit_char d"
proof (induction b n rule: nat_str.induct)
  case (1 b n)
  have "\<exists>d < b. digit_char (n mod b) = digit_char d"
    by (rule exI [of _ "n mod b"]) (use 1 in simp)
  with 1 show ?case by (auto simp: nat_str.simps [of b n])
qed

lemma nat_str_nonempty [simp]: "nat_str b n \<noteq> []"
  by (subst nat_str.simps) simp

lemma digits_value_nat_str:
  "2 \<le> b \<Longrightarrow> b \<le> 36 \<Longrightarrow> digits_value b (nat_str b n) = n"
proof (induction b n rule: nat_str.induct)
  case (1 b n)
  show ?case
  proof (cases "n < b")
    case True
    with 1 show ?thesis by (subst nat_str.simps) (simp add: digits_value_def)
  next
    case False
    with 1 have "digits_value b (nat_str b (n div b)) = n div b" by simp
    moreover have "digit_val (digit_char (n mod b)) = Some (n mod b)"
      by (rule digit_val_digit_char) (use 1 mod_less_divisor [of b n] in linarith)
    ultimately show ?thesis using False 1
      by (subst nat_str.simps) (simp add: digits_value_def)
  qed
qed

lemma takeWhile_nat_str [simp]:
  "2 \<le> b \<Longrightarrow> b \<le> 36 \<Longrightarrow> takeWhile (is_digit b) (nat_str b n) = nat_str b n"
  using nat_str_digits [of b n] by (auto simp: takeWhile_eq_all_conv)

lemma nat_str_not_space: "2 \<le> b \<Longrightarrow> b \<le> 36 \<Longrightarrow> dropWhile c_isspace (nat_str b n) = nat_str b n"
proof -
  assume b: "2 \<le> b" "b \<le> 36"
  obtain c r where eq: "nat_str b n = c # r" by (cases "nat_str b n") auto
  with nat_str_digits [OF b(1), of n] obtain d where "d < b" "c = digit_char d" by auto
  with b eq show ?thesis by (simp add: digit_char_not_space)
qed

lemma strip_sign_nat_str: "2 \<le> b \<Longrightarrow> b \<le> 36 \<Longrightarrow> strip_sign (nat_str b n) = (1, nat_str b n)"
proof -
  assume b: "2 \<le> b" "b \<le> 36"
  obtain c r where eq: "nat_str b n = c # r" by (cases "nat_str b n") auto
  with nat_str_digits [OF b(1), of n] obtain d where "d < b" "c = digit_char d" by auto
  with b eq show ?thesis by (simp add: strip_sign_def digit_char_not_sign)
qed

lemma strip_0x_nat_str: "b = 10 \<or> b = 16 \<Longrightarrow> strip_0x b (nat_str b n) = nat_str b n"
proof -
  assume b: "b = 10 \<or> b = 16"
  have nox: "x \<noteq> CHR ''x'' \<and> x \<noteq> CHR ''X''" if "x \<in> set (nat_str 16 n)" for x
    using nat_str_digits [of 16 n] that digit_char_not_x by fastforce
  show ?thesis
  proof (cases "b = 16")
    case True
    have "strip_0x 16 s = s" if "\<forall>x \<in> set s. x \<noteq> CHR ''x'' \<and> x \<noteq> CHR ''X''" for s
      using that by (simp add: strip_0x_def split: list.split)
    with True nox show ?thesis by blast
  next
    case False
    then show ?thesis by (simp add: strip_0x_def split: list.split)
  qed
qed

text \<open>Printing a number and parsing it back gives the number.\<close>

lemma strtol_nat_str:
  assumes "b = 10 \<or> b = 16" and "int n \<le> LONG_MAX"
  shows "strtol b (nat_str b n) = Inr (int n)"
proof -
  have b: "2 \<le> b" "b \<le> 36" using assms by auto
  have "LONG_MIN \<le> int n" by (simp add: LONG_MIN_def)
  with assms b show ?thesis
    by (simp add: strtol_def nat_str_not_space strip_sign_nat_str strip_0x_nat_str
        digits_value_nat_str Let_def)
qed

lemma stol_to_string: "0 \<le> x \<Longrightarrow> x \<le> LONG_MAX \<Longrightarrow> stol (to_string x) = Inr x"
  using strtol_nat_str [of 10 "nat x"] by (simp add: to_string_def)

lemma stol_Nil [simp]: "strtol b [] = Inl InvalidArgument"
  by (simp add: strtol_def strip_sign_def strip_0x_def)

lemma to_string_nonempty [simp]: "to_string x \<noteq> []"
  by (simp add: to_string_def)

end
