(* ===== verification/Libio_String.thy ===== *)
theory Libio_String
  imports Libio_Prelude
begin

text \<open>
  The string helpers of \<open>src/core/string.hh\<close>: \<open>split\<close> (a \<open>std::getline\<close> loop),
  the case-folding comparisons, \<open>is_palindrome\<close>, the trimming functions, \<open>htmlescape\<close>,
  and the percent decoder \<open>string_from_utf8\<close> that the request parser applies to a URI.
  A \<open>std::string\<close> is a \<open>char list\<close> (bytes), an index past its end is a fault, and
  \<open>std::string::npos\<close> is \<open>None\<close>.
\<close>

section \<open>Definitions\<close>

text \<open>\<open>split\<close>: each \<open>getline\<close> takes the characters up to the delimiter and drops it; it
  fails, and the loop ends, when nothing is left in the stream.\<close>

function split :: "string \<Rightarrow> char \<Rightarrow> string list" where
  "split s delimiter =
     (if s = [] then []
      else takeWhile (\<lambda>c. c \<noteq> delimiter) s # split (tl (dropWhile (\<lambda>c. c \<noteq> delimiter) s)) delimiter)"
  by pat_completeness auto
termination
proof (relation "measure (\<lambda>(s, d). length s)")
  fix s :: string and d :: char
  assume "s \<noteq> []"
  then have "length (tl (dropWhile (\<lambda>c. c \<noteq> d) s)) < length s"
    using length_dropWhile_le [of "\<lambda>c. c \<noteq> d" s] by (cases s) auto
  then show "((tl (dropWhile (\<lambda>c. c \<noteq> d) s), d), s, d) \<in> measure (\<lambda>(s, d). length s)" by simp
qed auto

declare split.simps [simp del]

text \<open>\<open>::tolower\<close> in the C locale.\<close>

definition tolower :: "char \<Rightarrow> char" where
  "tolower c = (let n = of_char c :: nat in if 65 \<le> n \<and> n \<le> 90 then char_of (n + 32) else c)"

text \<open>
  The loop body compares \<open>::tolower(a[i] != ::tolower(b[i]))\<close>: the inner comparison is a
  \<open>bool\<close>, which the outer \<open>tolower\<close> leaves unchanged.
\<close>

function equal_lower_loop :: "string \<Rightarrow> string \<Rightarrow> nat \<Rightarrow> nat \<Rightarrow> bool" where
  "equal_lower_loop a b n i =
     (if i < n then
        (if i = length a \<or> i = length b then False
         else if a ! i \<noteq> tolower (b ! i) then False
         else equal_lower_loop a b n (Suc i))
      else True)"
  by pat_completeness auto
termination
  by (relation "measure (\<lambda>(a, b, n, i). n - i)") auto

declare equal_lower_loop.simps [simp del]

definition equal_lower_n :: "string \<Rightarrow> string \<Rightarrow> nat \<Rightarrow> bool" where
  "equal_lower_n a b n = equal_lower_loop a b n 0"

definition equal_lower :: "string \<Rightarrow> string \<Rightarrow> bool" where
  "equal_lower a b = (if length a \<noteq> length b then False else equal_lower_n a b (length a))"

text \<open>\<open>std::equal\<close> of the first half with the reversed string.\<close>

definition is_palindrome :: "string \<Rightarrow> bool" where
  "is_palindrome s = (take (length s div 2) s = take (length s div 2) (rev s))"

definition ws :: string where
  "ws = [CHR '' '', CHR 0x09, CHR 0x0A, CHR 0x0D, CHR 0x0C, CHR 0x0B]"

fun find_first_not_of :: "string \<Rightarrow> string \<Rightarrow> nat option" where
  "find_first_not_of t [] = None"
| "find_first_not_of t (c # s) =
     (if c \<in> set t then map_option Suc (find_first_not_of t s) else Some 0)"

definition find_last_not_of :: "string \<Rightarrow> string \<Rightarrow> nat option" where
  "find_last_not_of t s =
     map_option (\<lambda>k. length s - 1 - k) (find_first_not_of t (rev s))"

text \<open>\<open>erase(npos + 1)\<close> is \<open>erase(0)\<close> and \<open>erase(0, npos)\<close> drops everything.\<close>

definition rtrim :: "string \<Rightarrow> string \<Rightarrow> string" where
  "rtrim s t = (case find_last_not_of t s of None \<Rightarrow> take 0 s | Some i \<Rightarrow> take (i + 1) s)"

definition ltrim :: "string \<Rightarrow> string \<Rightarrow> string" where
  "ltrim s t = (case find_first_not_of t s of None \<Rightarrow> [] | Some i \<Rightarrow> drop i s)"

definition trim :: "string \<Rightarrow> string \<Rightarrow> string" where
  "trim s t = ltrim (rtrim s t) t"

text \<open>
  \<open>replace\<close> builds the regular expression \<open>\from\<close>. It is called on one punctuation
  character, for which that expression is the character itself, and \<open>regex_replace\<close>
  replaces every occurrence (no replacement text holds a \<open>$\<close>).
\<close>

definition replace_chr :: "string \<Rightarrow> char \<Rightarrow> string \<Rightarrow> string" where
  "replace_chr str from to = concat (map (\<lambda>c. if c = from then to else [c]) str)"

definition htmlescape :: "string \<Rightarrow> string" where
  "htmlescape html =
     (let h1 = replace_chr html (CHR ''<'') ''&lt'';
          h2 = replace_chr h1 (CHR ''>'') ''&gt'';
          h3 = replace_chr h2 (CHR 0x22) ''&quot'';
          h4 = replace_chr h3 (CHR 0x27) ''&#039''
      in replace_chr h4 (CHR ''&'') ''&amp'')"

definition hex_to_int :: "char \<Rightarrow> int" where
  "hex_to_int a =
     (let x = schar a in
      if 48 \<le> x \<and> x \<le> 57 then x - 48
      else if 65 \<le> x \<and> x \<le> 90 then x - 55
      else x - 87)"

text \<open>\<open>in[i]\<close>: the terminating null character at \<open>i = n\<close>, undefined past it.\<close>

definition str_at :: "string \<Rightarrow> nat \<Rightarrow> char res" where
  "str_at s i = (if i < length s then Inr (s ! i) else if i = length s then Inr NUL else Inl BadAccess)"

text \<open>The decoding loop: index, flag, the pending \<open>stringstream\<close>, the result so far.\<close>

function utf8_loop :: "string \<Rightarrow> nat \<Rightarrow> bool \<Rightarrow> string \<Rightarrow> string \<Rightarrow> (bool \<times> string \<times> string) res" where
  "utf8_loop inp i flag ss result =
     (if i < length inp then
        (let x = inp ! i in
         if x = CHR ''%'' then
           bind_res (str_at inp (i + 1)) (\<lambda>c1.
           bind_res (str_at inp (i + 2)) (\<lambda>c2.
             utf8_loop inp (i + 3) True
               (ss @ [char_of_int (hex_to_int c1 * 16 + hex_to_int c2)]) result))
         else if flag then utf8_loop inp (i + 1) False [] ((result @ ss) @ [x])
         else utf8_loop inp (i + 1) False ss (result @ [x]))
      else Inr (flag, ss, result))"
  by pat_completeness auto
termination
  by (relation "measure (\<lambda>(inp, i, flag, ss, result). length inp - i)") auto

declare utf8_loop.simps [simp del]

definition string_from_utf8 :: "string \<Rightarrow> string res" where
  "string_from_utf8 inp =
     bind_res (utf8_loop inp 0 False [] []) (\<lambda>(flag, ss, result).
       Inr (if flag then result @ ss else result))"

text \<open>
  Reference definitions: percent decoding as a function on the list, and an encoder that
  leaves the characters of \<open>safe\<close> as they are.
\<close>

fun pct_decode :: "string \<Rightarrow> string res" where
  "pct_decode [] = Inr []"
| "pct_decode (c # s) =
     (if c = CHR ''%'' then
        (case s of
           [] \<Rightarrow> Inl BadAccess
         | [a] \<Rightarrow> Inr [char_of_int (hex_to_int a * 16 + hex_to_int NUL)]
         | a # b # r \<Rightarrow>
             bind_res (pct_decode r) (\<lambda>t. Inr (char_of_int (hex_to_int a * 16 + hex_to_int b) # t)))
      else bind_res (pct_decode s) (\<lambda>t. Inr (c # t)))"

definition hex_upper :: "nat \<Rightarrow> char" where
  "hex_upper d = char_of (if d < 10 then 48 + d else 55 + d)"

definition pct_encode :: "(char \<Rightarrow> bool) \<Rightarrow> string \<Rightarrow> string" where
  "pct_encode safe s =
     concat (map (\<lambda>c. if safe c \<and> c \<noteq> CHR ''%'' then [c]
       else [CHR ''%'', hex_upper (of_char c div 16), hex_upper (of_char c mod 16)]) s)"

section \<open>The percent decoder\<close>

lemma utf8_loop_decodes:
  "flag \<or> ss = [] \<Longrightarrow>
   bind_res (utf8_loop inp i flag ss result) (\<lambda>(flag, ss, result).
       Inr (if flag then result @ ss else result)) =
   bind_res (pct_decode (drop i inp)) (\<lambda>t. Inr (result @ ss @ t))"
proof (induction inp i flag ss result rule: utf8_loop.induct)
  case (1 inp i flag ss result)
  show ?case
  proof (cases "i < length inp")
    case False
    with 1 show ?thesis by (subst utf8_loop.simps) auto
  next
    case True
    then have d: "drop i inp = inp ! i # drop (Suc i) inp" by (simp add: Cons_nth_drop_Suc)
    show ?thesis
    proof (cases "inp ! i = CHR ''%''")
      case pct: True
      consider "length inp = i + 1" | "length inp = i + 2" | "i + 2 < length inp"
        using True by linarith
      then show ?thesis
      proof cases
        assume "length inp = i + 1"
        with True pct d show ?thesis by (subst utf8_loop.simps) (simp add: str_at_def)
      next
        assume l: "length inp = i + 2"
        then have "drop (Suc i) inp = [inp ! (i + 1)]" by (simp flip: Cons_nth_drop_Suc)
        with True pct d l show ?thesis
          by (subst utf8_loop.simps) (simp add: str_at_def, subst utf8_loop.simps, simp)
      next
        assume l: "i + 2 < length inp"
        then have "drop (Suc i) inp = inp ! (i + 1) # inp ! (i + 2) # drop (i + 3) inp"
          by (simp flip: Cons_nth_drop_Suc add: numeral_3_eq_3)
        with True pct d l "1.IH"(1) show ?thesis
          by (subst utf8_loop.simps) (simp add: str_at_def bind_res_assoc)
      qed
    next
      case nopct: False
      show ?thesis
      proof (cases flag)
        case fl: True
        with True d nopct "1.IH"(2) [OF True refl nopct fl] show ?thesis
          by (subst utf8_loop.simps) (simp add: bind_res_assoc)
      next
        case fl: False
        with True d nopct "1.prems" "1.IH"(3) [OF True refl nopct fl] show ?thesis
          by (subst utf8_loop.simps) (simp add: bind_res_assoc)
      qed
    qed
  qed
qed

lemma decode_pct: "string_from_utf8 s = pct_decode s"
  using utf8_loop_decodes [of False "[]" s 0 "[]"]
  by (cases "pct_decode s") (simp_all add: string_from_utf8_def)

lemma pct_decode_faults: "pct_decode s = Inl f \<Longrightarrow> f = BadAccess"
proof (induction s rule: pct_decode.induct)
  case (2 c s)
  show ?case
  proof (cases "c = CHR ''%''")
    case True
    with 2 show ?thesis by (cases s rule: list.exhaust [case_names Nil Cons]; cases "tl s") (auto simp: bind_res_eq_Inl)
  next
    case False
    with 2 show ?thesis by (simp add: bind_res_eq_Inl)
  qed
qed simp

text \<open>C23. The decoding loop with its flag and its pending \<open>stringstream\<close> computes plain
  percent decoding, on every input, malformed ones and faults included.\<close>

theorem string_from_utf8_decodes: "string_from_utf8 s = pct_decode s"
  by (rule decode_pct)

lemma hex_upper_value: "d < 16 \<Longrightarrow> hex_to_int (hex_upper d) = int d"
  by (auto simp: hex_to_int_def hex_upper_def schar_def Let_def)

lemma hex_pair_value:
  "char_of_int (hex_to_int (hex_upper (of_char c div 16)) * 16 + hex_to_int (hex_upper (of_char c mod 16))) = c"
proof -
  have c: "of_char c < (256::nat)" by simp
  then have "of_char c div 16 < (16::nat)" by (simp add: less_mult_imp_div_less)
  then have "int (of_char c div 16) * 16 + int (of_char c mod 16) = int (of_char c)"
    by (metis div_mult_mod_eq of_nat_add of_nat_mult of_nat_numeral)
  with hex_upper_value [OF \<open>of_char c div 16 < (16::nat)\<close>] show ?thesis
    by (simp add: hex_upper_value char_of_int_def)
qed

text \<open>C24. Decoding inverts percent encoding, whichever characters the encoder leaves
  unescaped.\<close>

theorem string_from_utf8_encode: "string_from_utf8 (pct_encode safe s) = Inr s"
proof -
  have "pct_decode (pct_encode safe s) = Inr s"
    by (induction s) (auto simp: pct_encode_def hex_pair_value)
  then show ?thesis using utf8_loop_decodes [of False "[]" "pct_encode safe s" 0 "[]"]
    by (simp add: string_from_utf8_def)
qed

section \<open>split\<close>

lemma split_Nil [simp]: "split [] d = []"
  by (simp add: split.simps)

lemma split_no_delimiter: "d \<notin> set s \<Longrightarrow> s \<noteq> [] \<Longrightarrow> split s d = [s]"
proof -
  assume d: "d \<notin> set s" "s \<noteq> []"
  then have "takeWhile (\<lambda>c. c \<noteq> d) s = s" "dropWhile (\<lambda>c. c \<noteq> d) s = []"
    by (metis (mono_tags, lifting) takeWhile_eq_all_conv, metis (mono_tags, lifting) dropWhile_eq_Nil_conv)
  with d show ?thesis by (subst split.simps) (simp only: list.sel if_False split_Nil)
qed

lemma split_delimiter [simp]: "d \<notin> set a \<Longrightarrow> split (a @ d # r) d = a # split r d"
proof -
  assume d: "d \<notin> set a"
  then have "takeWhile (\<lambda>c. c \<noteq> d) (a @ d # r) = a" "dropWhile (\<lambda>c. c \<noteq> d) (a @ d # r) = d # r"
    by (induction a) auto
  then show ?thesis by (simp add: split.simps [of "a @ d # r"])
qed

text \<open>\<open>split\<close> loses nothing: writing the delimiter after every token gives the string back
  (with the delimiter added when the string did not end in one), and no token holds the
  delimiter.\<close>

theorem split_join:
  "concat (map (\<lambda>t. t @ [d]) (split s d)) = (if s = [] \<or> last s = d then s else s @ [d])
   \<and> list_all (\<lambda>t. d \<notin> set t) (split s d)"
proof (induction "length s" arbitrary: s rule: less_induct)
  case less
  show ?case
  proof (cases "d \<in> set s")
    case True
    then obtain a r where s: "s = a @ d # r" and "d \<notin> set a" by (meson split_list_first)
    moreover have "last s = (if r = [] then d else last r)" by (simp add: s)
    ultimately show ?thesis using less [of r] by auto
  next
    case False
    then show ?thesis by (cases "s = []") (auto simp: split_no_delimiter last_in_set)
  qed
qed

section \<open>Trimming\<close>

lemma ltrim_dropWhile: "ltrim s t = dropWhile (\<lambda>c. c \<in> set t) s"
  by (induction s) (auto simp: ltrim_def split: option.splits)

lemma find_first_not_of_less: "find_first_not_of t s = Some k \<Longrightarrow> k < length s"
  by (induction s arbitrary: k) (auto split: if_splits)

lemma rtrim_rev: "rtrim s t = rev (ltrim (rev s) t)"
proof (cases "find_first_not_of t (rev s)")
  case None
  then show ?thesis by (simp add: rtrim_def ltrim_def find_last_not_of_def)
next
  case (Some k)
  with find_first_not_of_less [OF Some] show ?thesis
    by (simp add: rtrim_def ltrim_def find_last_not_of_def rev_drop Suc_diff_Suc)
qed

lemma rtrim_dropWhile: "rtrim s t = rev (dropWhile (\<lambda>c. c \<in> set t) (rev s))"
  by (simp add: rtrim_rev ltrim_dropWhile)

lemma dropWhile_hd_id: "s = [] \<or> \<not> p (hd s) \<Longrightarrow> dropWhile p s = s"
  by (cases s) auto

lemma trim_id: "s = [] \<or> (hd s \<notin> set t \<and> last s \<notin> set t) \<Longrightarrow> trim s t = s"
  using dropWhile_hd_id [of "rev s" "\<lambda>c. c \<in> set t"] dropWhile_hd_id [of s "\<lambda>c. c \<in> set t"]
  by (auto simp: trim_def ltrim_dropWhile rtrim_dropWhile hd_rev)

text \<open>\<open>trim\<close> cuts exactly the maximal prefix and suffix of characters of \<open>t\<close>: what it
  removes lies in \<open>t\<close>, and the rest, when there is one, neither starts nor ends in \<open>t\<close>.\<close>

theorem trim_spec:
  "\<exists>pre post. s = pre @ trim s t @ post \<and> set pre \<subseteq> set t \<and> set post \<subseteq> set t
     \<and> (trim s t = [] \<or> hd (trim s t) \<notin> set t \<and> last (trim s t) \<notin> set t)"
proof -
  define p where "p = (\<lambda>c. c \<in> set t)"
  define r where "r = rtrim s t"
  have s: "s = r @ rev (takeWhile p (rev s))"
    unfolding r_def rtrim_dropWhile p_def
    by (simp flip: rev_append)
  have r: "r = takeWhile p r @ trim s t"
    by (simp add: trim_def ltrim_dropWhile p_def flip: r_def)
  have "set (takeWhile p r) \<subseteq> set t" "set (rev (takeWhile p (rev s))) \<subseteq> set t"
    using set_takeWhileD by (fastforce simp: p_def)+
  moreover have "hd (trim s t) \<notin> set t" if "trim s t \<noteq> []"
    using that hd_dropWhile [of p r] by (simp add: trim_def ltrim_dropWhile p_def flip: r_def)
  moreover have "last (trim s t) \<notin> set t" if "trim s t \<noteq> []"
  proof -
    have "r \<noteq> []" using r that by auto
    moreover have "last (trim s t) = last r" using r that by (metis last_appendR)
    ultimately show ?thesis
      using hd_dropWhile [of "\<lambda>c. c \<in> set t" "rev s"]
      by (simp add: r_def rtrim_dropWhile last_rev)
  qed
  ultimately show ?thesis using s r by (metis append.assoc)
qed

section \<open>Comparisons\<close>

lemma equal_lower_loop_eq:
  "i \<le> n \<Longrightarrow> i \<le> length a \<Longrightarrow> i \<le> length b \<Longrightarrow>
   equal_lower_loop a b n i =
   (n \<le> length a \<and> n \<le> length b \<and> (\<forall>j. i \<le> j \<and> j < n \<longrightarrow> a ! j = tolower (b ! j)))"
proof (induction a b n i rule: equal_lower_loop.induct)
  case (1 a b n i)
  show ?case
  proof (cases "i < n \<and> i \<noteq> length a \<and> i \<noteq> length b \<and> a ! i = tolower (b ! i)")
    case True
    with 1 have "equal_lower_loop a b n (Suc i) =
      (n \<le> length a \<and> n \<le> length b \<and> (\<forall>j. Suc i \<le> j \<and> j < n \<longrightarrow> a ! j = tolower (b ! j)))"
      by simp
    moreover have "(\<forall>j. i \<le> j \<and> j < n \<longrightarrow> a ! j = tolower (b ! j)) =
      (\<forall>j. Suc i \<le> j \<and> j < n \<longrightarrow> a ! j = tolower (b ! j))"
      using True by (metis Suc_le_eq le_eq_less_or_eq)
    ultimately show ?thesis using True by (subst equal_lower_loop.simps) simp
  next
    case False
    then consider "n \<le> i" | "i < n" "i = length a \<or> i = length b"
      | "i < n" "a ! i \<noteq> tolower (b ! i)" by linarith
    then show ?thesis
    proof cases
      case 1
      then have "equal_lower_loop a b n i" by (subst equal_lower_loop.simps) simp
      moreover have "\<not> (i \<le> j \<and> j < n)" for j using 1 by linarith
      moreover have "n \<le> length a" "n \<le> length b" using 1 "1.prems" by simp_all
      ultimately show ?thesis by blast
    next
      case 2
      then have "\<not> equal_lower_loop a b n i" by (subst equal_lower_loop.simps) simp
      with 2 show ?thesis by auto
    next
      case 3
      then have "\<not> equal_lower_loop a b n i" by (subst equal_lower_loop.simps) simp
      with 3 show ?thesis by blast
    qed
  qed
qed

text \<open>What \<open>equal_lower\<close> decides: the first string is the lower-casing of the second. The
  parenthesis in \<open>::tolower(a[i] != ::tolower(b[i]))\<close> leaves the first string's characters
  as they are, so the test is not a case-insensitive comparison (it is not even reflexive).\<close>

theorem equal_lower_iff: "equal_lower a b = (a = map tolower b)"
proof -
  have "equal_lower a b = (length a = length b \<and> (\<forall>j < length a. a ! j = tolower (b ! j)))"
    by (auto simp: equal_lower_def equal_lower_n_def equal_lower_loop_eq)
  then show ?thesis by (auto simp: list_eq_iff_nth_eq)
qed

text \<open>Comparing the first half with the reversed string is enough: \<open>is_palindrome\<close> decides
  equality with the reverse.\<close>

theorem is_palindrome_iff: "is_palindrome s = (rev s = s)"
proof
  assume pal: "is_palindrome s"
  have half: "s ! i = s ! (length s - 1 - i)" if "i < length s div 2" for i
  proof -
    have "take (length s div 2) s ! i = take (length s div 2) (rev s) ! i"
      using pal by (simp add: is_palindrome_def)
    with that show ?thesis by (simp add: rev_nth)
  qed
  show "rev s = s"
  proof (rule nth_equalityI)
    fix i assume "i < length (rev s)"
    then have i: "i < length s" by simp
    consider "i < length s div 2" | "length s - 1 - i < length s div 2" | "length s - 1 - i = i"
      using i by linarith
    then have "s ! i = s ! (length s - 1 - i)"
    proof cases
      case 2
      with half [OF 2] i show ?thesis by simp
    qed (simp_all add: half)
    with i show "rev s ! i = s ! i" by (simp add: rev_nth)
  qed simp
qed (simp add: is_palindrome_def)

section \<open>HTML escaping\<close>

definition esc_chr :: "char \<Rightarrow> string" where
  "esc_chr c =
     (if c = CHR ''<'' then ''&amplt'' else if c = CHR ''>'' then ''&ampgt''
      else if c = CHR 0x22 then ''&ampquot'' else if c = CHR 0x27 then ''&amp#039''
      else if c = CHR ''&'' then ''&amp'' else [c])"

text \<open>What \<open>htmlescape\<close> produces, character by character. The ampersand pass runs last and
  rewrites the ampersands of the earlier passes, and no entity gets its semicolon; still, no
  markup character (less-than, greater-than, either quote) survives.\<close>

theorem htmlescape_chars:
  "htmlescape s = concat (map esc_chr s)
   \<and> set (htmlescape s) \<inter> {CHR ''<'', CHR ''>'', CHR 0x22, CHR 0x27} = {}"
proof -
  have "htmlescape s = concat (map esc_chr s)"
    by (induction s) (simp_all add: htmlescape_def replace_chr_def esc_chr_def Let_def)
  moreover have "set (esc_chr c) \<inter> {CHR ''<'', CHR ''>'', CHR 0x22, CHR 0x27} = {}" for c
    by (simp add: esc_chr_def)
  ultimately show ?thesis by auto
qed

end
