(* ===== verification/Libio_Byte_Queue.thy ===== *)
theory Libio_Byte_Queue
  imports Libio_Prelude "HOL-Library.Sublist"
begin

text \<open>
  The interface between the buffer and the code that writes into one (\<open>request::send_to\<close>,
  \<open>connection::push\<close>, the canned error pages): a queue of bytes with an invariant, an
  abstract content, the space it uses, and an operation that appends a string. An append
  returns 0, or -1 with the content unchanged when the allocator refuses; the callers in the
  repository ignore that value, as \<open>push_strings\<close> does. The second locale adds that the
  allocator never refuses.
\<close>

text \<open>\<open>b->push(s1); b->push(s2); ...\<close>\<close>

fun push_strings :: "(string \<Rightarrow> 'q \<Rightarrow> (int \<times> 'q) res) \<Rightarrow> string list \<Rightarrow> 'q \<Rightarrow> 'q res" where
  "push_strings push [] q = Inr q"
| "push_strings push (s # ss) q = bind_res (push s q) (\<lambda>(r, q'). push_strings push ss q')"

locale byte_queue =
  fixes ok :: "'q \<Rightarrow> bool"
    and content :: "'q \<Rightarrow> char list"
    and used :: "'q \<Rightarrow> int"
    and push :: "string \<Rightarrow> 'q \<Rightarrow> (int \<times> 'q) res"
  assumes used_content: "ok q \<Longrightarrow> int (length (content q)) \<le> used q"
    and push_ok: "ok q \<Longrightarrow> int (length s) \<le> INT_MAX \<Longrightarrow> push s q = Inr (r, q') \<Longrightarrow>
      ok q' \<and> used q' \<le> used q + int (length s) \<and>
      (r = 0 \<and> content q' = content q @ s \<or> r = -1 \<and> content q' = content q)"
    and push_returns: "ok q \<Longrightarrow> used q + int (length s) \<le> 1073741824 \<Longrightarrow> \<exists>r q'. push s q = Inr (r, q')"
begin

lemma room_int_max: "ok q \<Longrightarrow> used q + int (length s) \<le> 1073741824 \<Longrightarrow> int (length s) \<le> INT_MAX"
  using used_content [of q] by (simp add: INT_MAX_def)

text \<open>Each string arrives whole or, after a refused allocation, not at all.\<close>

lemma push_strings_keeps:
  "ok q \<Longrightarrow> used q + int (length (concat ss)) \<le> 1073741824 \<Longrightarrow>
   \<exists>q' ts. push_strings push ss q = Inr q' \<and> ok q' \<and> subseq ts ss \<and> content q' = content q @ concat ts"
proof (induction ss arbitrary: q)
  case (Cons s ss)
  from Cons.prems have room: "used q + int (length s) \<le> 1073741824" by simp
  from push_returns [OF Cons.prems(1) room] obtain r q1 where p: "push s q = Inr (r, q1)" by blast
  from push_ok [OF Cons.prems(1) room_int_max [OF Cons.prems(1) room] p]
  have q1: "ok q1" "used q1 + int (length (concat ss)) \<le> 1073741824"
    "content q1 = content q @ s \<or> content q1 = content q" using Cons.prems(2) by auto
  from Cons.IH [OF q1(1,2)] obtain q' ts where
    "push_strings push ss q1 = Inr q'" "ok q'" "subseq ts ss" "content q' = content q1 @ concat ts" by blast
  moreover from this have "subseq ts (s # ss)" "subseq (s # ts) (s # ss)" by auto
  moreover from q1(3) have "content q1 @ concat ts = content q @ concat (s # ts)
    \<or> content q1 @ concat ts = content q @ concat ts" by auto
  ultimately show ?case using p by auto
qed auto

end

locale reliable_byte_queue = byte_queue +
  assumes push_accepts: "ok q \<Longrightarrow> used q + int (length s) \<le> 1073741824 \<Longrightarrow> push s q = Inr (r, q') \<Longrightarrow> r = 0"
begin

lemma push_appends:
  assumes "ok q" and "used q + int (length s) \<le> 1073741824"
  shows "\<exists>q'. push s q = Inr (0, q') \<and> ok q' \<and> content q' = content q @ s
    \<and> used q' \<le> used q + int (length s)"
proof -
  from push_returns [OF assms] obtain r q' where p: "push s q = Inr (r, q')" by blast
  with push_accepts [OF assms p] push_ok [OF assms(1) room_int_max [OF assms] p] show ?thesis by auto
qed

lemma push_strings_appends:
  "ok q \<Longrightarrow> used q + int (length (concat ss)) \<le> 1073741824 \<Longrightarrow>
   \<exists>q'. push_strings push ss q = Inr q' \<and> ok q' \<and> content q' = content q @ concat ss
     \<and> used q' \<le> used q + int (length (concat ss))"
proof (induction ss arbitrary: q)
  case (Cons s ss)
  from Cons.prems have "used q + int (length s) \<le> 1073741824" by simp
  from push_appends [OF Cons.prems(1) this] obtain q1 where q1: "push s q = Inr (0, q1)" "ok q1"
    "content q1 = content q @ s" "used q1 \<le> used q + int (length s)" by blast
  then have "used q1 + int (length (concat ss)) \<le> 1073741824" using Cons.prems(2) by simp
  from Cons.IH [OF q1(2) this] q1 Cons.prems(2) show ?case by auto
qed auto

end

end
