(* ===== verification/Libio_Buffer.thy ===== *)
theory Libio_Buffer
  imports Libio_Byte_Queue
begin

text \<open>
  The dynamic byte buffer of \<open>src/core/buffer.hh\<close>, method by method. The allocation
  \<open>originbuf\<close> is a memory object (a byte list), the pointer \<open>buf_\<close> is its offset \<open>bufptr\<close>
  into it, \<open>misalign\<close>, \<open>off\<close> and \<open>totallen\<close> are the source's ints. Every
  \<open>memcpy\<close>, \<open>memmove\<close>, \<open>memchr\<close> and \<open>memcmp\<close> is a bounds-checked access of that
  object, so memory safety is a theorem and not an assumption. The allocator and the system
  calls \<open>read\<close> and \<open>write\<close> are arguments. The theory then defines the abstract view of
  a buffer (the byte queue \<open>buffer_content\<close>) and the invariant \<open>buffer_ok\<close>, and proves
  that every method keeps the invariant, acts on the abstract queue as it should, and does
  not fault.
\<close>

named_theorems buffer_spec \<open>what a buffer operation does to a buffer that satisfies the invariant\<close>

section \<open>Definitions\<close>

record buffer =
  originbuf :: "char list"
  bufptr :: int
  misalign :: int
  off :: int
  totallen :: int

definition MAX_READ :: int where
  "MAX_READ = 4096"

definition DEFAULT_SIZE :: int where
  "DEFAULT_SIZE = 128"

definition fresh_bytes :: "heap_env \<Rightarrow> nat \<Rightarrow> nat \<Rightarrow> char list" where
  "fresh_bytes e i j = map (fresh e) [i..<j]"

definition realloc :: "heap_env \<Rightarrow> char list \<Rightarrow> int \<Rightarrow> char list option" where
  "realloc e m n =
     (if can_alloc e n then Some (take (nat n) m @ fresh_bytes e (length m) (nat n)) else None)"

definition buffer_new :: "heap_env \<Rightarrow> buffer res" where
  "buffer_new e =
     (if can_alloc e DEFAULT_SIZE
      then Inr \<lparr>originbuf = fresh_bytes e 0 (nat DEFAULT_SIZE), bufptr = 0,
                misalign = 0, off = 0, totallen = DEFAULT_SIZE\<rparr>
      else Inl BadAlloc)"

definition buffer_empty :: "buffer \<Rightarrow> bool" where
  "buffer_empty b = (off b = 0)"

definition buffer_length :: "buffer \<Rightarrow> nat" where
  "buffer_length b = nat (off b)"

definition buffer_clear :: "buffer \<Rightarrow> buffer" where
  "buffer_clear b = b\<lparr>misalign := 0, off := 0, bufptr := 0\<rparr>"

text \<open>\<open>if (misalign + off < totallen) bufptr[off] = '\0';\<close>\<close>

definition buffer_nul :: "buffer \<Rightarrow> buffer res" where
  "buffer_nul b =
     bind_res (cint (misalign b + off b)) (\<lambda>s.
       if s < totallen b
       then bind_res (mem_write (originbuf b) (bufptr b + off b) [NUL]) (\<lambda>m.
              Inr (b\<lparr>originbuf := m\<rparr>))
       else Inr b)"

definition buffer_align :: "buffer \<Rightarrow> buffer res" where
  "buffer_align b =
     bind_res (mem_read (originbuf b) (bufptr b) (off b)) (\<lambda>d.
     bind_res (mem_write (originbuf b) 0 d) (\<lambda>m.
       Inr (b\<lparr>originbuf := m, bufptr := 0, misalign := 0\<rparr>)))"

definition buffer_drain :: "int \<Rightarrow> buffer \<Rightarrow> buffer res" where
  "buffer_drain len b =
     buffer_nul
       (if off b \<le> len then b\<lparr>off := 0, bufptr := 0, misalign := 0\<rparr>
        else b\<lparr>bufptr := bufptr b + len, misalign := misalign b + len, off := off b - len\<rparr>)"

text \<open>
  \<open>while (length < need) length <<= 1;\<close>. Shifting a value out of the int range is undefined;
  so is shifting a negative one, and a zero would never grow.
\<close>

function grow :: "int \<Rightarrow> int \<Rightarrow> int res" where
  "grow len need =
     (if len < need then
        (if len = 0 then Inl NoReturn
         else if len < 0 \<or> INT_MAX < 2 * len then Inl IntOverflow
         else grow (2 * len) need)
      else Inr len)"
  by pat_completeness auto
termination
  by (relation "measure (\<lambda>(len, need). nat (need - len))") auto

declare grow.simps [simp del]

definition buffer_expand :: "heap_env \<Rightarrow> int \<Rightarrow> buffer \<Rightarrow> (int \<times> buffer) res" where
  "buffer_expand e count b =
     bind_res (cint (misalign b + off b + count)) (\<lambda>need.
       if need \<le> totallen b then Inr (0, b)
       else if count \<le> misalign b then bind_res (buffer_align b) (\<lambda>b'. Inr (0, b'))
       else
         bind_res (grow (if totallen b < 256 then 256 else totallen b) need) (\<lambda>len.
         bind_res (if bufptr b \<noteq> 0 then buffer_align b else Inr b) (\<lambda>b'.
           case realloc e (originbuf b') len of
             None \<Rightarrow> Inr (-1, b')
           | Some newbuf \<Rightarrow> Inr (0, b'\<lparr>originbuf := newbuf, bufptr := 0, totallen := len\<rparr>))))"

text \<open>
  \<open>push(void *data, int length)\<close>: \<open>data\<close> is the memory object the pointer points into,
  from the pointer on.
\<close>

definition buffer_push_mem :: "heap_env \<Rightarrow> char list \<Rightarrow> int \<Rightarrow> buffer \<Rightarrow> (int \<times> buffer) res" where
  "buffer_push_mem e data len b =
     bind_res (cint (off b + misalign b + len)) (\<lambda>need.
     bind_res (if totallen b < need then buffer_expand e len b else Inr (0, b)) (\<lambda>(r, b1).
       if r = -1 then Inr (-1, b1)
       else
         bind_res (mem_read data 0 len) (\<lambda>d.
         bind_res (mem_write (originbuf b1) (bufptr b1 + off b1) d) (\<lambda>m.
         bind_res (cint (off b1 + len)) (\<lambda>off'.
           Inr (0, b1\<lparr>originbuf := m, off := off'\<rparr>))))))"

text \<open>\<open>push(const std::string &s)\<close>: the length is converted from \<open>size_t\<close> to \<open>int\<close>.\<close>

definition buffer_push_string :: "heap_env \<Rightarrow> string \<Rightarrow> buffer \<Rightarrow> (int \<times> buffer) res" where
  "buffer_push_string e s b = buffer_push_mem e (s @ [NUL]) (to_int (int (length s))) b"

text \<open>
  \<open>push(buffer *input, int length)\<close>, for an \<open>input\<close> other than the buffer itself;
  \<open>None\<close> is a null pointer. The result is the return value, the input and the buffer.
\<close>

definition buffer_push_buffer ::
  "heap_env \<Rightarrow> buffer option \<Rightarrow> int \<Rightarrow> buffer \<Rightarrow> (int \<times> buffer option \<times> buffer) res" where
  "buffer_push_buffer e input len b =
     (case input of
        None \<Rightarrow> Inr (0, None, b)
      | Some inp \<Rightarrow>
          let len1 = (if len = -1 then to_int (int (buffer_length inp)) else len);
              len2 = (if off inp < len1 \<or> len1 < 0 then off inp else len1) in
          bind_res (buffer_push_mem e (drop (nat (bufptr inp)) (originbuf inp)) len2 b) (\<lambda>(r, b').
            if r = 0
            then bind_res (buffer_drain len2 inp) (\<lambda>inp'. Inr (r, Some inp', b'))
            else Inr (r, Some inp, b')))"

text \<open>\<open>pop(void *data, int length)\<close>: the return value, the bytes stored at \<open>data\<close>, the buffer.\<close>

definition buffer_pop_mem :: "int \<Rightarrow> buffer \<Rightarrow> (int \<times> char list \<times> buffer) res" where
  "buffer_pop_mem len b =
     (let n = (if off b < len then off b else len) in
      bind_res (mem_read (originbuf b) (bufptr b) n) (\<lambda>d.
      bind_res (if 0 < n then buffer_drain n b else Inr b) (\<lambda>b1.
      bind_res (buffer_nul b1) (\<lambda>b2. Inr (n, d, b2)))))"

definition CR :: char where
  "CR = CHR 0x0D"

definition LF :: char where
  "LF = CHR 0x0A"

definition is_eol :: "char \<Rightarrow> bool" where
  "is_eol c = (c = CR \<or> c = LF)"

text \<open>\<open>std::string pop()\<close>: a line; \<open>std::string line(data)\<close> stops at the first null.\<close>

definition buffer_pop_line :: "buffer \<Rightarrow> (string \<times> buffer) res" where
  "buffer_pop_line b =
     bind_res (mem_read (originbuf b) (bufptr b) (off b)) (\<lambda>data.
       let i = length (takeWhile (\<lambda>c. \<not> is_eol c) data) in
       if int i = off b then Inr ([], b)
       else
         let onemore =
               (if int i + 1 < off b \<and>
                   (data ! i = CR \<and> data ! (i + 1) = LF \<or> data ! i = LF \<and> data ! (i + 1) = CR)
                then 1 else 0) in
         bind_res (mem_write (originbuf b) (bufptr b + int i) [NUL]) (\<lambda>m1.
         bind_res (mem_write m1 (bufptr b + int i + onemore) [NUL]) (\<lambda>m2.
         bind_res (buffer_drain (int i + onemore + 1) (b\<lparr>originbuf := m2\<rparr>)) (\<lambda>b'.
           Inr (takeWhile (\<lambda>c. c \<noteq> NUL) (drop (nat (bufptr b)) m2), b')))))"

text \<open>The search loop of \<open>find\<close>; pointers are offsets into the allocation.\<close>

function buffer_find_loop :: "buffer \<Rightarrow> char list \<Rightarrow> int \<Rightarrow> int \<Rightarrow> int \<Rightarrow> int option res" where
  "buffer_find_loop b what len search remain =
     (if len < remain then
        bind_res (mem_read what 0 1) (\<lambda>w0.
        bind_res (mem_read (originbuf b) search remain) (\<lambda>region.
          case find_chr (hd w0) region of
            None \<Rightarrow> Inr None
          | Some k \<Rightarrow>
              let p = search + int k in
              bind_res (mem_read (originbuf b) p len) (\<lambda>x.
              bind_res (mem_read what 0 len) (\<lambda>y.
                if x = y then Inr (Some p)
                else buffer_find_loop b what len (p + 1) (off b - (p + 1 - bufptr b))))))
      else Inr None)"
  by pat_completeness auto
termination
proof (relation "measure (\<lambda>(b, what, len, search, remain). nat (int (length (originbuf b)) - search))")
  fix b :: buffer and what len search remain w0 region k p x y
  assume r: "mem_read (originbuf b) search remain = Inr region"
    and k: "find_chr (hd w0) region = Some k" and p: "p = search + int k"
  from r have b: "0 \<le> search" "search + remain \<le> int (length (originbuf b))" "0 \<le> remain"
    "length region = nat remain" by (auto simp: mem_read_eq_Inr)
  with find_chr_Some [OF k] have "int k < remain" by linarith
  with b p show "((b, what, len, p + 1, off b - (p + 1 - bufptr b)), b, what, len, search, remain)
    \<in> measure (\<lambda>(b, what, len, search, remain). nat (int (length (originbuf b)) - search))" by simp
qed simp

declare buffer_find_loop.simps [simp del]

text \<open>\<open>find(const char *what, int length)\<close>: a match as its offset from \<open>bufptr\<close>.\<close>

definition buffer_find :: "char list \<Rightarrow> int \<Rightarrow> buffer \<Rightarrow> int option res" where
  "buffer_find what len b =
     bind_res (buffer_find_loop b what len (bufptr b) (off b)) (\<lambda>r.
       Inr (map_option (\<lambda>p. p - bufptr b) r))"

definition buffer_find_string :: "string \<Rightarrow> buffer \<Rightarrow> int option res" where
  "buffer_find_string s b = buffer_find (s @ [NUL]) (to_int (int (length s))) b"

text \<open>
  The system calls, code outside the repository: \<open>read(fd, p, n)\<close> gives the bytes it stored
  (\<open>None\<close> for an error), \<open>write(fd, p, n)\<close> its return value.
\<close>

type_synonym sys_read = "int \<Rightarrow> int \<Rightarrow> char list option"
type_synonym sys_write = "int \<Rightarrow> char list \<Rightarrow> int"

definition buffer_read :: "heap_env \<Rightarrow> sys_read \<Rightarrow> int \<Rightarrow> int \<Rightarrow> buffer \<Rightarrow> (int \<times> buffer) res" where
  "buffer_read e rd fd count b =
     (let n = (if count < 0 \<or> MAX_READ < count then MAX_READ else count) in
      bind_res (buffer_expand e n b) (\<lambda>(r, b1).
        if r = -1 then Inr (-1, b1)
        else
          case rd fd n of
            None \<Rightarrow> Inr (-1, b1)
          | Some bs \<Rightarrow>
              bind_res (mem_write (originbuf b1) (bufptr b1 + off b1) bs) (\<lambda>m.
                if bs = [] then Inr (0, b1)
                else
                  bind_res (cint (off b1 + int (length bs))) (\<lambda>off'.
                  bind_res (buffer_nul (b1\<lparr>originbuf := m, off := off'\<rparr>)) (\<lambda>b2.
                    Inr (int (length bs), b2))))))"

definition buffer_write :: "sys_write \<Rightarrow> int \<Rightarrow> buffer \<Rightarrow> (int \<times> buffer) res" where
  "buffer_write wr fd b =
     bind_res (mem_read (originbuf b) (bufptr b) (off b)) (\<lambda>d.
       let n = wr fd d in
       if n = -1 \<or> n = 0 then Inr (n, b)
       else bind_res (buffer_drain n b) (\<lambda>b'. Inr (n, b')))"

text \<open>The invariant and the abstract view.\<close>

definition buffer_ok :: "buffer \<Rightarrow> bool" where
  "buffer_ok b =
     (bufptr b = misalign b \<and> 0 \<le> misalign b \<and> 0 \<le> off b \<and>
      misalign b + off b \<le> totallen b \<and> totallen b \<le> INT_MAX \<and>
      int (length (originbuf b)) = totallen b)"

definition buffer_content :: "buffer \<Rightarrow> char list" where
  "buffer_content b = take (nat (off b)) (drop (nat (bufptr b)) (originbuf b))"

text \<open>Room for \<open>n\<close> more bytes without leaving the int range while growing.\<close>

definition buffer_used :: "buffer \<Rightarrow> int" where
  "buffer_used b = misalign b + off b"

definition buffer_fits :: "nat \<Rightarrow> buffer \<Rightarrow> bool" where
  "buffer_fits n b = (buffer_used b + int n \<le> 1073741824)"

text \<open>What \<open>read\<close> and \<open>write\<close> of POSIX promise.\<close>

definition read_contract :: "sys_read \<Rightarrow> bool" where
  "read_contract rd = (\<forall>fd n bs. rd fd n = Some bs \<longrightarrow> length bs \<le> nat n)"

definition write_contract :: "sys_write \<Rightarrow> bool" where
  "write_contract wr = (\<forall>fd bs. -1 \<le> wr fd bs \<and> wr fd bs \<le> int (length bs))"

text \<open>
  The buffers a program can build with the public methods, whatever arguments it passes,
  as long as no call faults and the system calls keep their promises.
\<close>

inductive buffer_reach :: "buffer \<Rightarrow> bool" where
  reach_new: "buffer_new e = Inr b \<Longrightarrow> buffer_reach b"
| reach_clear: "buffer_reach b \<Longrightarrow> buffer_reach (buffer_clear b)"
| reach_push: "buffer_reach b \<Longrightarrow> buffer_push_mem e data len b = Inr (r, b') \<Longrightarrow> buffer_reach b'"
| reach_push_string: "buffer_reach b \<Longrightarrow> buffer_push_string e s b = Inr (r, b') \<Longrightarrow> buffer_reach b'"
| reach_push_buffer: "buffer_reach b \<Longrightarrow> buffer_reach inp \<Longrightarrow>
    buffer_push_buffer e (Some inp) len b = Inr (r, inp', b') \<Longrightarrow> buffer_reach b'"
| reach_push_input: "buffer_reach b \<Longrightarrow> buffer_reach inp \<Longrightarrow>
    buffer_push_buffer e (Some inp) len b = Inr (r, Some inp', b') \<Longrightarrow> buffer_reach inp'"
| reach_pop: "buffer_reach b \<Longrightarrow> buffer_pop_mem len b = Inr (r, bs, b') \<Longrightarrow> buffer_reach b'"
| reach_pop_line: "buffer_reach b \<Longrightarrow> buffer_pop_line b = Inr (l, b') \<Longrightarrow> buffer_reach b'"
| reach_read: "buffer_reach b \<Longrightarrow> read_contract rd \<Longrightarrow> buffer_fits 4096 b \<Longrightarrow>
    buffer_read e rd fd count b = Inr (n, b') \<Longrightarrow> buffer_reach b'"
| reach_write: "buffer_reach b \<Longrightarrow> write_contract wr \<Longrightarrow>
    buffer_write wr fd b = Inr (n, b') \<Longrightarrow> buffer_reach b'"

text \<open>A line of a byte sequence, and what is left after its terminator.\<close>

definition line_of :: "string \<Rightarrow> (string \<times> string) option" where
  "line_of cs =
     (let pre = takeWhile (\<lambda>c. \<not> is_eol c) cs in
      case drop (length pre) cs of
        [] \<Rightarrow> None
      | c # r \<Rightarrow>
          Some (takeWhile (\<lambda>c. c \<noteq> NUL) pre,
                if r \<noteq> [] \<and> is_eol (hd r) \<and> hd r \<noteq> c then tl r else r))"

text \<open>
  A buffer that satisfies the invariant is a split of its allocation in three: the bytes
  already drained, the content, the free space.
\<close>

definition mkbuf :: "char list \<Rightarrow> char list \<Rightarrow> char list \<Rightarrow> buffer" where
  "mkbuf pre c post =
     \<lparr>originbuf = pre @ c @ post, bufptr = int (length pre), misalign = int (length pre),
      off = int (length c), totallen = int (length pre + length c + length post)\<rparr>"

fun nul_first :: "char list \<Rightarrow> char list" where
  "nul_first [] = []"
| "nul_first (_ # p) = NUL # p"

section \<open>The invariant as a split of the allocation\<close>

lemma mkbuf_sel [simp]:
  "originbuf (mkbuf pre c post) = pre @ c @ post" "bufptr (mkbuf pre c post) = int (length pre)"
  "misalign (mkbuf pre c post) = int (length pre)" "off (mkbuf pre c post) = int (length c)"
  "totallen (mkbuf pre c post) = int (length pre + length c + length post)"
  by (simp_all add: mkbuf_def)

lemma buffer_content_mkbuf [simp]: "buffer_content (mkbuf pre c post) = c"
  by (simp add: buffer_content_def)

lemma buffer_ok_mkbuf [simp]:
  "buffer_ok (mkbuf pre c post) = (int (length pre + length c + length post) \<le> INT_MAX)"
  by (simp add: buffer_ok_def)

lemma buffer_ok_cases:
  assumes "buffer_ok b"
  obtains pre c post where "b = mkbuf pre c post"
    and "int (length pre + length c + length post) \<le> INT_MAX"
proof -
  let ?m = "originbuf b" and ?p = "nat (misalign b)" and ?n = "nat (off b)"
  let ?pre = "take ?p ?m" and ?c = "take ?n (drop ?p ?m)" and ?post = "drop (?p + ?n) ?m"
  have le: "?p + ?n \<le> length ?m" using assms by (auto simp: buffer_ok_def)
  have "?m = ?pre @ ?c @ ?post"
    by (metis add.commute append_take_drop_id drop_drop)
  moreover have "length ?pre = ?p" "length ?c = ?n" "length ?post = length ?m - ?p - ?n"
    using le by auto
  ultimately have "b = mkbuf ?pre ?c ?post" using assms le
    by (cases b) (simp add: mkbuf_def buffer_ok_def)
  moreover have "int (length ?pre + length ?c + length ?post) \<le> INT_MAX"
    using assms le by (simp add: buffer_ok_def)
  ultimately show ?thesis by (rule that)
qed

lemma mkbuf_update [simp]:
  "(mkbuf pre c post)\<lparr>originbuf := pre @ c @ post'\<rparr> = mkbuf pre c post'" if "length post' = length post"
  using that by (simp add: mkbuf_def)

lemma take_drop_append [simp]: "take k c @ drop k c @ z = c @ z"
  by (simp flip: append_assoc)

lemma length_nul_first [simp]: "length (nul_first p) = length p"
  by (cases p) auto

section \<open>Memory operations on a split\<close>

lemma mem_read_app [mem_simps]:
  "p = int (length a) \<Longrightarrow> n = int (length d) \<Longrightarrow> mem_read (a @ d @ z) p n = Inr d"
  by (simp add: mem_read_def)

lemma mem_write_app [mem_simps]:
  "p = int (length a) \<Longrightarrow> length d' = length d \<Longrightarrow> mem_write (a @ d @ z) p d' = Inr (a @ d' @ z)"
  unfolding mem_write_def by simp

lemma mem_write_prefix:
  "p = int (length a) \<Longrightarrow> length d \<le> length z \<Longrightarrow>
   mem_write (a @ z) p d = Inr (a @ d @ drop (length d) z)"
  unfolding mem_write_def by simp

lemma buffer_nul_mkbuf:
  "int (length pre + length c + length post) \<le> INT_MAX \<Longrightarrow>
   buffer_nul (mkbuf pre c post) = Inr (mkbuf pre c (nul_first post))"
proof -
  assume le: "int (length pre + length c + length post) \<le> INT_MAX"
  then have "cint (int (length pre) + int (length c)) = Inr (int (length pre) + int (length c))"
    by (simp add: INT_MIN_def)
  moreover have "mem_write (pre @ c @ x # p) (int (length pre) + int (length c)) [NUL]
      = Inr (pre @ c @ NUL # p)" for x p
    using mem_write_app [of "int (length pre + length c)" "pre @ c" "[NUL]" "[x]" p] by simp
  ultimately show ?thesis
    by (cases post) (simp_all add: buffer_nul_def)
qed

lemma buffer_align_mkbuf:
  "buffer_align (mkbuf pre c post) = Inr (mkbuf [] c (drop (length c) (pre @ c @ post)))"
proof -
  have "mem_write (pre @ c @ post) 0 c = Inr (c @ drop (length c) (pre @ c @ post))"
    using mem_write_prefix [of 0 "[]" c "pre @ c @ post"] by simp
  then show ?thesis by (simp add: buffer_align_def mem_simps mkbuf_def)
qed

lemma buffer_drain_mkbuf:
  assumes "int (length pre + length c + length post) \<le> INT_MAX" and "0 \<le> n"
  shows "\<exists>pre' post'. buffer_drain n (mkbuf pre c post) = Inr (mkbuf pre' (drop (nat n) c) post')
    \<and> length pre' + length (drop (nat n) c) + length post' = length pre + length c + length post"
proof (cases "int (length c) \<le> n")
  case True
  let ?b = "mkbuf [] [] (pre @ c @ post)"
  have "buffer_drain n (mkbuf pre c post) = buffer_nul ?b"
    using True by (simp add: buffer_drain_def mkbuf_def add.assoc)
  with assms buffer_nul_mkbuf [of "[]" "[]" "pre @ c @ post"]
  have "buffer_drain n (mkbuf pre c post) = Inr (mkbuf [] [] (nul_first (pre @ c @ post)))"
    by simp
  moreover have "drop (nat n) c = []" using True by simp
  ultimately show ?thesis by (intro exI [of _ "[]"] exI) auto
next
  case False
  let ?pre = "pre @ take (nat n) c" and ?c = "drop (nat n) c"
  have "buffer_drain n (mkbuf pre c post) = buffer_nul (mkbuf ?pre ?c post)"
    using False assms(2) by (simp add: buffer_drain_def mkbuf_def)
  with False assms buffer_nul_mkbuf [of ?pre ?c post]
  have "buffer_drain n (mkbuf pre c post) = Inr (mkbuf ?pre ?c (nul_first post))"
    by simp
  moreover have "length ?pre + length ?c = length pre + length c" using False by simp
  ultimately show ?thesis by (intro exI [of _ ?pre] exI [of _ "nul_first post"]) simp
qed

section \<open>Growing\<close>

lemma grow_spec: "grow len need = Inr n \<Longrightarrow> len \<le> n \<and> need \<le> n \<and> (n \<le> INT_MAX \<or> n = len)"
proof (induction len need rule: grow.induct)
  case (1 len need)
  from "1.prems" consider "\<not> len < need" "n = len"
    | "len < need" "0 < len" "2 * len \<le> INT_MAX" "grow (2 * len) need = Inr n"
    by (subst (asm) grow.simps) (auto split: if_splits)
  then show ?case by cases (use "1.IH" in auto)
qed

lemma grow_returns: "0 < len \<Longrightarrow> need \<le> 1073741824 \<Longrightarrow> \<exists>n. grow len need = Inr n"
proof (induction len need rule: grow.induct)
  case (1 len need)
  then show ?case by (subst grow.simps) (simp add: INT_MAX_def)
qed

text \<open>
  \<open>__expand\<close> on a split: the content stays, and on success there is room for \<open>count\<close>
  bytes behind it.
\<close>

lemma buffer_expand_mkbuf:
  assumes le: "int (length pre + length c + length post) \<le> INT_MAX" and "0 \<le> count"
    and ex: "buffer_expand e count (mkbuf pre c post) = Inr (r, b')"
  shows "\<exists>pre' post'. b' = mkbuf pre' c post' \<and> int (length pre' + length c + length post') \<le> INT_MAX
    \<and> (r = 0 \<and> count \<le> int (length post') \<or> r = -1) \<and> length pre' \<le> length pre"
proof -
  let ?b = "mkbuf pre c post" and ?al = "mkbuf [] c (drop (length c) (pre @ c @ post))"
  let ?need = "int (length pre) + int (length c) + count"
  consider "?need \<le> totallen ?b" | "\<not> ?need \<le> totallen ?b" "count \<le> int (length pre)"
    | "\<not> ?need \<le> totallen ?b" "\<not> count \<le> int (length pre)" by blast
  then show ?thesis
  proof cases
    case 1
    with ex le have "b' = mkbuf pre c post" "r = 0"
      by (auto simp: buffer_expand_def bind_res_eq_Inr cint_eq_Inr)
    with 1 le show ?thesis by (intro exI [of _ pre] exI [of _ post]) auto
  next
    case 2
    with ex le have "b' = ?al" "r = 0"
      by (auto simp: buffer_expand_def bind_res_eq_Inr cint_eq_Inr buffer_align_mkbuf)
    with 2 le show ?thesis
      by (intro exI [of _ "[]"] exI [of _ "drop (length c) (pre @ c @ post)"]) auto
  next
    case 3
    obtain post1 where b1: "(if bufptr ?b \<noteq> 0 then buffer_align ?b else Inr ?b) = Inr (mkbuf [] c post1)"
      and l1: "length c + length post1 = length pre + length c + length post"
      by (cases "pre = []") (auto simp: buffer_align_mkbuf)
    from 3 ex obtain len where g: "grow (if totallen ?b < 256 then 256 else totallen ?b) ?need = Inr len"
      and al: "(case realloc e (c @ post1) len of
             None \<Rightarrow> Inr (-1, mkbuf [] c post1)
           | Some newbuf \<Rightarrow>
               Inr (0, (mkbuf [] c post1)\<lparr>originbuf := newbuf, bufptr := 0, totallen := len\<rparr>)) = (Inr (r, b') :: (int \<times> buffer) res)"
      unfolding buffer_expand_def b1 by (auto simp: bind_res_eq_Inr cint_eq_Inr)
    from grow_spec [OF g] le have len: "totallen ?b \<le> len" "?need \<le> len" "len \<le> INT_MAX"
      by (auto split: if_splits simp: INT_MAX_def)
    show ?thesis
    proof (cases "can_alloc e len")
      case False
      with al l1 le show ?thesis
        by (intro exI [of _ "[]"] exI [of _ post1]) (auto simp: realloc_def)
    next
      case True
      let ?post = "post1 @ fresh_bytes e (length c + length post1) (nat len)"
      have ln: "length c + length post1 \<le> nat len" using l1 len(1) by simp
      have "0 \<le> len" using len(1) by simp
      with al True ln have "r = 0" "b' = mkbuf [] c ?post"
        by (auto simp: realloc_def mkbuf_def fresh_bytes_def)
      moreover have "int (length c + length ?post) = len"
        using ln \<open>0 \<le> len\<close> by (simp add: fresh_bytes_def)
      ultimately show ?thesis using len
        by (intro exI [of _ "[]"] exI [of _ ?post]) auto
    qed
  qed
qed

lemma buffer_expand_returns:
  assumes le: "int (length pre + length c + length post) \<le> INT_MAX" and "0 \<le> count"
    and fits: "int (length pre + length c) + count \<le> 1073741824"
  shows "\<exists>r b'. buffer_expand e count (mkbuf pre c post) = Inr (r, b') \<and> ((\<forall>n. can_alloc e n) \<longrightarrow> r = 0)"
proof -
  let ?b = "mkbuf pre c post" and ?need = "int (length pre) + int (length c) + count"
  have "0 < (if totallen ?b < 256 then 256 else totallen ?b)" by simp
  then obtain n where n: "grow (if totallen ?b < 256 then 256 else totallen ?b) ?need = Inr n"
    using grow_returns [of _ ?need] fits by auto
  have "cint ?need = Inr ?need" using fits assms(2) by (simp add: INT_MIN_def INT_MAX_def)
  with n show ?thesis
    by (cases "can_alloc e n") (auto simp: buffer_expand_def buffer_align_mkbuf realloc_def)
qed

section \<open>Specifications of the operations\<close>

lemma buffer_new_ok [buffer_spec]:
  "buffer_new e = Inr b \<Longrightarrow> buffer_ok b \<and> buffer_content b = []"
  by (auto simp: buffer_new_def buffer_ok_def buffer_content_def fresh_bytes_def DEFAULT_SIZE_def
      INT_MAX_def split: if_splits)

lemma buffer_empty_content: "buffer_ok b \<Longrightarrow> buffer_empty b = (buffer_content b = [])"
  by (erule buffer_ok_cases) (simp add: buffer_empty_def)

lemma buffer_length_content: "buffer_ok b \<Longrightarrow> buffer_length b = length (buffer_content b)"
  by (erule buffer_ok_cases) (simp add: buffer_length_def)

lemma buffer_off_content: "buffer_ok b \<Longrightarrow> off b = int (length (buffer_content b))"
  by (erule buffer_ok_cases) simp

lemma buffer_clear_ok [buffer_spec]:
  "buffer_ok b \<Longrightarrow> buffer_ok (buffer_clear b) \<and> buffer_content (buffer_clear b) = []"
  by (auto simp: buffer_ok_def buffer_clear_def buffer_content_def)

lemma buffer_drain_ok [buffer_spec]:
  assumes "buffer_ok b" and "0 \<le> n"
  shows "\<exists>b'. buffer_drain n b = Inr b' \<and> buffer_ok b'
    \<and> buffer_content b' = drop (nat n) (buffer_content b) \<and> totallen b' = totallen b"
proof -
  from assms(1) obtain pre c post where b: "b = mkbuf pre c post"
    and le: "int (length pre + length c + length post) \<le> INT_MAX" by (rule buffer_ok_cases)
  from buffer_drain_mkbuf [OF le assms(2)] obtain pre' post' where
    "buffer_drain n b = Inr (mkbuf pre' (drop (nat n) c) post')"
    "length pre' + length (drop (nat n) c) + length post' = length pre + length c + length post"
    unfolding b by blast
  with b le show ?thesis by auto
qed

lemma buffer_expand_ok [buffer_spec]:
  assumes "buffer_ok b" and "0 \<le> count" and "buffer_expand e count b = Inr (r, b')"
  shows "buffer_ok b' \<and> buffer_content b' = buffer_content b \<and>
    (r = 0 \<and> misalign b' + off b' + count \<le> totallen b' \<or> r = -1)"
proof -
  from assms(1) obtain pre c post where b: "b = mkbuf pre c post"
    and le: "int (length pre + length c + length post) \<le> INT_MAX" by (rule buffer_ok_cases)
  from buffer_expand_mkbuf [OF le assms(2)] assms(3) b obtain pre' post' where
    "b' = mkbuf pre' c post'" "int (length pre' + length c + length post') \<le> INT_MAX"
    "r = 0 \<and> count \<le> int (length post') \<or> r = -1" by blast
  with b show ?thesis by auto
qed

lemma buffer_push_mem_ok [buffer_spec]:
  assumes ok: "buffer_ok b" and "0 \<le> len" and push: "buffer_push_mem e data len b = Inr (r, b')"
  shows "buffer_ok b' \<and> buffer_used b' \<le> buffer_used b + len \<and>
    (r = 0 \<and> buffer_content b' = buffer_content b @ take (nat len) data
     \<or> r = -1 \<and> buffer_content b' = buffer_content b \<and> buffer_used b' \<le> buffer_used b)"
proof -
  from ok obtain pre c post where b: "b = mkbuf pre c post"
    and le: "int (length pre + length c + length post) \<le> INT_MAX" by (rule buffer_ok_cases)
  from push obtain b1 r1 where
    b1: "(if totallen b < off b + misalign b + len then buffer_expand e len b else Inr (0, b)) = Inr (r1, b1)"
    and rest: "(if r1 = -1 then Inr (-1, b1)
       else bind_res (mem_read data 0 len) (\<lambda>d.
         bind_res (mem_write (originbuf b1) (bufptr b1 + off b1) d) (\<lambda>m.
         bind_res (cint (off b1 + len)) (\<lambda>off'.
           Inr (0, b1\<lparr>originbuf := m, off := off'\<rparr>))))) = (Inr (r, b') :: (int \<times> buffer) res)"
    unfolding buffer_push_mem_def by (auto simp: bind_res_eq_Inr cint_eq_Inr)
  have "\<exists>pre' post'. b1 = mkbuf pre' c post' \<and> int (length pre' + length c + length post') \<le> INT_MAX
    \<and> (r1 = 0 \<and> len \<le> int (length post') \<or> r1 = -1) \<and> length pre' \<le> length pre"
  proof (cases "totallen b < off b + misalign b + len")
    case True
    with b1 buffer_expand_mkbuf [OF le assms(2)] b show ?thesis by auto
  next
    case False
    with b1 b le show ?thesis by (intro exI [of _ pre] exI [of _ post]) auto
  qed
  then obtain pre' post' where m: "b1 = mkbuf pre' c post'"
    "int (length pre' + length c + length post') \<le> INT_MAX"
    "r1 = 0 \<and> len \<le> int (length post') \<or> r1 = -1" "length pre' \<le> length pre" by blast
  show ?thesis
  proof (cases "r1 = -1")
    case True
    with rest m b assms(2) show ?thesis by (auto simp: buffer_used_def)
  next
    case False
    with rest obtain d where d: "mem_read data 0 len = Inr d" by (auto simp: bind_res_eq_Inr)
    then have dt: "d = take (nat len) data" "int (length d) = len" using assms(2)
      by (auto simp: mem_read_eq_Inr)
    have "length d \<le> length post'" using m False dt(2) by auto
    then have w: "mem_write (originbuf b1) (bufptr b1 + off b1) d
        = Inr (pre' @ (c @ d) @ drop (length d) post')"
      using mem_write_prefix [of "int (length pre' + length c)" "pre' @ c" d post'] m by simp
    have "b' = mkbuf pre' (c @ d) (drop (length d) post') \<and> r = 0"
      using rest False d w m dt by (auto simp: bind_res_eq_Inr cint_eq_Inr mkbuf_def)
    with m dt False b show ?thesis by (auto simp: buffer_used_def)
  qed
qed

lemma buffer_push_mem_returns:
  assumes ok: "buffer_ok b" and len: "0 \<le> len" "len \<le> int (length data)" and fits: "buffer_fits (nat len) b"
  shows "\<exists>r b'. buffer_push_mem e data len b = Inr (r, b') \<and> ((\<forall>n. can_alloc e n) \<longrightarrow> r = 0)"
proof -
  from ok obtain pre c post where b: "b = mkbuf pre c post"
    and le: "int (length pre + length c + length post) \<le> INT_MAX" by (rule buffer_ok_cases)
  from fits len b have f: "int (length pre + length c) + len \<le> 1073741824"
    by (simp add: buffer_fits_def buffer_used_def)
  then have need: "cint (off b + misalign b + len) = Inr (off b + misalign b + len)"
    using b len by (simp add: INT_MIN_def INT_MAX_def)
  obtain r1 b1 where b1: "(if totallen b < off b + misalign b + len then buffer_expand e len b else Inr (0, b))
     = Inr (r1, b1)" and r1: "(\<forall>n. can_alloc e n) \<longrightarrow> r1 = 0"
    using buffer_expand_returns [OF le len(1) f, of e] b by (cases "totallen b < off b + misalign b + len") auto
  show ?thesis
  proof (cases "r1 = -1")
    case True
    with need b1 r1 show ?thesis by (simp add: buffer_push_mem_def)
  next
    case False
    have "\<exists>pre' post'. b1 = mkbuf pre' c post' \<and> len \<le> int (length post')"
    proof (cases "totallen b < off b + misalign b + len")
      case True
      with b1 buffer_expand_mkbuf [OF le len(1), of e r1 b1] b False show ?thesis by auto
    next
      case nogrow: False
      with b1 b show ?thesis by (intro exI [of _ pre] exI [of _ post]) auto
    qed
    then obtain pre' post' where m: "b1 = mkbuf pre' c post'" "len \<le> int (length post')" by blast
    have w: "mem_write (originbuf b1) (bufptr b1 + off b1) (take (nat len) data)
        = Inr (pre' @ (c @ take (nat len) data) @ drop (length (take (nat len) data)) post')"
      using mem_write_prefix [of "int (length pre' + length c)" "pre' @ c" "take (nat len) data" post'] m len
      by simp
    have "cint (off b1 + len) = Inr (off b1 + len)" using m f len by (simp add: INT_MIN_def INT_MAX_def)
    with need b1 False w len show ?thesis
      by (simp add: buffer_push_mem_def mem_read_def)
  qed
qed

lemma buffer_push_string_ok [buffer_spec]:
  assumes "buffer_ok b" and "int (length s) \<le> INT_MAX" and "buffer_push_string e s b = Inr (r, b')"
  shows "buffer_ok b' \<and> buffer_used b' \<le> buffer_used b + int (length s) \<and>
    (r = 0 \<and> buffer_content b' = buffer_content b @ s
     \<or> r = -1 \<and> buffer_content b' = buffer_content b)"
  using buffer_push_mem_ok [of b "int (length s)" e "s @ [NUL]" r b'] assms
  by (auto simp: buffer_push_string_def INT_MIN_def)

lemma buffer_push_string_returns:
  assumes "buffer_ok b" and "buffer_fits (length s) b"
  shows "\<exists>r b'. buffer_push_string e s b = Inr (r, b') \<and> ((\<forall>n. can_alloc e n) \<longrightarrow> r = 0)"
proof -
  have "0 \<le> misalign b + off b" using assms(1) by (auto simp: buffer_ok_def)
  then have "int (length s) \<le> INT_MAX" using assms(2) by (simp add: buffer_fits_def buffer_used_def INT_MAX_def)
  with buffer_push_mem_returns [of b "int (length s)" "s @ [NUL]" e] assms show ?thesis
    by (simp add: buffer_push_string_def INT_MIN_def)
qed

text \<open>How many bytes \<open>push(buffer *input, length)\<close> moves.\<close>

definition moved :: "int \<Rightarrow> nat \<Rightarrow> nat" where
  "moved len n = (if len < 0 \<or> int n < len then n else nat len)"

lemma moved_le: "moved len n \<le> n"
  by (auto simp: moved_def)

lemma buffer_push_buffer_eq:
  fixes len :: int
  assumes "buffer_ok inp"
  defines "k \<equiv> moved len (length (buffer_content inp))"
  shows "buffer_push_buffer e (Some inp) len b =
     bind_res (buffer_push_mem e (drop (nat (bufptr inp)) (originbuf inp)) (int k) b) (\<lambda>(r, b').
       if r = 0 then bind_res (buffer_drain (int k) inp) (\<lambda>inp'. Inr (r, Some inp', b'))
       else Inr (r, Some inp, b'))"
proof -
  from assms(1) have "off inp \<le> INT_MAX" "INT_MIN \<le> off inp" "0 \<le> off inp"
    by (auto simp: buffer_ok_def INT_MIN_def)
  moreover have "off inp = int (length (buffer_content inp))"
    using assms(1) by (rule buffer_off_content)
  ultimately have l2: "(if off inp < (if len = -1 then to_int (int (buffer_length inp)) else len)
      \<or> (if len = -1 then to_int (int (buffer_length inp)) else len) < 0 then off inp
     else (if len = -1 then to_int (int (buffer_length inp)) else len)) = int k"
    by (simp add: k_def moved_def buffer_length_def)
  show ?thesis unfolding buffer_push_buffer_def Let_def l2 option.case ..
qed

lemma mem_read_content:
  "buffer_ok b \<Longrightarrow> k \<le> length (buffer_content b) \<Longrightarrow>
   mem_read (originbuf b) (bufptr b) (int k) = Inr (take k (buffer_content b))"
  by (erule buffer_ok_cases) (simp add: mem_read_def)

lemma buffer_rest_content:
  "buffer_ok inp \<Longrightarrow> k \<le> length (buffer_content inp) \<Longrightarrow>
   take k (drop (nat (bufptr inp)) (originbuf inp)) = take k (buffer_content inp)"
  by (erule buffer_ok_cases) simp

lemma buffer_push_buffer_ok [buffer_spec]:
  assumes ok: "buffer_ok b" "buffer_ok inp"
    and push: "buffer_push_buffer e (Some inp) len b = Inr (r, inp', b')"
  defines "k \<equiv> moved len (length (buffer_content inp))"
  shows "\<exists>i. inp' = Some i \<and> buffer_ok i \<and> buffer_ok b' \<and>
    (r = 0 \<and> buffer_content b' = buffer_content b @ take k (buffer_content inp)
        \<and> buffer_content i = drop k (buffer_content inp)
     \<or> r = -1 \<and> buffer_content b' = buffer_content b \<and> i = inp)"
proof -
  have kle: "k \<le> length (buffer_content inp)" by (simp add: k_def moved_le)
  from push obtain r1 b1 where
    p: "buffer_push_mem e (drop (nat (bufptr inp)) (originbuf inp)) (int k) b = Inr (r1, b1)"
    and rest: "(if r1 = 0 then bind_res (buffer_drain (int k) inp) (\<lambda>inp'. Inr (r1, Some inp', b1))
       else Inr (r1, Some inp, b1)) = (Inr (r, inp', b') :: (int \<times> buffer option \<times> buffer) res)"
    using buffer_push_buffer_eq [OF ok(2), of e len b] unfolding k_def
    by (auto simp: bind_res_eq_Inr)
  from buffer_push_mem_ok [OF ok(1) _ p] buffer_rest_content [OF ok(2) kle]
  have b1: "buffer_ok b1 \<and> (r1 = 0 \<and> buffer_content b1 = buffer_content b @ take k (buffer_content inp)
     \<or> r1 = -1 \<and> buffer_content b1 = buffer_content b)" by auto
  from buffer_drain_ok [OF ok(2), of "int k"] obtain i where
    i: "buffer_drain (int k) inp = Inr i" "buffer_ok i" "buffer_content i = drop k (buffer_content inp)"
    by auto
  from b1 rest i ok show ?thesis by auto
qed

lemma buffer_push_buffer_returns:
  assumes ok: "buffer_ok b" "buffer_ok inp"
    and fits: "buffer_fits (moved len (length (buffer_content inp))) b"
  shows "\<exists>r inp' b'. buffer_push_buffer e (Some inp) len b = Inr (r, inp', b')
    \<and> ((\<forall>n. can_alloc e n) \<longrightarrow> r = 0)"
proof -
  let ?k = "moved len (length (buffer_content inp))"
  have "int ?k \<le> int (length (drop (nat (bufptr inp)) (originbuf inp)))"
    using moved_le [of len "length (buffer_content inp)"] by (simp add: buffer_content_def)
  then obtain r b' where
    "buffer_push_mem e (drop (nat (bufptr inp)) (originbuf inp)) (int ?k) b = Inr (r, b')"
    "(\<forall>n. can_alloc e n) \<longrightarrow> r = 0"
    using buffer_push_mem_returns [OF ok(1) of_nat_0_le_iff, of ?k "drop (nat (bufptr inp)) (originbuf inp)" e] fits
    by (metis nat_int)
  moreover obtain i where "buffer_drain (int ?k) inp = Inr i"
    using buffer_drain_ok [OF ok(2), of "int ?k"] by auto
  ultimately show ?thesis using buffer_push_buffer_eq [OF ok(2), of e len b]
    by (cases "r = 0") simp_all
qed

lemma buffer_push_buffer_used:
  assumes ok: "buffer_ok b" "buffer_ok inp" and push: "buffer_push_buffer e (Some inp) len b = Inr (r, inp', b')"
  shows "buffer_used b' \<le> buffer_used b + (if r = 0 then int (moved len (length (buffer_content inp))) else 0)"
proof -
  let ?k = "int (moved len (length (buffer_content inp)))"
  obtain x b1 where "buffer_push_mem e (drop (nat (bufptr inp)) (originbuf inp)) ?k b = Inr (x, b1)"
    "(if x = 0 then bind_res (buffer_drain ?k inp) (\<lambda>inp'. Inr (x, Some inp', b1))
       else Inr (x, Some inp, b1)) = (Inr (r, inp', b') :: (int \<times> buffer option \<times> buffer) res)"
    using push buffer_push_buffer_eq [OF ok(2), of e len b] by (auto simp: bind_res_eq_Inr)
  then have "buffer_push_mem e (drop (nat (bufptr inp)) (originbuf inp)) ?k b = Inr (r, b')"
    by (auto simp: bind_res_eq_Inr split: if_splits)
  from buffer_push_mem_ok [OF ok(1) _ this] show ?thesis by auto
qed

lemma buffer_nul_ok [buffer_spec]:
  "buffer_ok b \<Longrightarrow> \<exists>b'. buffer_nul b = Inr b' \<and> buffer_ok b' \<and> buffer_content b' = buffer_content b"
  by (erule buffer_ok_cases) (auto simp: buffer_nul_mkbuf)

lemma buffer_pop_mem_ok [buffer_spec]:
  assumes "buffer_ok b" and "0 \<le> len"
  defines "k \<equiv> min (nat len) (length (buffer_content b))"
  shows "\<exists>b'. buffer_pop_mem len b = Inr (int k, take k (buffer_content b), b') \<and> buffer_ok b'
    \<and> buffer_content b' = drop k (buffer_content b)"
proof -
  have n: "(if off b < len then off b else len) = int k"
    using buffer_off_content [OF assms(1)] assms(2) by (auto simp: k_def)
  have rd: "mem_read (originbuf b) (bufptr b) (int k) = Inr (take k (buffer_content b))"
    using assms(1) by (rule mem_read_content) (simp add: k_def)
  obtain b1 where b1: "(if 0 < int k then buffer_drain (int k) b else Inr b) = Inr b1" "buffer_ok b1"
    "buffer_content b1 = drop k (buffer_content b)"
    using buffer_drain_ok [OF assms(1), of "int k"] assms(1) by (cases "k = 0") auto
  from buffer_nul_ok [OF b1(2)] obtain b2 where
    "buffer_nul b1 = Inr b2" "buffer_ok b2" "buffer_content b2 = buffer_content b1" by blast
  with b1 show ?thesis unfolding buffer_pop_mem_def Let_def n rd by (auto simp only: bind_res.simps)
qed

section \<open>Lines\<close>

lemma line_of_None: "(line_of cs = None) = (\<forall>c \<in> set cs. \<not> is_eol c)"
proof -
  have "(takeWhile (\<lambda>c. \<not> is_eol c) cs = cs) = (\<forall>c \<in> set cs. \<not> is_eol c)"
    by (simp add: takeWhile_eq_all_conv)
  moreover have "(drop (length (takeWhile (\<lambda>c. \<not> is_eol c) cs)) cs = []) =
      (takeWhile (\<lambda>c. \<not> is_eol c) cs = cs)"
    by (metis append_Nil2 append_eq_conv_conj drop_eq_Nil length_takeWhile_le linorder_le_cases
        takeWhile_eq_take take_all_iff)
  ultimately show ?thesis by (auto simp: line_of_def Let_def split: list.splits)
qed

lemma line_of_app:
  "\<forall>c \<in> set u. \<not> is_eol c \<Longrightarrow> is_eol x \<Longrightarrow>
   line_of (u @ x # r) = Some (takeWhile (\<lambda>c. c \<noteq> NUL) u,
     if r \<noteq> [] \<and> is_eol (hd r) \<and> hd r \<noteq> x then tl r else r)"
  by (simp add: line_of_def Let_def takeWhile_append2)

lemma line_of_cases:
  obtains "line_of cs = None" "\<forall>c \<in> set cs. \<not> is_eol c"
  | u x r where "cs = u @ x # r" "\<forall>c \<in> set u. \<not> is_eol c" "is_eol x"
proof (cases "\<forall>c \<in> set cs. \<not> is_eol c")
  case True
  then show ?thesis using that(1) by (simp add: line_of_None)
next
  case False
  then obtain u x r where "cs = u @ x # r" "is_eol x" "\<forall>c \<in> set u. \<not> is_eol c"
    by (metis split_list_first_prop)
  then show ?thesis using that(2) by blast
qed

lemma line_of_shorter: "line_of cs = Some (l, r) \<Longrightarrow> length r < length cs"
  by (rule line_of_cases [of cs]) (auto simp: line_of_app split: if_splits)

lemma takeWhile_nul: "takeWhile (\<lambda>c. c \<noteq> NUL) (u @ NUL # z) = takeWhile (\<lambda>c. c \<noteq> NUL) u"
  by (induction u) auto

lemma buffer_pop_line_app:
  assumes le: "int (length pre + length c + length post) \<le> INT_MAX"
    and c: "c = u @ x # r" "\<forall>c \<in> set u. \<not> is_eol c" "is_eol x"
  shows "\<exists>b'. buffer_pop_line (mkbuf pre c post) = Inr (takeWhile (\<lambda>c. c \<noteq> NUL) u, b') \<and> buffer_ok b'
    \<and> buffer_content b' = (if r \<noteq> [] \<and> is_eol (hd r) \<and> hd r \<noteq> x then tl r else r)
    \<and> totallen b' = int (length pre + length c + length post)"
proof -
  let ?b = "mkbuf pre c post" and ?n = "length u"
  have i: "length (takeWhile (\<lambda>c. \<not> is_eol c) c) = ?n"
    using c by (simp add: takeWhile_append2)
  define pair where "pair = (r \<noteq> [] \<and> is_eol (hd r) \<and> hd r \<noteq> x)"
  have rd: "mem_read (originbuf ?b) (bufptr ?b) (off ?b) = Inr c" by (simp add: mem_simps)
  have onemore: "(int ?n + 1 < off ?b \<and> (c ! ?n = CR \<and> c ! (?n + 1) = LF \<or> c ! ?n = LF \<and> c ! (?n + 1) = CR))
      = pair"
    using c by (cases r) (auto simp: pair_def nth_append is_eol_def CR_def LF_def)
  define r' where "r' = (if pair then NUL # tl r else r)"
  have lr: "length r' = length r" by (cases r) (auto simp: r'_def pair_def)
  have w1: "mem_write (originbuf ?b) (bufptr ?b + int ?n) [NUL] = Inr (pre @ (u @ NUL # r) @ post)"
    using mem_write_app [of "int (length pre + ?n)" "pre @ u" "[NUL]" "[x]" "r @ post"] c by simp
  have w2: "mem_write (pre @ (u @ NUL # r) @ post) (bufptr ?b + int ?n + (if pair then 1 else 0)) [NUL]
      = Inr (pre @ (u @ NUL # r') @ post)"
  proof (cases pair)
    case True
    then obtain y t where r: "r = y # t" by (auto simp: pair_def neq_Nil_conv)
    then show ?thesis
      using mem_write_app [of "int (length pre) + int ?n + 1" "pre @ u @ [NUL]" "[NUL]" "[y]" "t @ post"] True
      by (simp add: r'_def)
  next
    case False
    then show ?thesis
      using mem_write_app [of "int (length pre + ?n)" "pre @ u" "[NUL]" "[NUL]" "r @ post"]
      by (simp add: r'_def)
  qed
  let ?b2 = "mkbuf pre (u @ NUL # r') post"
  have upd: "?b\<lparr>originbuf := pre @ (u @ NUL # r') @ post\<rparr> = ?b2"
    using lr c by (simp add: mkbuf_def)
  have ok2: "buffer_ok ?b2" using le c lr by simp
  let ?k = "int ?n + (if pair then 1 else 0) + 1"
  from buffer_drain_ok [OF ok2, of ?k] obtain b' where
    dr: "buffer_drain ?k ?b2 = Inr b'" "buffer_ok b'"
    "buffer_content b' = drop (nat ?k) (u @ NUL # r')" "totallen b' = totallen ?b2" by auto
  have "drop (nat ?k) (u @ NUL # r') = (if pair then tl r else r)"
    by (cases r) (auto simp: r'_def pair_def nat_add_distrib)
  moreover have ne: "int ?n \<noteq> off ?b" using c by simp
  have "buffer_pop_line ?b = Inr (takeWhile (\<lambda>c. c \<noteq> NUL) u, b')"
    unfolding buffer_pop_line_def rd bind_res.simps Let_def i onemore w1 w2 upd dr(1)
    using ne by (simp add: takeWhile_nul)
  ultimately show ?thesis using dr lr c by (auto simp: pair_def)
qed

text \<open>
  The line reader refines \<open>line_of\<close> on the content; with no line terminator it returns the
  empty string and leaves the buffer as it is.
\<close>

lemma buffer_pop_line_ok [buffer_spec]:
  assumes "buffer_ok b"
  shows "case line_of (buffer_content b) of
      None \<Rightarrow> buffer_pop_line b = Inr ([], b)
    | Some (l, rest) \<Rightarrow> \<exists>b'. buffer_pop_line b = Inr (l, b') \<and> buffer_ok b' \<and> buffer_content b' = rest
        \<and> totallen b' = totallen b"
proof -
  from assms obtain pre c post where b: "b = mkbuf pre c post"
    and le: "int (length pre + length c + length post) \<le> INT_MAX" by (rule buffer_ok_cases)
  show ?thesis
  proof (rule line_of_cases [of c])
    assume none: "line_of c = None" "\<forall>x \<in> set c. \<not> is_eol x"
    then have "takeWhile (\<lambda>c. \<not> is_eol c) c = c" by (simp add: takeWhile_eq_all_conv)
    then have "buffer_pop_line b = Inr ([], b)"
      unfolding buffer_pop_line_def b by (simp only: mkbuf_sel mem_read_app bind_res.simps Let_def simp_thms if_True)
    with none b show ?thesis by simp
  next
    fix u x r assume c: "c = u @ x # r" "\<forall>c \<in> set u. \<not> is_eol c" "is_eol x"
    from buffer_pop_line_app [OF le c] b line_of_app [OF c(2,3), of r] c(1)
    show ?thesis by (simp split: if_splits)
  qed
qed

section \<open>Reading and writing descriptors\<close>

lemma buffer_write_ok [buffer_spec]:
  assumes "buffer_ok b" and "write_contract wr"
  shows "\<exists>n b'. buffer_write wr fd b = Inr (n, b') \<and> buffer_ok b' \<and> n = wr fd (buffer_content b)
    \<and> buffer_content b' = drop (nat n) (buffer_content b)"
proof -
  have off: "off b = int (length (buffer_content b))" using assms(1) by (rule buffer_off_content)
  have rd: "mem_read (originbuf b) (bufptr b) (off b) = Inr (buffer_content b)"
    using mem_read_content [OF assms(1), of "length (buffer_content b)"] off by simp
  let ?n = "wr fd (buffer_content b)"
  show ?thesis
  proof (cases "?n = -1 \<or> ?n = 0")
    case True
    with rd assms(1) show ?thesis by (auto simp: buffer_write_def Let_def)
  next
    case False
    moreover have "-1 \<le> ?n" using assms(2) by (simp add: write_contract_def)
    ultimately have "0 \<le> ?n" by linarith
    with buffer_drain_ok [OF assms(1)] obtain b' where "buffer_drain ?n b = Inr b'" "buffer_ok b'"
      "buffer_content b' = drop (nat ?n) (buffer_content b)" by blast
    with rd False show ?thesis by (auto simp: buffer_write_def Let_def)
  qed
qed

definition read_count :: "int \<Rightarrow> int" where
  "read_count count = (if count < 0 \<or> MAX_READ < count then MAX_READ else count)"

lemma read_count_range: "0 \<le> read_count count \<and> read_count count \<le> 4096"
  by (simp add: read_count_def MAX_READ_def)

text \<open>
  A read keeps the invariant and appends what the system call delivered; on an error, at end
  of file and when the allocator refuses, the content stays.
\<close>

lemma buffer_read_ok [buffer_spec]:
  assumes ok: "buffer_ok b" and rd: "read_contract rd" and fits: "buffer_fits 4096 b"
  shows "\<exists>n b'. buffer_read e rd fd count b = Inr (n, b') \<and> buffer_ok b'
    \<and> ((\<forall>k. can_alloc e k) \<longrightarrow> n = (case rd fd (read_count count) of None \<Rightarrow> -1 | Some bs \<Rightarrow> int (length bs)))
    \<and> (if 0 < n then \<exists>bs. rd fd (read_count count) = Some bs \<and> n = int (length bs)
          \<and> buffer_content b' = buffer_content b @ bs
        else buffer_content b' = buffer_content b)"
proof -
  let ?n = "read_count count"
  from ok obtain pre c post where b: "b = mkbuf pre c post"
    and le: "int (length pre + length c + length post) \<le> INT_MAX" by (rule buffer_ok_cases)
  from fits b read_count_range [of count] have "int (length pre + length c) + ?n \<le> 1073741824"
    by (simp add: buffer_fits_def buffer_used_def)
  with buffer_expand_returns [OF le, of ?n e] read_count_range [of count] obtain r b1 where
    ex: "buffer_expand e ?n b = Inr (r, b1)" and r: "(\<forall>k. can_alloc e k) \<longrightarrow> r = 0"
    unfolding b by blast
  from buffer_expand_mkbuf [OF le, of ?n e r b1] ex b read_count_range [of count]
  obtain pre' post' where b1: "b1 = mkbuf pre' c post'"
    and le1: "int (length pre' + length c + length post') \<le> INT_MAX"
    and room: "r = 0 \<and> ?n \<le> int (length post') \<or> r = -1" by blast
  have step: "buffer_read e rd fd count b =
      (if r = -1 then Inr (-1, b1)
       else case rd fd ?n of None \<Rightarrow> Inr (-1, b1)
       | Some bs \<Rightarrow> bind_res (mem_write (originbuf b1) (bufptr b1 + off b1) bs) (\<lambda>m.
           if bs = [] then Inr (0, b1)
           else bind_res (cint (off b1 + int (length bs))) (\<lambda>off'.
             bind_res (buffer_nul (b1\<lparr>originbuf := m, off := off'\<rparr>)) (\<lambda>b2. Inr (int (length bs), b2)))))"
    unfolding buffer_read_def read_count_def [symmetric] Let_def ex by simp
  show ?thesis
  proof (cases "r = -1 \<or> rd fd ?n = None")
    case True
    then have "buffer_read e rd fd count b = Inr (-1, b1)" unfolding step by auto
    moreover have "(\<forall>k. can_alloc e k) \<longrightarrow> rd fd ?n = None" using True r by auto
    ultimately show ?thesis using b b1 le1 by (intro exI [of _ "-1"] exI [of _ b1]) simp
  next
    case False
    then obtain bs where bs: "rd fd ?n = Some bs" by blast
    with rd have "length bs \<le> nat ?n" by (simp add: read_contract_def)
    then have "int (length bs) \<le> ?n" using read_count_range [of count] by linarith
    with room False have lb: "length bs \<le> length post'" by auto
    have w: "mem_write (originbuf b1) (bufptr b1 + off b1) bs = Inr (pre' @ (c @ bs) @ drop (length bs) post')"
      using mem_write_prefix [of "int (length pre' + length c)" "pre' @ c" bs post'] lb b1 by simp
    let ?b2 = "mkbuf pre' (c @ bs) (drop (length bs) post')"
    have ci: "cint (off b1 + int (length bs)) = Inr (int (length c + length bs))"
      using b1 le1 lb by (simp add: INT_MIN_def)
    have upd: "b1\<lparr>originbuf := pre' @ (c @ bs) @ drop (length bs) post', off := int (length c + length bs)\<rparr> = ?b2"
      using b1 lb by (simp add: mkbuf_def)
    have nul: "buffer_nul ?b2 = Inr (mkbuf pre' (c @ bs) (nul_first (drop (length bs) post')))"
      using le1 lb by (intro buffer_nul_mkbuf) simp
    have res: "buffer_read e rd fd count b = (if bs = [] then Inr (0, b1)
        else Inr (int (length bs), mkbuf pre' (c @ bs) (nul_first (drop (length bs) post'))))"
      using False unfolding step bs option.case w bind_res.simps ci upd nul by simp
    show ?thesis
    proof (cases "bs = []")
      case True
      with res b b1 le1 bs show ?thesis by simp
    next
      case nonempty: False
      with res b bs le1 lb show ?thesis by simp
    qed
  qed
qed

section \<open>Searching\<close>

lemma buffer_find_loop_sound:
  "buffer_find_loop b what len search remain = Inr (Some p) \<Longrightarrow>
   search \<le> p \<and> mem_read (originbuf b) p len = mem_read what 0 len"
proof (induction b what len search remain rule: buffer_find_loop.induct)
  case (1 b what len search remain)
  from "1.prems" obtain w0 region k x y where st: "len < remain" "mem_read what 0 1 = Inr w0"
    "mem_read (originbuf b) search remain = Inr region" "find_chr (hd w0) region = Some k"
    "mem_read (originbuf b) (search + int k) len = Inr x" "mem_read what 0 len = Inr y"
    "(if x = y then Inr (Some (search + int k))
      else buffer_find_loop b what len (search + int k + 1) (off b - (search + int k + 1 - bufptr b)))
     = (Inr (Some p) :: int option res)"
    by (subst (asm) buffer_find_loop.simps)
      (auto simp: bind_res_eq_Inr Let_def split: if_splits option.splits)
  show ?case
  proof (cases "x = y")
    case True
    with st show ?thesis by auto
  next
    case False
    with st have "buffer_find_loop b what len (search + int k + 1) (off b - (search + int k + 1 - bufptr b))
      = Inr (Some p)" by simp
    from "1.IH" [OF st(1-4) refl st(5,6) False this] show ?thesis by simp
  qed
qed

text \<open>
  The search cannot skip an occurrence that ends before the last byte of the content: as
  long as it has not passed it, the loop condition holds.
\<close>

lemma buffer_find_loop_complete:
  assumes "buffer_find_loop b what len search remain = Inr r"
    and "remain = off b - (search - bufptr b)" and "search \<le> q" and "q + len < bufptr b + off b"
    and "0 < len" and "mem_read (originbuf b) q len = Inr y" and "mem_read what 0 len = Inr y"
  shows "\<exists>p \<le> q. r = Some p"
  using assms
proof (induction b what len search remain rule: buffer_find_loop.induct)
  case (1 b what len search remain)
  have lt: "len < remain" using "1.prems" by simp
  with "1.prems"(1) obtain w0 region where st: "mem_read what 0 1 = Inr w0"
    "mem_read (originbuf b) search remain = Inr region"
    by (subst (asm) buffer_find_loop.simps) (auto simp: bind_res_eq_Inr)
  have w0: "hd w0 = hd y" using st(1) "1.prems"(5,7)
    by (cases what) (auto simp: mem_read_eq_Inr take_Cons')
  have reg: "0 \<le> search" "search + remain \<le> int (length (originbuf b))"
    "region = take (nat remain) (drop (nat search) (originbuf b))"
    using st(2) by (auto simp: mem_read_eq_Inr)
  define j where "j = nat (q - search)"
  have jl: "j < length region" using reg "1.prems"(2-5) by (auto simp: j_def)
  have "region ! j = originbuf b ! nat q" using reg jl "1.prems"(3) by (simp add: j_def nat_diff_distrib)
  also have "\<dots> = hd y"
  proof -
    have "y = take (nat len) (drop (nat q) (originbuf b))" "0 \<le> q" "q + len \<le> int (length (originbuf b))"
      using "1.prems"(6) by (auto simp: mem_read_eq_Inr)
    then show ?thesis using "1.prems"(5) by (simp add: hd_conv_nth)
  qed
  finally have hit: "region ! j = hd w0" using w0 by simp
  then have "find_chr (hd w0) region \<noteq> None" using nth_mem [OF jl] by (simp add: find_chr_None)
  then obtain k where k: "find_chr (hd w0) region = Some k" by blast
  have kj: "k \<le> j" using find_chr_Some [OF k] hit jl by (meson not_le_imp_less)
  then have kq: "search + int k \<le> q" using "1.prems"(3) by (simp add: j_def)
  from "1.prems"(1) lt st k obtain x where x: "mem_read (originbuf b) (search + int k) len = Inr x"
    and go: "(if x = y then Inr (Some (search + int k))
      else buffer_find_loop b what len (search + int k + 1) (off b - (search + int k + 1 - bufptr b)))
     = (Inr r :: int option res)"
    using "1.prems"(7) by (subst (asm) buffer_find_loop.simps) (auto simp: bind_res_eq_Inr Let_def)
  show ?case
  proof (cases "x = y")
    case True
    with go kq show ?thesis by auto
  next
    case False
    then have "search + int k + 1 \<le> q" using kq x "1.prems"(6) by (cases "search + int k = q") auto
    with False go "1.IH" [OF lt st k refl x "1.prems"(7) False] "1.prems" show ?thesis by simp
  qed
qed

section \<open>The buffer provides the byte queue\<close>

lemma buffer_used_content: "buffer_ok b \<Longrightarrow> int (length (buffer_content b)) \<le> buffer_used b"
  by (erule buffer_ok_cases) (simp add: buffer_used_def)

lemma buffer_push_string_fits:
  "buffer_ok b \<Longrightarrow> buffer_used b + int (length s) \<le> 1073741824 \<Longrightarrow>
   \<exists>r b'. buffer_push_string e s b = Inr (r, b')"
  using buffer_push_string_returns [of b s e] by (auto simp: buffer_fits_def)

interpretation bufq: byte_queue buffer_ok buffer_content buffer_used "buffer_push_string e"
  for e :: heap_env
  by unfold_locales (auto simp: buffer_used_content dest: buffer_push_string_ok buffer_push_string_fits)

text \<open>An allocator that grants every request, with arbitrary bytes in fresh memory.\<close>

definition granting :: "(nat \<Rightarrow> char) \<Rightarrow> heap_env" where
  "granting f = \<lparr>can_alloc = (\<lambda>_. True), fresh = f\<rparr>"

lemma can_alloc_granting [simp]: "can_alloc (granting f) n"
  by (simp add: granting_def)

lemma granting_accepts:
  "buffer_ok b \<Longrightarrow> buffer_used b + int (length s) \<le> 1073741824 \<Longrightarrow>
   buffer_push_string (granting f) s b = Inr (r, b') \<Longrightarrow> r = 0"
  using buffer_push_string_returns [of b s "granting f"] by (auto simp: buffer_fits_def)

interpretation gbufq: reliable_byte_queue buffer_ok buffer_content buffer_used "buffer_push_string (granting f)"
  for f :: "nat \<Rightarrow> char"
  by unfold_locales (rule granting_accepts)

section \<open>Properties\<close>

lemma push_mem_negative_ok:
  assumes "len < 0" and "buffer_ok b"
  shows "buffer_push_mem e data len b \<noteq> Inr (r, b')"
  using assms by (auto simp: buffer_push_mem_def bind_res_eq_Inr cint_eq_Inr mem_read_eq_Inr buffer_ok_def
      split: if_splits)

lemma buffer_push_mem_any: "buffer_ok b \<Longrightarrow> buffer_push_mem e data len b = Inr (r, b') \<Longrightarrow> buffer_ok b'"
  using buffer_push_mem_ok push_mem_negative_ok by (meson not_le_imp_less)

text \<open>C4. Every buffer a program can build with the public methods satisfies the invariant: the
  read pointer agrees with the misalignment, content and free space lie inside the
  allocation, and the recorded capacity is the allocated one.\<close>

theorem buffer_reach_ok: "buffer_reach b \<Longrightarrow> buffer_ok b"
proof (induction rule: buffer_reach.induct)
  case (reach_pop b len r bs b')
  show ?case
  proof (cases "0 \<le> len")
    case True
    with buffer_pop_mem_ok [of b len] reach_pop show ?thesis by auto
  next
    case False
    with reach_pop show ?thesis
      by (auto simp: buffer_pop_mem_def bind_res_eq_Inr mem_read_eq_Inr Let_def buffer_ok_def)
  qed
next
  case (reach_pop_line b l b')
  with buffer_pop_line_ok [of b] show ?case by (auto split: option.splits)
next
  case (reach_read b rd e fd count n b')
  with buffer_read_ok [of b rd e fd count] show ?case by auto
next
  case (reach_write b wr fd n b')
  with buffer_write_ok [of b wr fd] show ?case by auto
qed (auto simp: buffer_push_string_def dest: buffer_new_ok buffer_clear_ok buffer_push_mem_any
      buffer_push_buffer_ok)

theorem buffer_reach_ok_witness:
  "\<exists>b r b'. buffer_new (granting (\<lambda>_. NUL)) = Inr b \<and> buffer_push_string (granting (\<lambda>_. NUL)) ''ab'' b = Inr (r, b')
     \<and> buffer_ok b'"
proof -
  obtain b where b: "buffer_new (granting (\<lambda>_. NUL)) = Inr b" by (simp add: buffer_new_def)
  with buffer_new_ok [OF b] buffer_push_string_returns [of b "''ab''" "granting (\<lambda>_. NUL)"]
  obtain r b' where p: "buffer_push_string (granting (\<lambda>_. NUL)) ''ab'' b = Inr (r, b')"
    by (auto simp: buffer_new_def buffer_fits_def buffer_used_def DEFAULT_SIZE_def split: if_splits)
  from buffer_reach_ok [OF reach_push_string [OF reach_new [OF b] p]] b p show ?thesis by blast
qed

text \<open>C9. Appending a string to a buffer that satisfies the invariant, with an allocator that
  grants memory and fewer than 2^30 bytes in use: the call never overflows, never touches
  memory outside the allocation, returns 0, and the content is the old one followed by the
  string.\<close>

theorem buffer_push_appends:
  assumes "buffer_ok b" and "buffer_fits (length s) b" and "\<And>n. can_alloc e n"
  shows "\<exists>b'. buffer_push_string e s b = Inr (0, b') \<and> buffer_ok b'
    \<and> buffer_content b' = buffer_content b @ s"
proof -
  from buffer_push_string_returns [OF assms(1,2), of e] assms(3) obtain b' where
    p: "buffer_push_string e s b = Inr (0, b')" by auto
  have "int (length s) \<le> INT_MAX"
    using bufq.room_int_max [OF assms(1)] assms(2) by (simp add: buffer_fits_def)
  from buffer_push_string_ok [OF assms(1) this p] p show ?thesis by auto
qed

theorem buffer_push_appends_witness:
  "\<exists>b'. buffer_push_string (granting (\<lambda>_. NUL)) ''cd'' (mkbuf ''x'' ''ab'' ''y'') = Inr (0, b')
     \<and> buffer_ok b' \<and> buffer_content b' = ''abcd''"
  using buffer_push_appends [of "mkbuf ''x'' ''ab'' ''y''" "''cd''" "granting (\<lambda>_. NUL)"]
  by (simp add: buffer_fits_def buffer_used_def INT_MAX_def)

text \<open>First in, first out: two strings pushed into an empty buffer come out in order, the
  first by a pop of its length, the second by the next pop, and the buffer is empty again.\<close>

theorem buffer_push_pop_fifo:
  assumes "buffer_ok b" and "buffer_content b = []" and "\<And>n. can_alloc e n"
    and "buffer_used b + int (length s) + int (length t) \<le> 1073741824"
  shows "\<exists>b1 b2 b3 b4. buffer_push_string e s b = Inr (0, b1) \<and> buffer_push_string e t b1 = Inr (0, b2)
    \<and> buffer_pop_mem (int (length s)) b2 = Inr (int (length s), s, b3)
    \<and> buffer_pop_mem (int (length t)) b3 = Inr (int (length t), t, b4) \<and> buffer_empty b4"
proof -
  from buffer_push_appends [OF assms(1) _ assms(3), of s] assms(4) obtain b1 where
    b1: "buffer_push_string e s b = Inr (0, b1)" "buffer_ok b1" "buffer_content b1 = s"
    using assms(2) by (auto simp: buffer_fits_def)
  have "int (length s) \<le> INT_MAX" using bufq.room_int_max [OF assms(1), of s] assms(4) by simp
  from buffer_push_string_ok [OF assms(1) this b1(1)] assms(4)
  have "buffer_fits (length t) b1" by (simp add: buffer_fits_def)
  from buffer_push_appends [OF b1(2) this assms(3)] b1(3) obtain b2 where
    b2: "buffer_push_string e t b1 = Inr (0, b2)" "buffer_ok b2" "buffer_content b2 = s @ t" by auto
  from buffer_pop_mem_ok [OF b2(2), of "int (length s)"] b2(3) obtain b3 where
    b3: "buffer_pop_mem (int (length s)) b2 = Inr (int (length s), s, b3)" "buffer_ok b3" "buffer_content b3 = t"
    by auto
  from buffer_pop_mem_ok [OF b3(2), of "int (length t)"] b3(3) obtain b4 where
    b4: "buffer_pop_mem (int (length t)) b3 = Inr (int (length t), t, b4)" "buffer_ok b4" "buffer_content b4 = []"
    by auto
  with b1 b2 b3 buffer_empty_content [OF b4(2)] show ?thesis by blast
qed

theorem buffer_push_pop_fifo_witness:
  "\<exists>b1 b2 b3 b4. buffer_push_string (granting (\<lambda>_. NUL)) ''ab'' (mkbuf ''x'' [] ''yz'') = Inr (0, b1)
    \<and> buffer_push_string (granting (\<lambda>_. NUL)) ''cde'' b1 = Inr (0, b2)
    \<and> buffer_pop_mem 2 b2 = Inr (2, ''ab'', b3) \<and> buffer_pop_mem 3 b3 = Inr (3, ''cde'', b4) \<and> buffer_empty b4"
  using buffer_push_pop_fifo [of "mkbuf ''x'' [] ''yz''" "granting (\<lambda>_. NUL)" "''ab''" "''cde''"]
  by (simp add: buffer_used_def INT_MAX_def)

text \<open>C15. The line reader refines reading a line off a byte sequence: it never faults, returns
  the bytes before the first CR or LF (up to an embedded null), and drops them together with
  the terminator (CR, LF, CRLF or LFCR). Without a terminator it returns the empty string and
  changes nothing, exactly as it does for an empty line apart from the consumed terminator.\<close>

theorem buffer_pop_line_refines:
  assumes "buffer_ok b"
  shows "\<exists>l b'. buffer_pop_line b = Inr (l, b') \<and> buffer_ok b' \<and>
    (l, buffer_content b') =
      (case line_of (buffer_content b) of None \<Rightarrow> ([], buffer_content b) | Some p \<Rightarrow> p)"
  using buffer_pop_line_ok [OF assms] assms by (auto split: option.splits)

theorem buffer_pop_line_refines_witness:
  "\<exists>l b'. buffer_pop_line (mkbuf ''x'' ([CHR ''a'', CR, LF, CHR ''b'']) ''y'') = Inr (l, b') \<and> buffer_ok b' \<and>
     (l, buffer_content b') = (''a'', ''b'')"
  using buffer_pop_line_refines [of "mkbuf ''x'' ([CHR ''a'', CR, LF, CHR ''b'']) ''y''"]
  by (simp add: INT_MAX_def line_of_def is_eol_def CR_def LF_def NUL_def)

text \<open>Moving bytes between buffers loses and duplicates nothing, whatever length is asked
  for and whether or not the allocator grants the space: what the two buffers hold together,
  the destination first, is what they held before.\<close>

theorem buffer_push_buffer_preserves:
  assumes "buffer_ok b" and "buffer_ok inp" and "buffer_push_buffer e (Some inp) len b = Inr (r, inp', b')"
  shows "\<exists>i. inp' = Some i \<and> buffer_ok i \<and> buffer_ok b'
    \<and> buffer_content b' @ buffer_content i = buffer_content b @ buffer_content inp"
  using buffer_push_buffer_ok [OF assms] by auto

theorem buffer_push_buffer_preserves_witness:
  "\<exists>r i b'. buffer_push_buffer (granting (\<lambda>_. NUL)) (Some (mkbuf [] ''cdef'' [])) 2 (mkbuf [] ''ab'' ''xyz'')
     = Inr (r, Some i, b') \<and> buffer_content b' @ buffer_content i = ''abcdef''"
proof -
  have ok: "buffer_ok (mkbuf [] ''ab'' ''xyz'')" "buffer_ok (mkbuf [] ''cdef'' [])"
    by (simp_all add: INT_MAX_def)
  from buffer_push_buffer_returns [OF ok, of 2 "granting (\<lambda>_. NUL)"] obtain r inp' b' where
    p: "buffer_push_buffer (granting (\<lambda>_. NUL)) (Some (mkbuf [] ''cdef'' [])) 2 (mkbuf [] ''ab'' ''xyz'')
      = Inr (r, inp', b')" by (auto simp: buffer_fits_def buffer_used_def moved_def)
  from buffer_push_buffer_preserves [OF ok p] p show ?thesis by auto
qed

text \<open>A socket between two buffers is a pipe: when the reader's system call delivers the
  bytes that the writer's call accepted, the bytes received so far followed by the bytes still
  to be sent are the same before and after, and both buffers stay well formed.\<close>

theorem buffer_transfer:
  assumes "buffer_ok src" and "buffer_ok dst" and "write_contract wr" and "read_contract rd"
    and "buffer_fits 4096 dst" and "\<And>n. can_alloc e n"
    and "rd fd 4096 = Some (take (nat (wr fd' (buffer_content src))) (buffer_content src))"
  shows "\<exists>n src' m dst'. buffer_write wr fd' src = Inr (n, src') \<and> buffer_read e rd fd (-1) dst = Inr (m, dst')
    \<and> buffer_ok src' \<and> buffer_ok dst' \<and> m = max n 0
    \<and> buffer_content dst' @ buffer_content src' = buffer_content dst @ buffer_content src"
proof -
  from buffer_write_ok [OF assms(1,3), of fd'] obtain n src' where
    w: "buffer_write wr fd' src = Inr (n, src')" "buffer_ok src'" "n = wr fd' (buffer_content src)"
    "buffer_content src' = drop (nat n) (buffer_content src)" by blast
  have rc: "read_count (-1) = 4096" by (simp add: read_count_def MAX_READ_def)
  from buffer_read_ok [OF assms(2,4,5), of e fd "-1"] obtain m dst' where
    r: "buffer_read e rd fd (-1) dst = Inr (m, dst')" "buffer_ok dst'"
    "m = int (length (take (nat n) (buffer_content src)))"
    and c: "if 0 < m then \<exists>bs. rd fd 4096 = Some bs \<and> m = int (length bs) \<and> buffer_content dst' = buffer_content dst @ bs
     else buffer_content dst' = buffer_content dst"
    using assms(6,7) unfolding rc w(3) by auto
  have r4: "if 0 < m then buffer_content dst' = buffer_content dst @ take (nat n) (buffer_content src)
     else buffer_content dst' = buffer_content dst" using c assms(7) w(3) by (auto split: if_splits)
  have "n \<le> int (length (buffer_content src))" using assms(3) w(3) by (simp add: write_contract_def)
  then have m: "m = max n 0" using r(3) by simp
  have "buffer_content dst' @ buffer_content src' = buffer_content dst @ buffer_content src"
    using r4 w(4) m by (cases "0 < n") simp_all
  with w r m show ?thesis by blast
qed

theorem buffer_transfer_witness:
  "\<exists>n src' m dst'. buffer_write (\<lambda>_ bs. min 2 (int (length bs))) 7 (mkbuf [] ''abc'' []) = Inr (n, src')
    \<and> buffer_read (granting (\<lambda>_. NUL)) (\<lambda>_ n. Some (take (nat n) ''ab'')) 8 (-1) (mkbuf [] ''z'' ''y'') = Inr (m, dst')
    \<and> buffer_content dst' @ buffer_content src' = ''zabc''"
proof -
  let ?rd = "\<lambda>(_::int) (n::int). Some (take (nat n) ''ab'')"
  have "read_contract ?rd" "write_contract (\<lambda>_ bs. min 2 (int (length bs)))"
    by (auto simp: read_contract_def write_contract_def)
  with buffer_transfer [of "mkbuf [] ''abc'' []" "mkbuf [] ''z'' ''y''" "\<lambda>_ bs. min 2 (int (length bs))" ?rd
      "granting (\<lambda>_. NUL)" 8 7]
  show ?thesis by (auto simp: buffer_fits_def buffer_used_def INT_MAX_def)
qed

lemma grow_power: "grow len need = Inr n \<Longrightarrow> \<exists>k. n = len * 2 ^ k \<and> (len < need \<longrightarrow> n < 2 * need)"
proof (induction len need rule: grow.induct)
  case (1 len need)
  from "1.prems" consider "\<not> len < need" "n = len"
    | "len < need" "0 < len" "2 * len \<le> INT_MAX" "grow (2 * len) need = Inr n"
    by (subst (asm) grow.simps) (auto split: if_splits)
  then show ?case
  proof cases
    case 1
    then show ?thesis by (intro exI [of _ 0]) simp
  next
    case 2
    with "1.IH" obtain k where k: "n = 2 * len * 2 ^ k" "2 * len < need \<longrightarrow> n < 2 * need" by auto
    moreover have "n < 2 * need" if "\<not> 2 * len < need"
      using that 2 grow.simps [of "2 * len" need] by simp
    ultimately show ?thesis by (intro exI [of _ "Suc k"]) auto
  qed
qed

text \<open>The growth loop ends with a capacity that is the starting one times a power of two,
  covers the need, and is less than twice the need when it had to grow; for needs up to 2^30
  it always ends without overflow.\<close>

theorem grow_doubles:
  assumes "256 \<le> len" and "need \<le> 1073741824"
  shows "\<exists>n k. grow len need = Inr n \<and> n = len * 2 ^ k \<and> need \<le> n \<and> (len < need \<longrightarrow> n < 2 * need)"
proof -
  from grow_returns [of len need] assms obtain n where n: "grow len need = Inr n" by auto
  from grow_power [OF n] grow_spec [OF n] n show ?thesis by blast
qed

theorem grow_doubles_witness:
  "\<exists>n k. grow 256 5000 = Inr n \<and> n = 256 * 2 ^ k \<and> 5000 \<le> n \<and> n < 10000"
  using grow_doubles [of 256 5000] by auto

text \<open>C27. \<open>find\<close>: a position it returns starts a run of bytes equal to the pattern in the
  allocation, and no occurrence that ends before the last byte of the content is passed over.\<close>

theorem buffer_find_string_sound_complete:
  assumes "buffer_ok b" and "s \<noteq> []" and "int (length s) \<le> INT_MAX" and "buffer_find_string s b = Inr r"
  shows "(\<forall>p. r = Some p \<longrightarrow> 0 \<le> p \<and> take (length s) (drop (nat (bufptr b + p)) (originbuf b)) = s)
    \<and> (\<forall>q. q + length s < length (buffer_content b) \<and> take (length s) (drop q (buffer_content b)) = s
         \<longrightarrow> (\<exists>p. r = Some p \<and> p \<le> int q))"
proof -
  let ?w = "s @ [NUL]" and ?len = "int (length s)"
  from assms(1) obtain pre c post where b: "b = mkbuf pre c post" by (rule buffer_ok_cases)
  from assms(3,4) obtain r' where r': "buffer_find_loop b ?w ?len (bufptr b) (off b) = Inr r'"
    "r = map_option (\<lambda>p. p - bufptr b) r'"
    by (auto simp: buffer_find_string_def buffer_find_def bind_res_eq_Inr INT_MIN_def)
  have w: "mem_read ?w 0 ?len = Inr s" by (simp add: mem_read_def)
  have "0 \<le> p \<and> take (length s) (drop (nat (bufptr b + p)) (originbuf b)) = s" if "r = Some p" for p
  proof -
    from that r'(2) obtain p' where "r' = Some p'" "p = p' - bufptr b" by auto
    with buffer_find_loop_sound [of b ?w ?len "bufptr b" "off b" p'] r'(1) w show ?thesis
      by (auto simp: mem_read_eq_Inr)
  qed
  moreover have "\<exists>p. r = Some p \<and> p \<le> int q"
    if q: "q + length s < length (buffer_content b)" "take (length s) (drop q (buffer_content b)) = s" for q
  proof -
    have "mem_read (originbuf b) (bufptr b + int q) ?len = Inr s"
      using q b by (simp add: mem_read_def nat_add_distrib)
    with buffer_find_loop_complete [OF r'(1) _ _ _ _ _ w, of "bufptr b + int q"] q b assms(2)
    obtain p where "p \<le> bufptr b + int q" "r' = Some p" by auto
    with r'(2) show ?thesis by auto
  qed
  ultimately show ?thesis by blast
qed

theorem buffer_find_string_sound_complete_witness:
  "\<exists>p. Some (2 :: int) = Some p \<and> p \<le> int 2 \<and> buffer_find_string ''ab'' (mkbuf [] ''xxabyy'' ''z'') = Inr (Some 2)"
proof -
  have f: "buffer_find_string ''ab'' (mkbuf [] ''xxabyy'' ''z'') = Inr (Some 2)"
    by (simp add: buffer_find_string_def buffer_find_def to_int_def buffer_find_loop.simps mem_read_def)
  from buffer_find_string_sound_complete [OF _ _ _ f] have
    "\<exists>p. Some (2 :: int) = Some p \<and> p \<le> int 2" by (auto simp: INT_MAX_def dest: spec [of _ 2])
  with f show ?thesis by blast
qed

text \<open>The loop condition \<open>remain > length\<close> is off by one: a buffer whose content is
  exactly the pattern is reported as not containing it.\<close>

theorem buffer_find_misses_exact:
  assumes "buffer_ok b"
  shows "buffer_find_string (buffer_content b) b = Inr None"
proof -
  have o: "off b = int (length (buffer_content b))" using assms by (rule buffer_off_content)
  then have "to_int (int (length (buffer_content b))) = off b"
    using assms by (simp add: buffer_ok_def INT_MIN_def)
  then show ?thesis by (simp add: buffer_find_string_def buffer_find_def buffer_find_loop.simps)
qed

theorem buffer_find_misses_exact_witness:
  "buffer_find_string ''abc'' (mkbuf [] ''abc'' ''z'') = Inr None"
  using buffer_find_misses_exact [of "mkbuf [] ''abc'' ''z''"] by (simp add: INT_MAX_def)

text \<open>The comparison in \<open>find\<close> is not limited to the content: it reports a match that runs
  into the stale bytes behind the content, and reads past the allocation when there are none.\<close>

theorem buffer_find_past_content:
  "buffer_find_string ''ab'' (mkbuf [] ''xxa'' ''b'') = Inr (Some 2)
   \<and> buffer_find_string ''ab'' (mkbuf [] ''xxa'' []) = Inl BadAccess"
  by (simp add: buffer_find_string_def buffer_find_def to_int_def buffer_find_loop.simps mem_read_def)

end
