(* ===== verification/Libio_Connection.thy ===== *)
theory Libio_Connection
  imports Libio_Buffer
begin

text \<open>The connection of \<open>src/core/connection.hh\<close>: a descriptor with an input and an output buffer.\<close>

record connection =
  conn_in :: buffer
  conn_out :: buffer
  conn_fd :: int
  conn_address :: string
  conn_port :: "int option"

text \<open>The port is not initialised.\<close>

definition connection_new :: "heap_env \<Rightarrow> connection res" where
  "connection_new e =
     bind_res (buffer_new e) (\<lambda>i. bind_res (buffer_new e) (\<lambda>b.
       Inr \<lparr>conn_in = i, conn_out = b, conn_fd = -1, conn_address = [], conn_port = None\<rparr>))"

definition conn_read :: "heap_env \<Rightarrow> sys_read \<Rightarrow> 'z connection_scheme \<Rightarrow> (int \<times> 'z connection_scheme) res" where
  "conn_read e rd c = bind_res (buffer_read e rd (conn_fd c) (-1) (conn_in c)) (\<lambda>(n, b). Inr (n, c\<lparr>conn_in := b\<rparr>))"

definition conn_write :: "sys_write \<Rightarrow> 'z connection_scheme \<Rightarrow> (int \<times> 'z connection_scheme) res" where
  "conn_write wr c = bind_res (buffer_write wr (conn_fd c) (conn_out c)) (\<lambda>(n, b). Inr (n, c\<lparr>conn_out := b\<rparr>))"

definition conn_push :: "heap_env \<Rightarrow> string \<Rightarrow> 'z connection_scheme \<Rightarrow> 'z connection_scheme res" where
  "conn_push e s c = bind_res (buffer_push_string e s (conn_out c)) (\<lambda>(_, b). Inr (c\<lparr>conn_out := b\<rparr>))"

definition conn_push_buffer ::
  "heap_env \<Rightarrow> buffer option \<Rightarrow> 'z connection_scheme \<Rightarrow> (buffer option \<times> 'z connection_scheme) res" where
  "conn_push_buffer e buf c =
     bind_res (buffer_push_buffer e buf (-1) (conn_out c)) (\<lambda>(_, buf', b). Inr (buf', c\<lparr>conn_out := b\<rparr>))"

end
