(* ===== verification/Libio_Map.thy ===== *)
theory Libio_Map
  imports Libio_Prelude
begin

text \<open>
  \<open>std::map\<close> and \<open>std::unordered_map\<close> as the repository uses them: association lists in
  strictly increasing key order, which is the iteration order of \<open>std::map\<close> (no code
  iterates over an \<open>unordered_map\<close>). The locale \<open>keyed_store\<close> states what the client
  components rely on; the interpretation at the end proves it for these lists.
\<close>

type_synonym ('k, 'v) smap = "('k \<times> 'v) list"

section \<open>Definitions\<close>

fun smap_find :: "'k::linorder \<Rightarrow> ('k, 'v) smap \<Rightarrow> 'v option" where
  "smap_find k [] = None"
| "smap_find k ((k', v) # m) = (if k = k' then Some v else smap_find k m)"

definition smap_count :: "'k::linorder \<Rightarrow> ('k, 'v) smap \<Rightarrow> bool" where
  "smap_count k m = (smap_find k m \<noteq> None)"

text \<open>\<open>m[k] = v\<close>\<close>

fun smap_set :: "'k::linorder \<Rightarrow> 'v \<Rightarrow> ('k, 'v) smap \<Rightarrow> ('k, 'v) smap" where
  "smap_set k v [] = [(k, v)]"
| "smap_set k v ((k', v') # m) =
     (if k < k' then (k, v) # (k', v') # m
      else if k = k' then (k, v) # m else (k', v') # smap_set k v m)"

fun smap_erase :: "'k::linorder \<Rightarrow> ('k, 'v) smap \<Rightarrow> ('k, 'v) smap" where
  "smap_erase k [] = []"
| "smap_erase k ((k', v') # m) = (if k = k' then m else (k', v') # smap_erase k m)"

text \<open>\<open>m[k]\<close> read: a missing key is inserted with the default value \<open>d\<close>.\<close>

definition smap_index :: "'v \<Rightarrow> 'k::linorder \<Rightarrow> ('k, 'v) smap \<Rightarrow> 'v \<times> ('k, 'v) smap" where
  "smap_index d k m = (case smap_find k m of Some v \<Rightarrow> (v, m) | None \<Rightarrow> (d, smap_set k d m))"

text \<open>\<open>m.at(k)\<close> throws \<open>std::out_of_range\<close>.\<close>

definition smap_at :: "'k::linorder \<Rightarrow> ('k, 'v) smap \<Rightarrow> 'v res" where
  "smap_at k m = (case smap_find k m of Some v \<Rightarrow> Inr v | None \<Rightarrow> Inl OutOfRange)"

definition smap_ok :: "('k::linorder, 'v) smap \<Rightarrow> bool" where
  "smap_ok m = sorted_wrt (<) (map fst m)"

section \<open>Lemmas\<close>

lemma smap_ok_Nil [simp]: "smap_ok []"
  by (simp add: smap_ok_def)

lemma smap_ok_Cons [simp]: "smap_ok ((k, v) # m) = (smap_ok m \<and> (\<forall>k' \<in> fst ` set m. k < k'))"
  by (auto simp: smap_ok_def)

lemma smap_find_set: "smap_find j (smap_set k v m) = (if j = k then Some v else smap_find j m)"
  by (induction k v m rule: smap_set.induct) auto

lemma smap_find_None: "(smap_find k m = None) = (k \<notin> fst ` set m)"
  by (induction k m rule: smap_find.induct) auto

lemma smap_find_in: "smap_find k m = Some v \<Longrightarrow> (k, v) \<in> set m"
  by (induction k m rule: smap_find.induct) (auto split: if_splits)

lemma smap_find_iff: "smap_ok m \<Longrightarrow> (smap_find k m = Some v) = ((k, v) \<in> set m)"
proof (induction k m rule: smap_find.induct)
  case (2 k k' v' m)
  then show ?case by (force dest: smap_find_in)
qed simp

lemma smap_find_erase: "smap_ok m \<Longrightarrow> smap_find j (smap_erase k m) = (if j = k then None else smap_find j m)"
proof (induction k m rule: smap_erase.induct)
  case (2 k k' v' m)
  have "smap_find k' m = None" using 2(2) smap_find_None [of k' m] by auto
  with 2 show ?case by auto
qed simp

lemma fst_smap_set: "fst ` set (smap_set k v m) = insert k (fst ` set m)"
  by (induction k v m rule: smap_set.induct) auto

lemma smap_ok_set [simp]: "smap_ok m \<Longrightarrow> smap_ok (smap_set k v m)"
proof (induction k v m rule: smap_set.induct)
  case (2 k v k' v' m)
  then show ?case using fst_smap_set [of k v m] by (auto simp: not_less_iff_gr_or_eq)
qed simp

lemma set_smap_erase: "set (smap_erase k m) \<subseteq> set m"
  by (induction k m rule: smap_erase.induct) auto

lemma smap_ok_erase [simp]: "smap_ok m \<Longrightarrow> smap_ok (smap_erase k m)"
proof (induction k m rule: smap_erase.induct)
  case (2 k k' v' m)
  then show ?case using set_smap_erase [of k m] by auto
qed simp

lemma smap_count_set [simp]: "smap_count j (smap_set k v m) = (j = k \<or> smap_count j m)"
  by (simp add: smap_count_def smap_find_set)

lemma smap_set_nonempty [simp]: "smap_set k v m \<noteq> []"
  by (induction k v m rule: smap_set.induct) auto

lemma smap_set_last: "\<forall>j \<in> fst ` set m. j < k \<Longrightarrow> smap_set k v m = m @ [(k, v)]"
  by (induction k v m rule: smap_set.induct) (auto dest: less_asym)

text \<open>Inserting the entries of a map in order, one after the other, gives the map.\<close>

lemma smap_set_all: "smap_ok (m @ hs) \<Longrightarrow> fold (\<lambda>(j, w). smap_set j w) hs m = m @ hs"
proof (induction hs arbitrary: m)
  case (Cons h hs)
  have "\<forall>j \<in> fst ` set m. j < fst h" using Cons.prems by (auto simp: smap_ok_def sorted_wrt_append)
  then have "smap_set (fst h) (snd h) m = m @ [h]" using smap_set_last [of m "fst h" "snd h"] by simp
  with Cons.IH [of "m @ [h]"] Cons.prems show ?case by (simp add: split_beta)
qed simp

lemma smap_ok_filter: "smap_ok m \<Longrightarrow> smap_ok (filter p m)"
  by (auto simp: smap_ok_def sorted_wrt_map intro: sorted_wrt_filter)

lemma smap_find_filter:
  "smap_ok m \<Longrightarrow> smap_find k (filter p m) = (case smap_find k m of None \<Rightarrow> None | Some v \<Rightarrow> if p (k, v) then Some v else None)"
proof (induction k m rule: smap_find.induct)
  case (2 k k' v m)
  have "smap_find k' m = None" "smap_find k' (filter p m) = None"
    using 2(2) smap_find_None [of k' m] smap_find_None [of k' "filter p m"] by auto
  with 2 show ?case by (auto split: option.splits)
qed simp

text \<open>Two maps in order with the same lookups are the same map.\<close>

lemma smap_eqI:
  assumes "smap_ok m" and "smap_ok m'" and "\<And>k. smap_find k m = smap_find k m'"
  shows "m = m'"
proof -
  have "set m = set m'" using assms by (auto simp flip: smap_find_iff)
  moreover have "sorted_wrt (<) (map fst m)" "sorted_wrt (<) (map fst m')"
    using assms by (simp_all add: smap_ok_def)
  ultimately show ?thesis
  proof (induction m arbitrary: m')
    case (Cons a m)
    show ?case
    proof (cases m')
      case (Cons a' l)
      have "a = a'"
      proof (rule ccontr)
        assume "a \<noteq> a'"
        with Cons.prems(1) Cons have "a \<in> set l" "a' \<in> set m" by auto
        with Cons.prems(2,3) Cons show False by force
      qed
      moreover have "a \<notin> set m" "a' \<notin> set l" using Cons.prems(2,3) Cons by fastforce+
      ultimately have "set m = set l" using Cons.prems(1) Cons by auto
      with Cons.IH [of l] Cons.prems(2,3) Cons \<open>a = a'\<close> show ?thesis by simp
    qed (use Cons.prems in simp)
  qed simp
qed

section \<open>The interface\<close>

locale keyed_store =
  fixes ok :: "'m \<Rightarrow> bool"
    and find :: "'k \<Rightarrow> 'm \<Rightarrow> 'v option"
    and put :: "'k \<Rightarrow> 'v \<Rightarrow> 'm \<Rightarrow> 'm"
    and erase :: "'k \<Rightarrow> 'm \<Rightarrow> 'm"
  assumes put_ok: "ok m \<Longrightarrow> ok (put k v m)"
    and erase_ok: "ok m \<Longrightarrow> ok (erase k m)"
    and find_put: "ok m \<Longrightarrow> find j (put k v m) = (if j = k then Some v else find j m)"
    and find_erase: "ok m \<Longrightarrow> find j (erase k m) = (if j = k then None else find j m)"
    and extensional: "ok m \<Longrightarrow> ok m' \<Longrightarrow> (\<And>k. find k m = find k m') \<Longrightarrow> m = m'"
begin

lemma put_put_same: "ok m \<Longrightarrow> put k v (put k w m) = put k v m"
  by (rule extensional) (auto simp: put_ok find_put)

lemma put_put_swap: "ok m \<Longrightarrow> j \<noteq> k \<Longrightarrow> put j v (put k w m) = put k w (put j v m)"
  by (rule extensional) (auto simp: put_ok find_put)

lemma erase_put_fresh: "ok m \<Longrightarrow> find k m = None \<Longrightarrow> erase k (put k v m) = m"
  by (rule extensional) (auto simp: put_ok erase_ok find_put find_erase)

lemma put_find_id: "ok m \<Longrightarrow> find k m = Some v \<Longrightarrow> put k v m = m"
  by (rule extensional) (auto simp: put_ok find_put)

lemma erase_absent: "ok m \<Longrightarrow> find k m = None \<Longrightarrow> erase k m = m"
  by (rule extensional) (auto simp: erase_ok find_erase)

end

interpretation sm: keyed_store smap_ok smap_find smap_set smap_erase
  by unfold_locales (auto simp: smap_find_set smap_find_erase intro: smap_eqI)

end
