(* ===== verification/Libio_Request.thy ===== *)
theory Libio_Request
  imports Libio_Buffer Libio_String Libio_Map
begin

text \<open>
  HTTP messages: \<open>src/http/http.hh\<close>, \<open>src/http/request.hh\<close> and \<open>src/http/request.cc\<close>.
  A \<open>request\<close> object is a record; the members the constructor leaves uninitialised
  (\<open>type\<close>, \<open>response_code\<close>) are options, and reading them before they are written is a
  fault. The parser is the mutual recursion of the source (headers, body, trailer) with the
  chunk loop as a further function; the exceptions of \<open>std::stol\<close> and \<open>std::stoi\<close> are
  faults. A response code is the int the source casts to the enumeration.
\<close>

section \<open>Definitions\<close>

abbreviation HTTP_OK :: int where "HTTP_OK \<equiv> 200"
abbreviation HTTP_NOCONTENT :: int where "HTTP_NOCONTENT \<equiv> 204"
abbreviation HTTP_MOVEPERM :: int where "HTTP_MOVEPERM \<equiv> 301"
abbreviation HTTP_MOVETEMP :: int where "HTTP_MOVETEMP \<equiv> 302"
abbreviation HTTP_NOTMODIFIED :: int where "HTTP_NOTMODIFIED \<equiv> 304"
abbreviation HTTP_BADREQUEST :: int where "HTTP_BADREQUEST \<equiv> 400"
abbreviation HTTP_NOTFOUND :: int where "HTTP_NOTFOUND \<equiv> 404"
abbreviation HTTP_SERVUNAVAIL :: int where "HTTP_SERVUNAVAIL \<equiv> 503"

datatype request_type_t = GET | POST | HEAD

datatype request_kind_t = REQUEST | RESPONSE

datatype request_status_t = READING_FIRSTLINE | READING_HEADERS | READING_BODY | READING_TRAILER

datatype parse_status_t = ALLREAD | NEEDMORE | CORRUPTED | CANCELD

record request =
  headers :: "(string, string) smap"
  body_buf :: buffer
  chunked :: bool
  ntoread :: int
  firstline :: string
  kind :: request_kind_t
  type :: "request_type_t option"
  status :: request_status_t
  major :: int
  minor :: int
  uri :: string
  query :: string
  response_code :: "int option"
  response_line :: string

definition request_new :: "heap_env \<Rightarrow> request res" where
  "request_new e =
     bind_res (buffer_new e) (\<lambda>b.
       Inr \<lparr>headers = [], body_buf = b, chunked = False, ntoread = 0, firstline = [],
            kind = RESPONSE, type = None, status = READING_FIRSTLINE, major = 1, minor = 1,
            uri = [], query = [], response_code = None, response_line = []\<rparr>)"

definition get_header :: "string \<Rightarrow> request \<Rightarrow> string res" where
  "get_header key r = (if smap_count key (headers r) then smap_at key (headers r) else Inr [])"

definition set_header :: "string \<Rightarrow> string \<Rightarrow> request \<Rightarrow> request" where
  "set_header key val r = r\<lparr>headers := smap_set key val (headers r)\<rparr>"

text \<open>\<open>headers[key]\<close> read: inserts the empty string when there is no such header.\<close>

definition header_index :: "string \<Rightarrow> request \<Rightarrow> string \<times> request" where
  "header_index key r = (case smap_index [] key (headers r) of (v, h) \<Rightarrow> (v, r\<lparr>headers := h\<rparr>))"

definition set_protocol :: "int \<Rightarrow> int \<Rightarrow> request \<Rightarrow> request" where
  "set_protocol mj mn r = r\<lparr>major := mj, minor := mn\<rparr>"

text \<open>A member that may not have been written yet.\<close>

definition read_member :: "'a option \<Rightarrow> 'a res" where
  "read_member m = (case m of None \<Rightarrow> Inl Uninitialised | Some x \<Rightarrow> Inr x)"

text \<open>\<open>line.find(' ')\<close> twice and the three \<open>substr\<close> of both first-line parsers.\<close>

definition three_words :: "string \<Rightarrow> (string \<times> string \<times> string) option" where
  "three_words line =
     (case find_chr (CHR '' '') line of
        None \<Rightarrow> None
      | Some k1 \<Rightarrow>
          (case find_chr (CHR '' '') (drop (k1 + 1) line) of
             None \<Rightarrow> None
           | Some d \<Rightarrow>
               let k2 = k1 + 1 + d in
               Some (take k1 line, take (k2 - k1 - 1) (drop (k1 + 1) line), drop (k2 + 1) line)))"

definition parse_type :: "string \<Rightarrow> request_type_t option" where
  "parse_type m =
     (if m = ''GET'' then Some GET else if m = ''POST'' then Some POST
      else if m = ''HEAD'' then Some HEAD else None)"

definition parse_protocol :: "string \<Rightarrow> (int \<times> int) option" where
  "parse_protocol p =
     (if p = ''HTTP/1.0'' then Some (1, 0) else if p = ''HTTP/1.1'' then Some (1, 1) else None)"

text \<open>The part of \<open>parse_request_line\<close> that splits off the query and decodes the path.\<close>

definition store_uri :: "string \<Rightarrow> request \<Rightarrow> request res" where
  "store_uri u r =
     (let r1 = (case find_chr (CHR ''?'') u of
                  Some k3 \<Rightarrow> r\<lparr>uri := take k3 u, query := drop (k3 + 1) u\<rparr>
                | None \<Rightarrow> r\<lparr>uri := u\<rparr>) in
      bind_res (string_from_utf8 (uri r1)) (\<lambda>u'. Inr (r1\<lparr>uri := u'\<rparr>)))"

text \<open>\<open>parse_request_line\<close>: on a return of -1 the members written before it stay written.\<close>

definition parse_request_line :: "string \<Rightarrow> request \<Rightarrow> (int \<times> request) res" where
  "parse_request_line line r =
     (case three_words line of
        None \<Rightarrow> Inr (-1, r)
      | Some (meth, u, protocol) \<Rightarrow>
          (case parse_type meth of
             None \<Rightarrow> Inr (-1, r)
           | Some ty \<Rightarrow>
               bind_res (store_uri u (r\<lparr>type := Some ty\<rparr>)) (\<lambda>r1.
                 case parse_protocol protocol of
                   None \<Rightarrow> Inr (-1, r1)
                 | Some (mj, mn) \<Rightarrow> Inr (0, set_protocol mj mn r1))))"

definition parse_response_line :: "string \<Rightarrow> request \<Rightarrow> (int \<times> request) res" where
  "parse_response_line line r =
     (case three_words line of
        None \<Rightarrow> Inr (-1, r)
      | Some (protocol, code, rline) \<Rightarrow>
          (case parse_protocol protocol of
             None \<Rightarrow> Inr (-1, r)
           | Some (mj, mn) \<Rightarrow>
               bind_res (stoi code) (\<lambda>c.
                 Inr (0, (set_protocol mj mn r)\<lparr>response_code := Some c, response_line := rline\<rparr>))))"

definition get_body_length :: "request \<Rightarrow> (int \<times> request) res" where
  "get_body_length r =
     (case header_index ''Content-Length'' r of (content_length, r1) \<Rightarrow>
      case header_index ''Connection'' r1 of (_, r2) \<Rightarrow>
        if content_length = [] then Inr (0, r2\<lparr>ntoread := -1\<rparr>)
        else bind_res (stol content_length) (\<lambda>n.
               Inr (if n < 0 then -1 else 0, r2\<lparr>ntoread := n\<rparr>)))"

text \<open>
  The empty line: what the \<open>switch (kind)\<close> decides. \<open>True\<close> when the message has no body.
\<close>

definition no_body :: "request \<Rightarrow> bool res" where
  "no_body r =
     (case kind r of
        REQUEST \<Rightarrow> bind_res (read_member (type r)) (\<lambda>t. Inr (t \<noteq> POST))
      | RESPONSE \<Rightarrow> bind_res (read_member (response_code r)) (\<lambda>c.
          Inr (c = HTTP_NOCONTENT \<or> c = HTTP_NOTMODIFIED \<or> (100 \<le> c \<and> c < 200))))"

text \<open>\<open>buf_->push(buf, n)\<close>; the request's own buffer is never the one it parses.\<close>

definition take_body :: "heap_env \<Rightarrow> int \<Rightarrow> request \<Rightarrow> buffer \<Rightarrow> (request \<times> buffer) res" where
  "take_body e n r b =
     bind_res (buffer_push_buffer e (Some b) n (body_buf r)) (\<lambda>(_, b', bb).
       Inr (r\<lparr>body_buf := bb\<rparr>, the b'))"

lemma buffer_nul_off: "buffer_nul b = Inr b' \<Longrightarrow> off b' = off b"
  by (auto simp: buffer_nul_def bind_res_eq_Inr split: if_splits)

lemma buffer_drain_off: "buffer_drain n b = Inr b' \<Longrightarrow> off b' = (if off b \<le> n then 0 else off b - n)"
  unfolding buffer_drain_def by (drule buffer_nul_off) simp

lemma buffer_pop_line_shrinks:
  assumes "buffer_pop_line b = Inr (l, b')"
  shows "l = [] \<and> b' = b \<or> nat (off b') < nat (off b)"
proof -
  from assms obtain data where data: "mem_read (originbuf b) (bufptr b) (off b) = Inr data"
    by (cases "mem_read (originbuf b) (bufptr b) (off b)") (auto simp: buffer_pop_line_def)
  define i where "i = length (takeWhile (\<lambda>c. \<not> is_eol c) data)"
  have "int (length data) = off b" using data by (auto simp: mem_read_eq_Inr)
  moreover have "i \<le> length data" unfolding i_def by (rule length_takeWhile_le)
  ultimately have i: "0 \<le> off b" "int i \<le> off b" by auto
  show ?thesis
  proof (cases "int i = off b")
    case True
    with assms data show ?thesis by (simp add: buffer_pop_line_def i_def Let_def)
  next
    case False
    with assms data obtain m n where "buffer_drain n (b\<lparr>originbuf := m\<rparr>) = Inr b'" "0 < n"
      unfolding buffer_pop_line_def Let_def by (fastforce simp: bind_res_eq_Inr i_def)
    with False i show ?thesis by (auto dest!: buffer_drain_off split: if_splits)
  qed
qed

lemma buffer_push_buffer_shrinks:
  assumes "buffer_push_buffer e (Some b) n bb = Inr (r, b', bb')"
  shows "nat (off (the b')) \<le> nat (off b)"
proof -
  define k where "k = (let len1 = (if n = -1 then to_int (int (buffer_length b)) else n) in
    if off b < len1 \<or> len1 < 0 then off b else len1)"
  have k: "off b \<le> k \<or> 0 \<le> k" by (auto simp: k_def Let_def)
  from assms have "b' = Some b \<or> (\<exists>b1. buffer_drain k b = Inr b1 \<and> b' = Some b1)"
    unfolding buffer_push_buffer_def k_def Let_def
    by (auto simp only: option.case bind_res_eq_Inr split: if_splits)
  with k show ?thesis by (auto dest!: buffer_drain_off)
qed

lemma take_body_shrinks: "take_body e n r b = Inr (r', b') \<Longrightarrow> nat (off b') \<le> nat (off b)"
  by (auto simp: take_body_def bind_res_eq_Inr dest!: buffer_push_buffer_shrinks)

text \<open>
  \<open>parse_headers\<close> with its locals \<open>k\<close> and \<open>v\<close> as the state of the loop, \<open>parse_body\<close>
  with the chunk loop split off. \<open>trim\<close> and \<open>ltrim\<close> change their argument, so \<open>k\<close> and
  \<open>v\<close> are the trimmed strings when a continuation line follows.
\<close>

function (sequential) parse_headers_loop ::
    "heap_env \<Rightarrow> string \<Rightarrow> string \<Rightarrow> request \<Rightarrow> buffer \<Rightarrow> (parse_status_t \<times> request \<times> buffer) res"
  and parse_body :: "heap_env \<Rightarrow> request \<Rightarrow> buffer \<Rightarrow> (parse_status_t \<times> request \<times> buffer) res"
  and parse_chunks :: "heap_env \<Rightarrow> request \<Rightarrow> buffer \<Rightarrow> (parse_status_t \<times> request \<times> buffer) res"
where
  "parse_headers_loop e k v r b =
     (if buffer_empty b then Inr (NEEDMORE, r, b)
      else
        bind_res (buffer_pop_line b) (\<lambda>(line, b1).
          if line = [] then
            bind_res (no_body r) (\<lambda>nb.
              if nb then Inr (ALLREAD, r, b1)
              else if status r = READING_HEADERS then
                parse_body e (r\<lparr>status := READING_BODY\<rparr>) b1
              else if status r = READING_TRAILER then Inr (ALLREAD, r, b1)
              else Inr (CORRUPTED, r, b1))
          else if hd line = CHR '' '' \<or> hd line = CHR 0x09 then
            (if k = [] then Inr (CORRUPTED, r, b1)
             else parse_headers_loop e k v (set_header k (v @ ltrim line [CHR '' '', CHR 0x09]) r) b1)
          else
            (case find_chr (CHR '':'') line of
               None \<Rightarrow> Inr (CORRUPTED, r, b1)
             | Some pos \<Rightarrow>
                 let k' = trim (take pos line) ws; v' = trim (drop (pos + 1) line) ws in
                 parse_headers_loop e k' v' (set_header k' v' r) b1)))"
| "parse_body e r b =
     (case header_index ''Transfer-Encoding'' r of (te, r1) \<Rightarrow>
        bind_res (if te = ''chunked'' then Inr (0, r1\<lparr>chunked := True, ntoread := -1\<rparr>)
                  else get_body_length r1) (\<lambda>(l, r2).
          if l = -1 then Inr (CORRUPTED, r2, b)
          else if chunked r2 then parse_chunks e r2 b
          else if ntoread r2 < 0 then
            bind_res (take_body e (-1) r2 b) (\<lambda>(r3, b3). Inr (NEEDMORE, r3, b3))
          else if ntoread r2 \<le> to_int (int (buffer_length b)) then
            bind_res (take_body e (to_int (ntoread r2)) r2 b) (\<lambda>(r3, b3). Inr (ALLREAD, r3, b3))
          else Inr (NEEDMORE, r2, b)))"
| "parse_chunks e r b =
     (if buffer_empty b then Inr (NEEDMORE, r, b)
      else if ntoread r < 0 then
        bind_res (buffer_pop_line b) (\<lambda>(line, b1).
        bind_res (stol16 line) (\<lambda>n.
          let r1 = r\<lparr>ntoread := n\<rparr> in
          if line = [] \<or> n < 0 then Inr (CORRUPTED, r1, b1)
          else if n = 0 then parse_headers_loop e [] [] (r1\<lparr>status := READING_TRAILER\<rparr>) b1
          else parse_chunks e r1 b1))
      else if to_int (int (buffer_length b)) < ntoread r then Inr (NEEDMORE, r, b)
      else bind_res (take_body e (to_int (ntoread r + 2)) r b) (\<lambda>(r1, b1).
             parse_chunks e (r1\<lparr>ntoread := -1\<rparr>) b1))"
  by pat_completeness auto

text \<open>
  Every call ends: the input shrinks or the parser moves on from headers to body to the next
  chunk. The trailer is entered only after a chunk-size line was taken off the input.
\<close>

termination
proof (relation "measures [\<lambda>x. case x of Inl (e, k, v, r, b) \<Rightarrow> nat (off b) | Inr (Inl (e, r, b)) \<Rightarrow> nat (off b)
      | Inr (Inr (e, r, b)) \<Rightarrow> nat (off b),
    \<lambda>x. case x of Inl (e, k, v, r, b) \<Rightarrow> 3 | Inr (Inl (e, r, b)) \<Rightarrow> 2
      | Inr (Inr (e, r, b)) \<Rightarrow> if ntoread r < 0 then 0 else 1]")
qed (auto dest!: buffer_pop_line_shrinks take_body_shrinks)

declare parse_headers_loop.simps [simp del] parse_body.simps [simp del] parse_chunks.simps [simp del]

definition parse_headers :: "heap_env \<Rightarrow> request \<Rightarrow> buffer \<Rightarrow> (parse_status_t \<times> request \<times> buffer) res" where
  "parse_headers e r b = parse_headers_loop e [] [] r b"

definition parse_trailer :: "heap_env \<Rightarrow> request \<Rightarrow> buffer \<Rightarrow> (parse_status_t \<times> request \<times> buffer) res" where
  "parse_trailer e r b = parse_headers e r b"

definition parse_firstline :: "heap_env \<Rightarrow> request \<Rightarrow> buffer \<Rightarrow> (parse_status_t \<times> request \<times> buffer) res" where
  "parse_firstline e r b =
     (if buffer_empty b then Inr (NEEDMORE, r, b)
      else
        bind_res (buffer_pop_line b) (\<lambda>(line, b1).
          if line = [] then Inr (NEEDMORE, r, b1)
          else
            bind_res (case kind r of REQUEST \<Rightarrow> parse_request_line line r
                      | RESPONSE \<Rightarrow> parse_response_line line r) (\<lambda>(x, r1).
              if x = -1 then Inr (CORRUPTED, r1, b1)
              else parse_headers e (r1\<lparr>status := READING_HEADERS\<rparr>) b1)))"

definition parse :: "heap_env \<Rightarrow> request \<Rightarrow> buffer \<Rightarrow> (parse_status_t \<times> request \<times> buffer) res" where
  "parse e r b =
     (case status r of
        READING_FIRSTLINE \<Rightarrow> parse_firstline e r b
      | READING_HEADERS \<Rightarrow> parse_headers e r b
      | READING_BODY \<Rightarrow> parse_body e r b
      | READING_TRAILER \<Rightarrow> parse_trailer e r b)"

text \<open>\<open>buf_->push(s1); buf_->push(s2); ...\<close>\<close>

definition push_body :: "heap_env \<Rightarrow> string list \<Rightarrow> request \<Rightarrow> request res" where
  "push_body e ss r =
     bind_res (push_strings (buffer_push_string e) ss (body_buf r)) (\<lambda>b. Inr (r\<lparr>body_buf := b\<rparr>))"

definition push_not_found :: "heap_env \<Rightarrow> request \<Rightarrow> request res" where
  "push_not_found e r =
     (let urihtml = htmlescape (uri r) in
      push_body e
        [''<html><head><title>404 Not Found</title></head>'' @ [LF],
         ''<body><h1>Not Found</h1>'' @ [LF],
         ''<p>The requested URL '' @ urihtml @ '' was not found on this server.</p>'',
         ''</body></html>'' @ [LF]] r)"

definition push_error :: "heap_env \<Rightarrow> int \<Rightarrow> string \<Rightarrow> request \<Rightarrow> request res" where
  "push_error e error reason r =
     push_body e
       [''<html><head><title>'' @ to_string error @ '' '' @ reason @ ''</title></head>'' @ [LF],
        ''<body>'' @ [LF] @ ''<h1>Method Not Implemented</h1>'' @ [LF],
        ''<p>Invalid method in request</p>'' @ [LF],
        ''</body></html>'' @ [LF]] r"

text \<open>The headers of \<open>set_response\<close>; \<open>date\<close> is the string \<open>time::get_date()\<close> returns.\<close>

definition response_headers :: "string \<Rightarrow> request \<Rightarrow> request" where
  "response_headers date r =
     (let len = to_string (int (buffer_length (body_buf r)));
          r0 = r\<lparr>headers := []\<rparr>;
          r1 = (if major r0 = 1 then
                  let r2 = (if minor r0 = 1 then
                              (case header_index ''Date'' r0 of (d, r') \<Rightarrow>
                                 set_header ''Connection'' ''keep-alive''
                                   (if d = [] then set_header ''Date'' date r' else r'))
                            else r0) in
                  (case header_index ''Connection'' r2 of (c, r3) \<Rightarrow>
                     if c = ''keep-alive'' then set_header ''Content-Length'' len r3 else r3)
                else r0) in
      if 0 < buffer_length (body_buf r)
      then set_header ''Content-Type'' ''text/html; charset=utf-8'' (set_header ''Content-Length'' len r1)
      else r1)"

definition set_response ::
  "heap_env \<Rightarrow> string \<Rightarrow> int \<Rightarrow> string \<Rightarrow> buffer option \<Rightarrow> request \<Rightarrow> (request \<times> buffer option) res" where
  "set_response e date code reason content r =
     (let r1 = r\<lparr>kind := RESPONSE, response_code := Some code, response_line := reason\<rparr> in
      bind_res
        (case content of
           Some c \<Rightarrow> bind_res (take_body e (-1) r1 c) (\<lambda>(r2, c'). Inr (r2, Some c'))
         | None \<Rightarrow>
             bind_res (if code = HTTP_OK then Inr r1
                       else if code = HTTP_NOTFOUND then push_not_found e r1
                       else if code = HTTP_NOCONTENT then Inr r1
                       else push_error e code reason r1) (\<lambda>r2. Inr (r2, None)))
        (\<lambda>(r2, c').
           Inr (response_headers date
                  (r2\<lparr>firstline := ''HTTP/'' @ to_string (major r2) @ ''.'' @ to_string (minor r2) @ '' ''
                       @ to_string code @ '' '' @ response_line r2 @ [CR, LF]\<rparr>), c')))"

definition type_name :: "request_type_t \<Rightarrow> string" where
  "type_name t = (case t of GET \<Rightarrow> ''GET'' | POST \<Rightarrow> ''POST'' | HEAD \<Rightarrow> ''HEAD'')"

definition set_request ::
  "heap_env \<Rightarrow> request_type_t \<Rightarrow> string \<Rightarrow> buffer option \<Rightarrow> request \<Rightarrow> (request \<times> buffer option) res" where
  "set_request e t u content r =
     (let r1 = r\<lparr>type := Some t, uri := u\<rparr> in
      bind_res
        (case content of
           Some c \<Rightarrow> bind_res (take_body e (-1) r1 c) (\<lambda>(r2, c'). Inr (r2, Some c'))
         | None \<Rightarrow> Inr (r1, None))
        (\<lambda>(r2, c').
           let r3 = set_header ''Content-Type'' ''text/html; charset=utf-8'' (r2\<lparr>headers := []\<rparr>);
               r4 = (if t = POST
                     then set_header ''Content-Length'' (to_string (int (buffer_length (body_buf r3)))) r3
                     else r3) in
           Inr (r4\<lparr>firstline := type_name t @ '' '' @ u @ '' HTTP/'' @ to_string (major r4) @ ''.''
                    @ to_string (minor r4) @ [CR, LF]\<rparr>, c')))"

definition header_line :: "string \<times> string \<Rightarrow> string" where
  "header_line kv = fst kv @ '': '' @ snd kv @ [CR, LF]"

text \<open>\<open>send_to\<close> drains the request's own body into the output.\<close>

definition send_to :: "heap_env \<Rightarrow> request \<Rightarrow> buffer \<Rightarrow> (request \<times> buffer) res" where
  "send_to e r b =
     bind_res (push_strings (buffer_push_string e)
         ([firstline r] @ map header_line (filter (\<lambda>kv. snd kv \<noteq> []) (headers r)) @ [[CR, LF]]) b) (\<lambda>b1.
       if 0 < buffer_length (body_buf r)
       then bind_res (buffer_push_buffer e (Some (body_buf r)) (-1) b1) (\<lambda>(_, bb, b2).
              Inr (r\<lparr>body_buf := the bb\<rparr>, b2))
       else Inr (r, b1))"

text \<open>The invariant, and the bytes a message is sent as.\<close>

definition request_ok :: "request \<Rightarrow> bool" where
  "request_ok r =
     (buffer_ok (body_buf r) \<and> smap_ok (headers r) \<and>
      (status r \<noteq> READING_FIRSTLINE \<longrightarrow>
         (kind r = REQUEST \<longrightarrow> type r \<noteq> None) \<and> (kind r = RESPONSE \<longrightarrow> response_code r \<noteq> None)))"

definition body :: "request \<Rightarrow> string" where
  "body r = buffer_content (body_buf r)"

definition header_lines :: "(string, string) smap \<Rightarrow> string" where
  "header_lines h = concat (map header_line (filter (\<lambda>kv. snd kv \<noteq> []) h))"

definition wire :: "request \<Rightarrow> string" where
  "wire r = firstline r @ header_lines (headers r) @ [CR, LF] @ body r"

text \<open>What \<open>parse_headers\<close> does at the empty line.\<close>

definition headers_end :: "heap_env \<Rightarrow> request \<Rightarrow> buffer \<Rightarrow> (parse_status_t \<times> request \<times> buffer) res" where
  "headers_end e r b =
     bind_res (no_body r) (\<lambda>nb.
       if nb then Inr (ALLREAD, r, b)
       else if status r = READING_HEADERS then parse_body e (r\<lparr>status := READING_BODY\<rparr>) b
       else if status r = READING_TRAILER then Inr (ALLREAD, r, b)
       else Inr (CORRUPTED, r, b))"

text \<open>Text that survives the line reader, and header names and values as \<open>trim\<close> leaves them.\<close>

definition clean :: "string \<Rightarrow> bool" where
  "clean s = (\<forall>c \<in> set s. \<not> is_eol c \<and> c \<noteq> NUL)"

definition trimmed :: "string \<Rightarrow> bool" where
  "trimmed s = (s = [] \<or> hd s \<notin> set ws \<and> last s \<notin> set ws)"

definition clean_header :: "string \<times> string \<Rightarrow> bool" where
  "clean_header kv =
     (case kv of (k, v) \<Rightarrow> clean k \<and> clean v \<and> k \<noteq> [] \<and> trimmed k \<and> trimmed v \<and> CHR '':'' \<notin> set k)"

section \<open>Lines and headers of the input\<close>

lemma pop_clean_line:
  assumes "buffer_ok b" and "buffer_content b = u @ [CR, LF] @ rest" and "clean u"
  shows "\<exists>b'. buffer_pop_line b = Inr (u, b') \<and> buffer_ok b' \<and> buffer_content b' = rest"
proof -
  have "takeWhile (\<lambda>c. c \<noteq> NUL) u = u" using assms(3) by (auto simp: clean_def takeWhile_eq_all_conv)
  moreover have "is_eol CR" "is_eol LF" "LF \<noteq> CR" by (simp_all add: is_eol_def CR_def LF_def)
  ultimately have "line_of (buffer_content b) = Some (u, rest)"
    using assms line_of_app [of u CR "LF # rest"] by (simp add: clean_def)
  with buffer_pop_line_ok [OF assms(1)] show ?thesis by auto
qed

lemma trimmed_trim: "trimmed s \<Longrightarrow> trim s ws = s"
  by (auto simp: trimmed_def intro: trim_id)

lemma trim_strips:
  assumes "trimmed s" and "c \<in> set ws"
  shows "trim (c # s) ws = s"
proof (cases "s = []")
  case True
  then show ?thesis using assms(2) by (simp add: trim_def ltrim_dropWhile rtrim_dropWhile)
next
  case False
  then have "rtrim (c # s) ws = c # s" using assms(1) dropWhile_hd_id [of "rev s @ [c]" "\<lambda>c. c \<in> set ws"]
    by (simp add: rtrim_dropWhile trimmed_def hd_rev hd_append)
  moreover have "ltrim (c # s) ws = s" using False assms dropWhile_hd_id [of s]
    by (simp add: ltrim_dropWhile trimmed_def)
  ultimately show ?thesis by (simp add: trim_def)
qed

lemma header_step:
  assumes ok: "buffer_ok b" and con: "buffer_content b = header_line (j, w) @ rest"
    and cl: "clean_header (j, w)"
  shows "\<exists>b'. parse_headers_loop e k v r b = parse_headers_loop e j w (set_header j w r) b'
    \<and> buffer_ok b' \<and> buffer_content b' = rest"
proof -
  let ?l = "j @ '': '' @ w"
  have "clean ?l" using cl by (auto simp: clean_def clean_header_def is_eol_def CR_def LF_def NUL_def)
  moreover have "buffer_content b = ?l @ [CR, LF] @ rest" using con by (simp add: header_line_def)
  ultimately obtain b' where b': "buffer_pop_line b = Inr (?l, b')" "buffer_ok b'" "buffer_content b' = rest"
    using pop_clean_line [OF ok, of ?l rest] by blast
  have ne: "\<not> buffer_empty b" using ok con by (simp add: buffer_empty_content header_line_def)
  have hd: "hd ?l = hd j" "j \<noteq> []" using cl by (auto simp: clean_header_def)
  have nosp: "hd j \<noteq> CHR '' ''" "hd j \<noteq> CHR 0x09" using cl by (auto simp: clean_header_def trimmed_def ws_def)
  have pos: "find_chr (CHR '':'') ?l = Some (length j)" using cl by (simp add: clean_header_def)
  have trims: "trim j ws = j" "trim (CHR '' '' # w) ws = w"
    using cl trim_strips [of w "CHR '' ''"] by (simp_all add: clean_header_def trimmed_trim) (simp add: ws_def)
  have "parse_headers_loop e k v r b = parse_headers_loop e j w (set_header j w r) b'"
    unfolding parse_headers_loop.simps [of e k v r b] b'(1)
    using ne hd nosp pos trims by (simp add: Let_def)
  with b' show ?thesis by blast
qed

lemma parse_headers_end:
  assumes "buffer_ok b" and "buffer_content b = [CR, LF] @ rest"
  shows "\<exists>b'. parse_headers_loop e k v r b = headers_end e r b' \<and> buffer_ok b' \<and> buffer_content b' = rest"
proof -
  from pop_clean_line [OF assms(1), of "[]" rest] assms(2) obtain b' where
    b': "buffer_pop_line b = Inr ([], b')" "buffer_ok b'" "buffer_content b' = rest"
    by (auto simp: clean_def)
  have "\<not> buffer_empty b" using assms by (simp add: buffer_empty_content)
  then have "parse_headers_loop e k v r b = headers_end e r b'"
    unfolding parse_headers_loop.simps [of e k v r b] b'(1) by (simp add: headers_end_def)
  with b' show ?thesis by blast
qed

text \<open>A block of clean headers is read into the header map, up to the empty line.\<close>

lemma parse_header_block:
  "buffer_ok b \<Longrightarrow> \<forall>kv \<in> set hs. clean_header kv \<Longrightarrow>
   buffer_content b = concat (map header_line hs) @ [CR, LF] @ rest \<Longrightarrow>
   \<exists>b'. parse_headers_loop e k v r b
       = headers_end e (fold (\<lambda>(j, w). set_header j w) hs r) b' \<and> buffer_ok b' \<and> buffer_content b' = rest"
proof (induction hs arbitrary: b k v r)
  case Nil
  then show ?case using parse_headers_end by simp
next
  case (Cons h hs)
  obtain j w where h: "h = (j, w)" by (cases h)
  from Cons.prems h obtain b1 where
    b1: "parse_headers_loop e k v r b = parse_headers_loop e j w (set_header j w r) b1" "buffer_ok b1"
      "buffer_content b1 = concat (map header_line hs) @ [CR, LF] @ rest"
    using header_step [of b j w _ e k v r] by fastforce
  from Cons.IH [OF b1(2) _ b1(3), of j w "set_header j w r"] Cons.prems(2) b1(1) h show ?case by auto
qed

section \<open>Moving a body and sending a message\<close>

lemma take_body_ok:
  fixes n :: int
  assumes ok: "buffer_ok (body_buf r)" "buffer_ok b"
  defines "k \<equiv> moved n (length (buffer_content b))"
  assumes fits: "buffer_fits k (body_buf r)"
  shows "\<exists>bb b'. take_body e n r b = Inr (r\<lparr>body_buf := bb\<rparr>, b') \<and> buffer_ok bb \<and> buffer_ok b'
    \<and> (buffer_content bb = body r @ take k (buffer_content b) \<and> buffer_content b' = drop k (buffer_content b)
          \<and> buffer_used bb \<le> buffer_used (body_buf r) + int k
       \<or> \<not> (\<forall>m. can_alloc e m) \<and> buffer_content bb = body r \<and> b' = b
          \<and> buffer_used bb \<le> buffer_used (body_buf r))"
proof -
  from buffer_push_buffer_returns [OF ok, of n e] fits obtain x b1 bb where
    p: "buffer_push_buffer e (Some b) n (body_buf r) = Inr (x, b1, bb)"
    and x: "(\<forall>m. can_alloc e m) \<longrightarrow> x = 0" unfolding k_def by blast
  from buffer_push_buffer_ok [OF ok p] obtain i where i: "b1 = Some i" "buffer_ok i" "buffer_ok bb"
    "x = 0 \<and> buffer_content bb = body r @ take k (buffer_content b) \<and> buffer_content i = drop k (buffer_content b)
     \<or> x = -1 \<and> buffer_content bb = body r \<and> i = b" unfolding k_def body_def by blast
  have "take_body e n r b = Inr (r\<lparr>body_buf := bb\<rparr>, i)" using p i(1) by (simp add: take_body_def)
  moreover have "buffer_used bb \<le> buffer_used (body_buf r) + (if x = 0 then int k else 0)"
    using buffer_push_buffer_used [OF ok p] unfolding k_def .
  ultimately show ?thesis using i x by fastforce
qed

lemma take_body_granting:
  assumes "buffer_ok (body_buf r)" and "buffer_ok b"
    and "buffer_fits (moved n (length (buffer_content b))) (body_buf r)"
  shows "\<exists>bb b'. take_body (granting f) n r b = Inr (r\<lparr>body_buf := bb\<rparr>, b') \<and> buffer_ok bb \<and> buffer_ok b'
    \<and> buffer_content bb = body r @ take (moved n (length (buffer_content b))) (buffer_content b)
    \<and> buffer_content b' = drop (moved n (length (buffer_content b))) (buffer_content b)"
  using take_body_ok [OF assms, of "granting f"] by auto

lemma header_lines_concat:
  "concat (map header_line (filter (\<lambda>kv. snd kv \<noteq> []) h)) = header_lines h"
  by (simp add: header_lines_def)

lemma send_to_ok:
  assumes ok: "buffer_ok b" "buffer_ok (body_buf r)"
    and room: "buffer_used b + int (length (wire r)) \<le> 1073741824"
  shows "\<exists>bb b'. send_to (granting f) r b = Inr (r\<lparr>body_buf := bb\<rparr>, b') \<and> buffer_ok bb \<and> buffer_ok b'
    \<and> buffer_content bb = [] \<and> buffer_content b' = buffer_content b @ wire r
    \<and> buffer_used b' \<le> buffer_used b + int (length (wire r))"
proof -
  let ?ss = "[firstline r] @ map header_line (filter (\<lambda>kv. snd kv \<noteq> []) (headers r)) @ [[CR, LF]]"
  have ss: "concat ?ss = firstline r @ header_lines (headers r) @ [CR, LF]"
    by (simp add: header_lines_concat)
  have "buffer_used b + int (length (concat ?ss)) \<le> 1073741824" using room unfolding ss by (simp add: wire_def)
  from gbufq.push_strings_appends [OF ok(1) this, of f] obtain b1 where
    b1: "push_strings (buffer_push_string (granting f)) ?ss b = Inr b1" "buffer_ok b1"
      "buffer_content b1 = buffer_content b @ concat ?ss"
      "buffer_used b1 \<le> buffer_used b + int (length (concat ?ss))" by blast
  show ?thesis
  proof (cases "buffer_length (body_buf r) = 0")
    case True
    then have "body r = []" using buffer_length_content [OF ok(2)] by (simp add: body_def)
    with True b1 ss ok(2) show ?thesis
      by (intro exI [of _ "body_buf r"] exI [of _ b1])
        (auto simp: send_to_def body_def wire_def bind_res_eq_Inr simp del: push_strings.simps)
  next
    case False
    have "moved (-1) (length (body r)) = length (body r)" by (simp add: moved_def)
    moreover have "buffer_fits (length (body r)) b1"
      using b1(4) room ss by (simp add: buffer_fits_def wire_def)
    ultimately have fit: "buffer_fits (moved (-1) (length (buffer_content (body_buf r)))) b1" by (simp add: body_def)
    from buffer_push_buffer_returns [OF b1(2) ok(2) fit, of "granting f"] obtain bb b2 where
      p: "buffer_push_buffer (granting f) (Some (body_buf r)) (-1) b1 = Inr (0, bb, b2)" by auto
    from buffer_push_buffer_ok [OF b1(2) ok(2) p] obtain i where
      "bb = Some i" "buffer_ok i" "buffer_ok b2" "buffer_content b2 = buffer_content b1 @ body r"
      "buffer_content i = []" by (auto simp: moved_def body_def)
    moreover have "buffer_used b2 \<le> buffer_used b1 + int (length (body r))"
      using buffer_push_buffer_used [OF b1(2) ok(2) p] by (simp add: moved_def body_def)
    ultimately show ?thesis using False b1 p ss
      by (intro exI [of _ i] exI [of _ b2])
        (auto simp: send_to_def wire_def bind_res_eq_Inr simp del: push_strings.simps)
  qed
qed

section \<open>Safety of the parser\<close>

text \<open>
  What a step of the parser may do: keep the invariant, take a prefix of the input, and
  add to the body no more than it takes.
\<close>

definition consumes :: "request \<Rightarrow> buffer \<Rightarrow> request \<Rightarrow> buffer \<Rightarrow> bool" where
  "consumes r b r' b' =
     (request_ok r' \<and> buffer_ok b' \<and> kind r' = kind r \<and> status r' \<noteq> READING_FIRSTLINE \<and>
      suffix (buffer_content b') (buffer_content b) \<and>
      buffer_used (body_buf r') + int (length (buffer_content b'))
        \<le> buffer_used (body_buf r) + int (length (buffer_content b)))"

definition parse_safe :: "request \<Rightarrow> buffer \<Rightarrow> (parse_status_t \<times> request \<times> buffer) res \<Rightarrow> bool" where
  "parse_safe r b x =
     (case x of Inl f \<Rightarrow> f = InvalidArgument \<or> f = OutOfRange
      | Inr (st, r', b') \<Rightarrow> st \<noteq> CANCELD \<and> consumes r b r' b')"

definition parse_pre :: "request \<Rightarrow> buffer \<Rightarrow> bool" where
  "parse_pre r b =
     (request_ok r \<and> buffer_ok b \<and> status r \<noteq> READING_FIRSTLINE \<and>
      buffer_used (body_buf r) + int (length (buffer_content b)) \<le> 1073741824)"

lemma parse_pre_step: "parse_pre r b \<Longrightarrow> consumes r b r' b' \<Longrightarrow> parse_pre r' b'"
  by (auto simp: parse_pre_def consumes_def)

lemma consumes_trans: "consumes r b r1 b1 \<Longrightarrow> consumes r1 b1 r2 b2 \<Longrightarrow> consumes r b r2 b2"
  by (auto simp: consumes_def)

lemma consumes_refl: "parse_pre r b \<Longrightarrow> consumes r b r b"
  by (auto simp: parse_pre_def consumes_def)

lemma parse_safe_step: "consumes r b r1 b1 \<Longrightarrow> parse_safe r1 b1 x \<Longrightarrow> parse_safe r b x"
  by (auto simp: parse_safe_def dest: consumes_trans split: sum.splits prod.splits)

lemma parse_safe_Inr [simp]: "parse_safe r b (Inr (st, r', b')) = (st \<noteq> CANCELD \<and> consumes r b r' b')"
  by (simp add: parse_safe_def)

lemma line_of_suffix: "line_of cs = Some (l, r) \<Longrightarrow> suffix r cs"
proof (rule line_of_cases [of cs])
  fix u x q
  assume l: "line_of cs = Some (l, r)" and cs: "cs = u @ x # q" "\<forall>c \<in> set u. \<not> is_eol c" "is_eol x"
  then have "r = q \<or> q \<noteq> [] \<and> r = tl q" by (auto simp: line_of_app split: if_splits)
  moreover have "suffix q cs" "q \<noteq> [] \<Longrightarrow> suffix (tl q) cs"
    using cs(1) by (auto simp: suffix_def intro: exI [of _ "u @ [x]"] exI [of _ "u @ [x, hd q]"])
  ultimately show ?thesis by auto
qed simp

lemma pop_line_consumes:
  assumes "parse_pre r b"
  shows "\<exists>l b1. buffer_pop_line b = Inr (l, b1) \<and> consumes r b r b1"
proof (cases "line_of (buffer_content b)")
  case None
  then show ?thesis using buffer_pop_line_ok [of b] assms consumes_refl [OF assms] by (auto simp: parse_pre_def)
next
  case (Some p)
  obtain l rest where p: "p = (l, rest)" by (cases p)
  with Some have s: "line_of (buffer_content b) = Some (l, rest)" by simp
  have "buffer_ok b" using assms by (simp add: parse_pre_def)
  from buffer_pop_line_ok [OF this] s obtain b1 where
    "buffer_pop_line b = Inr (l, b1)" "buffer_ok b1" "buffer_content b1 = rest" by auto
  with assms line_of_suffix [OF s] line_of_shorter [OF s] show ?thesis
    by (auto simp: consumes_def parse_pre_def)
qed

lemma consumes_set_header: "consumes r b r1 b1 \<Longrightarrow> consumes r b (set_header k v r1) b1"
  by (auto simp: consumes_def request_ok_def set_header_def)

lemma header_index_ok:
  "header_index k r = (v, r') \<Longrightarrow> \<exists>h. r' = r\<lparr>headers := h\<rparr> \<and> (smap_ok (headers r) \<longrightarrow> smap_ok h)"
  by (cases "smap_find k (headers r)")
    (auto simp: header_index_def smap_index_def intro: exI [of _ "headers r"])

lemma consumes_update [simp]:
  "consumes r b (r1\<lparr>ntoread := n\<rparr>) b1 = consumes r b r1 b1"
  "consumes r b (r1\<lparr>chunked := c\<rparr>) b1 = consumes r b r1 b1"
  by (simp_all add: consumes_def request_ok_def)

lemma consumes_header_index: "consumes r b r1 b1 \<Longrightarrow> header_index k r1 = (v, r2) \<Longrightarrow> consumes r b r2 b1"
  by (drule header_index_ok) (auto simp: consumes_def request_ok_def)

lemma consumes_status:
  "consumes r b r1 b1 \<Longrightarrow> st \<noteq> READING_FIRSTLINE \<Longrightarrow> consumes r b (r1\<lparr>status := st\<rparr>) b1"
  by (auto simp: consumes_def request_ok_def)

lemma take_body_consumes:
  assumes "parse_pre r b"
  shows "\<exists>r1 b1. take_body e n r b = Inr (r1, b1) \<and> consumes r b r1 b1"
proof -
  let ?k = "moved n (length (buffer_content b))"
  have k: "?k \<le> length (buffer_content b)" by (rule moved_le)
  have ok: "buffer_ok (body_buf r)" "buffer_ok b" "request_ok r" "status r \<noteq> READING_FIRSTLINE"
    using assms by (auto simp: parse_pre_def request_ok_def)
  have "buffer_fits ?k (body_buf r)" using assms k by (simp add: parse_pre_def buffer_fits_def)
  from take_body_ok [OF ok(1,2) this, of e] obtain bb b1 where t: "take_body e n r b = Inr (r\<lparr>body_buf := bb\<rparr>, b1)"
    "buffer_ok bb" "buffer_ok b1"
    "b1 = b \<and> buffer_used bb \<le> buffer_used (body_buf r)
     \<or> buffer_content b1 = drop ?k (buffer_content b) \<and> buffer_used bb \<le> buffer_used (body_buf r) + int ?k"
    by blast
  have "consumes r b (r\<lparr>body_buf := bb\<rparr>) b1"
    using t k ok by (auto simp: consumes_def request_ok_def suffix_drop)
  with t(1) show ?thesis by blast
qed

lemma no_body_returns:
  "request_ok r \<Longrightarrow> status r \<noteq> READING_FIRSTLINE \<Longrightarrow> \<exists>nb. no_body r = Inr nb"
  by (cases "kind r") (auto simp: request_ok_def no_body_def read_member_def)

lemma strtol_faults: "strtol b s = Inl f \<Longrightarrow> f = InvalidArgument \<or> f = OutOfRange"
  by (auto simp: strtol_def Let_def split: prod.splits if_splits)

lemma get_body_length_consumes:
  assumes "consumes r b r1 b1"
  shows "case get_body_length r1 of Inl f \<Rightarrow> f = InvalidArgument \<or> f = OutOfRange
    | Inr (x, r2) \<Rightarrow> consumes r b r2 b1"
proof -
  obtain cl r2 where r2: "header_index ''Content-Length'' r1 = (cl, r2)" by (metis surj_pair)
  obtain cn r3 where r3: "header_index ''Connection'' r2 = (cn, r3)" by (metis surj_pair)
  have "consumes r b r3 b1" using assms r2 r3 by (blast intro: consumes_header_index)
  then show ?thesis using r2 r3 strtol_faults [of 10 cl]
    by (cases "stol cl") (auto simp: get_body_length_def)
qed

lemma parse_body_safe:
  assumes pre: "parse_pre r b"
    and chunks: "\<And>r2. consumes r b r2 b \<Longrightarrow> parse_safe r2 b (parse_chunks e r2 b)"
  shows "parse_safe r b (parse_body e r b)"
proof -
  obtain te r1 where r1: "header_index ''Transfer-Encoding'' r = (te, r1)" by (metis surj_pair)
  then have c1: "consumes r b r1 b" using consumes_refl [OF pre] by (blast intro: consumes_header_index)
  let ?g = "if te = ''chunked'' then Inr (0, r1\<lparr>chunked := True, ntoread := -1\<rparr>) else get_body_length r1"
  have g: "case ?g of Inl f \<Rightarrow> f = InvalidArgument \<or> f = OutOfRange | Inr (x, r2) \<Rightarrow> consumes r b r2 b"
    using get_body_length_consumes [OF c1] c1 by simp
  show ?thesis
  proof (cases ?g)
    case (Inl f)
    with g r1 show ?thesis by (subst parse_body.simps) (simp add: parse_safe_def split del: if_split)
  next
    case (Inr p)
    obtain x r2 where p: "p = (x, r2)" by (cases p)
    with Inr g have c2: "consumes r b r2 b" by simp
    have tb: "\<exists>r3 b3. take_body e n r2 b = Inr (r3, b3) \<and> consumes r b r3 b3" for n
      using take_body_consumes [OF parse_pre_step [OF pre c2], of e n] consumes_trans [OF c2] by blast
    have pc: "parse_safe r b (parse_chunks e r2 b)" using parse_safe_step [OF c2 chunks [OF c2]] .
    from tb [of "-1"] tb [of "to_int (ntoread r2)"] pc c2 Inr p r1 show ?thesis
      by (subst parse_body.simps) (auto split del: if_split split: if_splits)
  qed
qed

lemma parse_headers_step_safe:
  assumes pre: "parse_pre r b" and pop: "buffer_pop_line b = Inr (line, b1)" and c: "consumes r b r b1"
    and body: "line = [] \<Longrightarrow> parse_pre (r\<lparr>status := READING_BODY\<rparr>) b1 \<Longrightarrow>
      parse_safe (r\<lparr>status := READING_BODY\<rparr>) b1 (parse_body e (r\<lparr>status := READING_BODY\<rparr>) b1)"
    and more: "\<And>k' v' j w. \<not> buffer_empty b \<Longrightarrow> line \<noteq> [] \<Longrightarrow> parse_pre (set_header j w r) b1 \<Longrightarrow>
      parse_safe (set_header j w r) b1 (parse_headers_loop e k' v' (set_header j w r) b1)"
  shows "parse_safe r b (parse_headers_loop e k v r b)"
proof -
  have ok: "request_ok r" "status r \<noteq> READING_FIRSTLINE" using pre by (auto simp: parse_pre_def)
  from no_body_returns [OF ok] obtain nb where nb: "no_body r = Inr nb" by blast
  have st: "consumes r b (r\<lparr>status := READING_BODY\<rparr>) b1" using c by (rule consumes_status) simp
  have b: "line = [] \<Longrightarrow> parse_safe r b (parse_body e (r\<lparr>status := READING_BODY\<rparr>) b1)"
    using parse_safe_step [OF st body] parse_pre_step [OF pre st] by simp
  have h: "parse_safe r b (parse_headers_loop e k' v' (set_header j w r) b1)"
    if "\<not> buffer_empty b" "line \<noteq> []" for k' v' j w
    using parse_safe_step [OF consumes_set_header [OF c] more] that
      parse_pre_step [OF pre consumes_set_header [OF c]] by blast
  show ?thesis unfolding parse_headers_loop.simps [of e k v r b] pop
    using b h c nb consumes_refl [OF pre] by (auto simp: Let_def split: option.splits)
qed

lemma parse_chunks_step_safe:
  assumes pre: "parse_pre r b"
    and trailer: "\<And>r1 b1. consumes r b r1 b1 \<Longrightarrow> nat (off b1) < nat (off b) \<Longrightarrow>
      parse_safe r1 b1 (parse_headers_loop e [] [] r1 b1)"
    and more: "\<And>r1 b1. consumes r b r1 b1 \<Longrightarrow> nat (off b1) < nat (off b)
        \<or> nat (off b1) \<le> nat (off b) \<and> ntoread r1 < 0 \<and> 0 \<le> ntoread r \<Longrightarrow>
      parse_safe r1 b1 (parse_chunks e r1 b1)"
  shows "parse_safe r b (parse_chunks e r b)"
proof (cases "ntoread r < 0")
  case True
  from pop_line_consumes [OF pre] obtain line b1 where
    pop: "buffer_pop_line b = Inr (line, b1)" and c: "consumes r b r b1" by blast
  show ?thesis
  proof (cases "stol16 line")
    case (Inl f)
    then show ?thesis using True pop consumes_refl [OF pre] strtol_faults [of 16 line]
      by (subst parse_chunks.simps) (auto simp: parse_safe_def)
  next
    case (Inr n)
    let ?r1 = "r\<lparr>ntoread := n\<rparr>"
    from Inr have sh: "nat (off b1) < nat (off b)" using buffer_pop_line_shrinks [OF pop] by auto
    have c1: "consumes r b ?r1 b1" using c by simp
    have c2: "consumes r b (?r1\<lparr>status := READING_TRAILER\<rparr>) b1" using c1 by (rule consumes_status) simp
    from parse_safe_step [OF c2 trailer [OF c2 sh]] parse_safe_step [OF c1 more [OF c1]] sh Inr True pop c1
      consumes_refl [OF pre] show ?thesis by (subst parse_chunks.simps) (auto simp: Let_def)
  qed
next
  case False
  let ?n = "to_int (ntoread r + 2)"
  from take_body_consumes [OF pre, of e ?n] obtain r1 b1 where
    t: "take_body e ?n r b = Inr (r1, b1)" and c: "consumes r b r1 b1" by blast
  have c1: "consumes r b (r1\<lparr>ntoread := -1\<rparr>) b1" using c by simp
  have "nat (off b1) \<le> nat (off b)" using t by (rule take_body_shrinks)
  then have "parse_safe r b (parse_chunks e (r1\<lparr>ntoread := -1\<rparr>) b1)"
    using parse_safe_step [OF c1 more [OF c1]] False by simp
  with False t consumes_refl [OF pre] show ?thesis by (subst parse_chunks.simps) simp
qed

text \<open>The three parsers, by induction on the input that is left and the stage.\<close>

lemma parsers_safe:
  "parse_pre r b \<Longrightarrow> parse_safe r b (parse_headers_loop e k v r b)"
  "parse_pre r b \<Longrightarrow> parse_safe r b (parse_body e r b)"
  "parse_pre r b \<Longrightarrow> parse_safe r b (parse_chunks e r b)"
proof -
  have "\<forall>r b. nat (off b) = n \<longrightarrow> parse_pre r b \<longrightarrow>
      (\<forall>k v. parse_safe r b (parse_headers_loop e k v r b)) \<and> parse_safe r b (parse_body e r b)
      \<and> parse_safe r b (parse_chunks e r b)" for n
  proof (induction n rule: less_induct)
    case (less n)
    have ih: "parse_safe r1 b1 (parse_headers_loop e k v r1 b1)" "parse_safe r1 b1 (parse_chunks e r1 b1)"
      if "nat (off b1) < n" "parse_pre r1 b1" for r1 b1 k v
      using less.IH [OF that(1)] that(2) by blast+
    have neg: "parse_safe r b (parse_chunks e r b)" if "nat (off b) \<le> n" "parse_pre r b" "ntoread r < 0" for r b
    proof (rule parse_chunks_step_safe [OF that(2)])
    qed (use ih that in \<open>auto dest: parse_pre_step [OF that(2)]\<close>)
    have chunks: "parse_safe r b (parse_chunks e r b)" if "nat (off b) \<le> n" "parse_pre r b" for r b
    proof (rule parse_chunks_step_safe [OF that(2)])
    qed (use ih neg that in \<open>auto dest: parse_pre_step [OF that(2)]\<close>)
    have bodys: "parse_safe r b (parse_body e r b)" if "nat (off b) \<le> n" "parse_pre r b" for r b
      by (rule parse_body_safe [OF that(2)]) (use chunks that in \<open>auto dest: parse_pre_step [OF that(2)]\<close>)
    have "parse_safe r b (parse_headers_loop e k v r b)" if "nat (off b) = n" "parse_pre r b" for r b k v
    proof -
      from pop_line_consumes [OF that(2)] obtain line b1 where
        pop: "buffer_pop_line b = Inr (line, b1)" and c: "consumes r b r b1" by blast
      have sh: "line = [] \<and> b1 = b \<or> nat (off b1) < nat (off b)" using pop by (rule buffer_pop_line_shrinks)
      show ?thesis by (rule parse_headers_step_safe [OF that(2) pop c]) (use ih bodys that sh in auto)
    qed
    with bodys chunks show ?case by auto
  qed
  then show "parse_pre r b \<Longrightarrow> parse_safe r b (parse_headers_loop e k v r b)"
    "parse_pre r b \<Longrightarrow> parse_safe r b (parse_body e r b)"
    "parse_pre r b \<Longrightarrow> parse_safe r b (parse_chunks e r b)" by blast+
qed

lemma three_words_app:
  "CHR '' '' \<notin> set a \<Longrightarrow> CHR '' '' \<notin> set b \<Longrightarrow> three_words (a @ '' '' @ b @ '' '' @ c) = Some (a, b, c)"
  by (simp add: three_words_def Let_def)

lemma store_uri_ok:
  "case store_uri u r of Inl f \<Rightarrow> f = BadAccess | Inr r' \<Rightarrow> \<exists>u' q. r' = r\<lparr>uri := u', query := q\<rparr>"
proof -
  define r1 where "r1 = (case find_chr (CHR ''?'') u of
      Some k3 \<Rightarrow> r\<lparr>uri := take k3 u, query := drop (k3 + 1) u\<rparr> | None \<Rightarrow> r\<lparr>uri := u\<rparr>)"
  have r1: "\<exists>u' q. r1\<lparr>uri := w\<rparr> = r\<lparr>uri := u', query := q\<rparr>" for w
  proof (cases "find_chr (CHR ''?'') u")
    case None
    then have "r1\<lparr>uri := w\<rparr> = r\<lparr>uri := w, query := query r\<rparr>" by (simp add: r1_def)
    then show ?thesis by blast
  next
    case (Some k)
    then have "r1\<lparr>uri := w\<rparr> = r\<lparr>uri := w, query := drop (k + 1) u\<rparr>" by (simp add: r1_def)
    then show ?thesis by blast
  qed
  show ?thesis unfolding store_uri_def Let_def r1_def [symmetric]
    using r1 pct_decode_faults [of "uri r1"] by (cases "pct_decode (uri r1)") (auto simp: decode_pct)
qed

definition same_frame :: "request \<Rightarrow> request \<Rightarrow> bool" where
  "same_frame r r' =
     (headers r' = headers r \<and> body_buf r' = body_buf r \<and> status r' = status r \<and> kind r' = kind r)"

lemma parse_request_line_ok:
  "case parse_request_line line r of Inl f \<Rightarrow> f = BadAccess
   | Inr (x, r') \<Rightarrow> same_frame r r' \<and> (x = 0 \<and> type r' \<noteq> None \<or> x = -1)"
proof (cases "three_words line")
  case (Some w)
  obtain m u p where w: "w = (m, u, p)" by (cases w)
  show ?thesis
  proof (cases "parse_type m")
    case t: (Some t)
    show ?thesis using store_uri_ok [where u = u and r = "r\<lparr>type := Some t\<rparr>"] Some w t
      by (cases "store_uri u (r\<lparr>type := Some t\<rparr>)"; cases "parse_protocol p")
        (auto simp: parse_request_line_def same_frame_def set_protocol_def)
  qed (use Some w in \<open>simp add: parse_request_line_def same_frame_def\<close>)
qed (simp add: parse_request_line_def same_frame_def)

lemma parse_response_line_ok:
  "case parse_response_line line r of Inl f \<Rightarrow> f = InvalidArgument \<or> f = OutOfRange
   | Inr (x, r') \<Rightarrow> same_frame r r' \<and> (x = 0 \<and> response_code r' \<noteq> None \<or> x = -1)"
proof (cases "three_words line")
  case (Some w)
  obtain p c l where w: "w = (p, c, l)" by (cases w)
  have "case stoi c of Inl f \<Rightarrow> f = InvalidArgument \<or> f = OutOfRange | Inr n \<Rightarrow> True"
    using strtol_faults [of 10 c] by (cases "stol c") (auto simp: stoi_def)
  then show ?thesis using Some w
    by (cases "parse_protocol p"; cases "stoi c")
      (auto simp: parse_response_line_def same_frame_def set_protocol_def)
qed (simp add: parse_response_line_def same_frame_def)

section \<open>Header values and bodies of known length\<close>

definition header_value :: "string \<Rightarrow> request \<Rightarrow> string" where
  "header_value k r = (case smap_find k (headers r) of None \<Rightarrow> [] | Some v \<Rightarrow> v)"

lemma get_header_value: "get_header k r = Inr (header_value k r)"
  by (simp add: get_header_def header_value_def smap_count_def smap_at_def split: option.splits)

text \<open>Reading a header may insert an empty one, which no read can tell from a missing one.\<close>

lemma header_index_value:
  "\<exists>h. header_index k r = (header_value k r, r\<lparr>headers := h\<rparr>)
     \<and> (\<forall>j. header_value j (r\<lparr>headers := h\<rparr>) = header_value j r)"
  by (cases "smap_find k (headers r)")
    (auto simp: header_index_def smap_index_def header_value_def smap_find_set intro: exI [of _ "headers r"])

lemma header_value_update [simp]:
  "header_value k (r\<lparr>ntoread := n\<rparr>) = header_value k r"
  "header_value k (r\<lparr>body_buf := b\<rparr>) = header_value k r"
  "header_value k (r\<lparr>status := st\<rparr>) = header_value k r"
  "header_value k (r\<lparr>chunked := c\<rparr>) = header_value k r"
  by (simp_all add: header_value_def)

lemma body_update [simp]:
  "body (r\<lparr>headers := h\<rparr>) = body r" "body (r\<lparr>ntoread := n\<rparr>) = body r" "body (r\<lparr>status := st\<rparr>) = body r"
  "body (r\<lparr>body_buf := bb\<rparr>) = buffer_content bb" "body (r\<lparr>chunked := c\<rparr>) = body r"
  by (simp_all add: body_def)

lemma get_body_length_value:
  assumes "header_value ''Content-Length'' r = to_string n" and "0 \<le> n" and "n \<le> INT_MAX"
  shows "\<exists>h. get_body_length r = Inr (0, r\<lparr>headers := h, ntoread := n\<rparr>)
    \<and> (\<forall>j. header_value j (r\<lparr>headers := h\<rparr>) = header_value j r)"
proof -
  from header_index_value [of "''Content-Length''" r] obtain h1 where
    h1: "header_index ''Content-Length'' r = (to_string n, r\<lparr>headers := h1\<rparr>)"
    "\<forall>j. header_value j (r\<lparr>headers := h1\<rparr>) = header_value j r" using assms(1) by auto
  from header_index_value [of "''Connection''" "r\<lparr>headers := h1\<rparr>"] obtain v h2 where
    h2: "header_index ''Connection'' (r\<lparr>headers := h1\<rparr>) = (v, r\<lparr>headers := h2\<rparr>)"
    "\<forall>j. header_value j (r\<lparr>headers := h2\<rparr>) = header_value j (r\<lparr>headers := h1\<rparr>)" by auto
  have "stol (to_string n) = Inr n" using assms by (intro stol_to_string) (simp_all add: LONG_MAX_def INT_MAX_def)
  then show ?thesis using h1 h2 assms by (intro exI [of _ h2]) (simp add: get_body_length_def)
qed

lemma moved_nat: "0 \<le> n \<Longrightarrow> nat n \<le> k \<Longrightarrow> moved n k = nat n"
  unfolding moved_def by (rule if_not_P) linarith

lemma parse_body_known_length:
  fixes n :: int
  assumes ok: "buffer_ok (body_buf r)" "buffer_ok b"
    and room: "buffer_used (body_buf r) + int (length (buffer_content b)) \<le> 1073741824"
    and hd: "header_value ''Content-Length'' r = to_string n" "0 \<le> n" "n \<le> INT_MAX"
      "header_value ''Transfer-Encoding'' r \<noteq> ''chunked''" "\<not> chunked r"
  shows "\<exists>h bb b'. parse_body (granting f) r b =
      Inr (if nat n \<le> length (buffer_content b) then ALLREAD else NEEDMORE, r\<lparr>headers := h, ntoread := n, body_buf := bb\<rparr>, b')
    \<and> (\<forall>j. header_value j (r\<lparr>headers := h\<rparr>) = header_value j r) \<and> buffer_ok bb \<and> buffer_ok b'
    \<and> (if nat n \<le> length (buffer_content b)
       then buffer_content bb = body r @ take (nat n) (buffer_content b) \<and> buffer_content b' = drop (nat n) (buffer_content b)
       else bb = body_buf r \<and> b' = b)"
proof -
  from header_index_value [of "''Transfer-Encoding''" r] obtain h1 where
    h1: "header_index ''Transfer-Encoding'' r = (header_value ''Transfer-Encoding'' r, r\<lparr>headers := h1\<rparr>)"
    "\<forall>j. header_value j (r\<lparr>headers := h1\<rparr>) = header_value j r" by blast
  from get_body_length_value [of "r\<lparr>headers := h1\<rparr>", OF _ hd(2,3)] h1(2) hd(1) obtain h where
    h: "get_body_length (r\<lparr>headers := h1\<rparr>) = Inr (0, r\<lparr>headers := h, ntoread := n\<rparr>)"
    "\<forall>j. header_value j (r\<lparr>headers := h\<rparr>) = header_value j r" by auto
  let ?r = "r\<lparr>headers := h, ntoread := n\<rparr>" and ?len = "length (buffer_content b)"
  have "int ?len \<le> INT_MAX" using ok(2) buffer_off_content [OF ok(2)] by (simp add: buffer_ok_def)
  then have len: "to_int (int (buffer_length b)) = int ?len" "to_int n = n"
    using hd(2,3) ok(2) by (simp_all add: buffer_length_content INT_MIN_def)
  have eq: "parse_body (granting f) r b =
      (if n \<le> int ?len then bind_res (take_body (granting f) n ?r b) (\<lambda>(r3, b3). Inr (ALLREAD, r3, b3))
       else Inr (NEEDMORE, ?r, b))"
    unfolding parse_body.simps [of "granting f" r b] h1(1) using hd h(1) len by simp
  note mv = moved_nat [OF hd(2), of ?len]
  show ?thesis
  proof (cases "nat n \<le> ?len")
    case True
    then have "buffer_fits (moved n ?len) (body_buf ?r)" using room by (simp add: mv buffer_fits_def) linarith
    from take_body_granting [OF _ ok(2) this, of f] ok(1) obtain bb b' where
      "take_body (granting f) n ?r b = Inr (?r\<lparr>body_buf := bb\<rparr>, b')" "buffer_ok bb" "buffer_ok b'"
      "buffer_content bb = body ?r @ take (nat n) (buffer_content b)" "buffer_content b' = drop (nat n) (buffer_content b)"
      using mv True by auto
    moreover have "n \<le> int ?len" using True by linarith
    ultimately show ?thesis using True h(2) eq
      by (intro exI [of _ h] exI [of _ bb] exI [of _ b']) simp
  next
    case False
    then have "\<not> n \<le> int ?len" by linarith
    then show ?thesis using False h(2) eq ok by (intro exI [of _ h] exI [of _ "body_buf r"] exI [of _ b]) simp
  qed
qed

section \<open>Properties\<close>

lemma parse_firstline_safe:
  assumes ok: "request_ok r" "buffer_ok b" "status r = READING_FIRSTLINE"
    and room: "buffer_used (body_buf r) + int (length (buffer_content b)) \<le> 1073741824"
  shows "case parse_firstline e r b of
      Inl f \<Rightarrow> f = InvalidArgument \<or> f = OutOfRange \<or> f = BadAccess \<and> kind r = REQUEST
    | Inr (st, r', b') \<Rightarrow> st \<noteq> CANCELD \<and> request_ok r' \<and> buffer_ok b' \<and> suffix (buffer_content b') (buffer_content b)
        \<and> (st = ALLREAD \<longrightarrow> length (buffer_content b') < length (buffer_content b))"
proof (cases "line_of (buffer_content b)")
  case None
  then have "buffer_pop_line b = Inr ([], b)" using buffer_pop_line_ok [OF ok(2)] by simp
  then show ?thesis using ok by (simp add: parse_firstline_def)
next
  case (Some q)
  obtain l rest where l: "line_of (buffer_content b) = Some (l, rest)" using Some by (cases q) auto
  with buffer_pop_line_ok [OF ok(2)] obtain b1 where
    b1: "buffer_pop_line b = Inr (l, b1)" "buffer_ok b1" "buffer_content b1 = rest" by auto
  have suf: "suffix rest (buffer_content b)" using l by (rule line_of_suffix)
  have len: "length rest < length (buffer_content b)" using l by (rule line_of_shorter)
  have shorter: "suffix q rest \<Longrightarrow> length q < length (buffer_content b)" for q using suffix_length_le [of q rest] len by simp
  have ne: "\<not> buffer_empty b" using len ok(2) by (auto simp: buffer_empty_content)
  let ?p = "case kind r of REQUEST \<Rightarrow> parse_request_line l r | RESPONSE \<Rightarrow> parse_response_line l r"
  have p: "case ?p of Inl f \<Rightarrow> f = InvalidArgument \<or> f = OutOfRange \<or> f = BadAccess \<and> kind r = REQUEST
    | Inr (x, r') \<Rightarrow> same_frame r r' \<and> (x = -1 \<or> x = 0 \<and> (kind r' = REQUEST \<longrightarrow> type r' \<noteq> None)
        \<and> (kind r' = RESPONSE \<longrightarrow> response_code r' \<noteq> None))"
    using parse_request_line_ok [where line = l and r = r] parse_response_line_ok [where line = l and r = r]
    by (cases "kind r"; cases ?p) (auto simp: same_frame_def)
  show ?thesis
  proof (cases "l = []")
    case True
    with ne b1 ok suf show ?thesis by (simp add: parse_firstline_def)
  next
    case False
    show ?thesis
    proof (cases ?p)
      case (Inl f)
      with False ne b1 p show ?thesis by (simp add: parse_firstline_def)
    next
      case (Inr xr)
      obtain x r1 where x: "?p = Inr (x, r1)" using Inr by (cases xr) auto
      with p have fr: "same_frame r r1" "x = -1 \<or> x = 0 \<and> (kind r1 = REQUEST \<longrightarrow> type r1 \<noteq> None)
        \<and> (kind r1 = RESPONSE \<longrightarrow> response_code r1 \<noteq> None)" by auto
      have pre: "parse_pre (r1\<lparr>status := READING_HEADERS\<rparr>) b1" if "x \<noteq> -1"
        using that fr ok b1 len room by (auto simp: parse_pre_def request_ok_def same_frame_def)
      have "request_ok r1" using fr(1) ok by (simp add: request_ok_def same_frame_def)
      with parsers_safe(1) [OF pre, of e "[]" "[]"] False ne b1 x suf show ?thesis
        by (auto simp: parse_firstline_def parse_headers_def parse_safe_def consumes_def b1(3)
            dest: suffix_order.trans shorter split: sum.splits)
    qed
  qed
qed

text \<open>C5. The parser is safe on every input: for a request object that satisfies its invariant and
  any bytes in the input, whatever the state of the parse and even when allocations fail,
  \<open>parse\<close> returns; it never reads an uninitialised member, overflows an int or leaves an
  allocation. It keeps both invariants, only takes bytes off the front of the input, and
  never answers \<open>CANCELD\<close>. The only other outcomes are the exceptions of \<open>std::stol\<close> and
  \<open>std::stoi\<close> on malformed numbers, and an out-of-bounds read in the percent decoder on the first
  line of a request.\<close>

theorem parse_safety:
  assumes "request_ok r" and "buffer_ok b"
    and "buffer_used (body_buf r) + int (length (buffer_content b)) \<le> 1073741824"
  shows "case parse e r b of
      Inl f \<Rightarrow> f = InvalidArgument \<or> f = OutOfRange
        \<or> f = BadAccess \<and> kind r = REQUEST \<and> status r = READING_FIRSTLINE
    | Inr (st, r', b') \<Rightarrow> st \<noteq> CANCELD \<and> request_ok r' \<and> buffer_ok b' \<and> suffix (buffer_content b') (buffer_content b)"
proof (cases "status r = READING_FIRSTLINE")
  case True
  with parse_firstline_safe [OF assms(1,2) True assms(3), of e] show ?thesis
    by (auto simp: parse_def split: sum.splits)
next
  case False
  with assms have pre: "parse_pre r b" by (simp add: parse_pre_def)
  from parsers_safe [OF pre, where e = e] False have "parse_safe r b (parse e r b)"
    by (cases "status r") (simp_all add: parse_def parse_headers_def parse_trailer_def)
  then show ?thesis by (auto simp: parse_safe_def consumes_def split: sum.splits)
qed

definition empty_request :: "request" where
  "empty_request = \<lparr>headers = [], body_buf = mkbuf [] [] [], chunked = False, ntoread = 0, firstline = [],
     kind = REQUEST, type = None, status = READING_FIRSTLINE, major = 1, minor = 1,
     uri = [], query = [], response_code = None, response_line = []\<rparr>"

theorem parse_safety_witness:
  "case parse (granting (\<lambda>_. NUL)) empty_request (mkbuf [] (''GET / HTTP/1.1'' @ [CR, LF, CR, LF]) []) of
      Inl f \<Rightarrow> f = InvalidArgument \<or> f = OutOfRange \<or> f = BadAccess
    | Inr (st, r', b') \<Rightarrow> st \<noteq> CANCELD \<and> request_ok r' \<and> buffer_ok b'
        \<and> suffix (buffer_content b') (''GET / HTTP/1.1'' @ [CR, LF, CR, LF])"
  using parse_safety [of empty_request "mkbuf [] (''GET / HTTP/1.1'' @ [CR, LF, CR, LF]) []" "granting (\<lambda>_. NUL)"]
  by (auto simp: empty_request_def request_ok_def buffer_used_def INT_MAX_def split: sum.splits)

end
