(* ===== verification/Libio_Http_Message.thy ===== *)
theory Libio_Http_Message
  imports Libio_Request
begin

text \<open>
  Whole messages: what \<open>set_request\<close>/\<open>set_response\<close> build, \<open>send_to\<close> writes and \<open>parse\<close>
  reads back (\<open>src/http/request.cc\<close>), and where the parser departs from the message that was
  sent when the bytes arrive in pieces, when the body is chunked, or when a header continues.
\<close>

section \<open>Definitions\<close>

definition fresh_request :: "buffer \<Rightarrow> request" where
  "fresh_request b =
     \<lparr>headers = [], body_buf = b, chunked = False, ntoread = 0, firstline = [],
      kind = RESPONSE, type = None, status = READING_FIRSTLINE, major = 1, minor = 1,
      uri = [], query = [], response_code = None, response_line = []\<rparr>"

definition request_headers :: "request_type_t \<Rightarrow> nat \<Rightarrow> (string, string) smap" where
  "request_headers t n =
     (if t = POST
      then [(''Content-Length'', to_string (int n)), (''Content-Type'', ''text/html; charset=utf-8'')]
      else [(''Content-Type'', ''text/html; charset=utf-8'')])"

section \<open>Building a message\<close>

lemma request_new_fresh:
  "\<exists>b. request_new (granting f) = Inr (fresh_request b) \<and> buffer_ok b \<and> buffer_content b = [] \<and> buffer_used b = 0"
  by (auto simp: request_new_def buffer_new_def fresh_request_def buffer_ok_def buffer_content_def buffer_used_def
      fresh_bytes_def DEFAULT_SIZE_def INT_MAX_def)

lemma fresh_request_sel [simp]:
  "body_buf (fresh_request b) = b" "status (fresh_request b) = READING_FIRSTLINE" "headers (fresh_request b) = []"
  "chunked (fresh_request b) = False" "major (fresh_request b) = 1" "minor (fresh_request b) = 1"
  "body (fresh_request b) = buffer_content b" "query (fresh_request b) = []"
  by (simp_all add: fresh_request_def body_def)

lemma header_order: "smap_set ''Content-Length'' v [(''Content-Type'', w)] = [(''Content-Length'', v), (''Content-Type'', w)]"
  by simp

lemma to_string_digits: "0 \<le> n \<Longrightarrow> \<forall>c \<in> set (to_string n). \<exists>d < 10. c = digit_char d"
  using nat_str_digits [of 10 "nat n"] by (simp add: to_string_def)

lemma to_string_1 [simp]: "to_string 1 = ''1''" "to_string 0 = ''0''"
  by code_simp+

lemma digit_char_plain:
  assumes "d < 10"
  shows "\<not> is_eol (digit_char d) \<and> digit_char d \<noteq> NUL \<and> digit_char d \<notin> set ws \<and> digit_char d \<noteq> CHR '' ''"
proof -
  have "of_char (digit_char d) = 48 + d" using assms by (simp add: digit_char_def)
  then show ?thesis by (auto simp: is_eol_def CR_def LF_def NUL_def ws_def)
qed

lemma to_string_plain:
  assumes "0 \<le> n"
  shows "clean (to_string n) \<and> trimmed (to_string n) \<and> CHR '' '' \<notin> set (to_string n)"
proof -
  have d: "\<not> is_eol c \<and> c \<noteq> NUL \<and> c \<notin> set ws \<and> c \<noteq> CHR '' ''" if "c \<in> set (to_string n)" for c
  proof -
    from to_string_digits [OF assms] that obtain d where "d < 10" "c = digit_char d" by blast
    then show ?thesis using digit_char_plain by simp
  qed
  have "hd (to_string n) \<notin> set ws" "last (to_string n) \<notin> set ws"
    using d [OF hd_in_set [OF to_string_nonempty]] d [OF last_in_set [OF to_string_nonempty]] by simp_all
  with d show ?thesis unfolding clean_def trimmed_def by blast
qed

lemma set_request_ok:
  fixes r :: request
  assumes ok: "buffer_ok (body_buf r)" "buffer_ok c"
    and room: "buffer_used (body_buf r) + int (length (buffer_content c)) \<le> 1073741824"
    and v: "major r = 1" "minor r = 1"
  defines "n \<equiv> length (body r @ buffer_content c)"
  shows "\<exists>bb c'. set_request (granting f) t u (Some c) r =
      Inr (r\<lparr>type := Some t, uri := u, body_buf := bb, headers := request_headers t n,
             firstline := type_name t @ '' '' @ u @ '' HTTP/1.1'' @ [CR, LF]\<rparr>, Some c')
    \<and> buffer_ok bb \<and> buffer_content bb = body r @ buffer_content c \<and> buffer_ok c' \<and> buffer_content c' = []"
proof -
  let ?r = "r\<lparr>type := Some t, uri := u\<rparr>"
  have mv: "moved (-1) (length (buffer_content c)) = length (buffer_content c)" by (simp add: moved_def)
  then have "buffer_fits (moved (-1) (length (buffer_content c))) (body_buf ?r)" using room by (simp add: buffer_fits_def)
  from take_body_granting [OF _ ok(2) this, of f] ok(1) mv obtain bb c' where
    t: "take_body (granting f) (-1) ?r c = Inr (?r\<lparr>body_buf := bb\<rparr>, c')" "buffer_ok bb" "buffer_ok c'"
      "buffer_content bb = body r @ buffer_content c" "buffer_content c' = []" by (auto simp: body_def)
  have len: "buffer_length bb = n" using t(2,4) by (simp add: buffer_length_content n_def)
  have "set_request (granting f) t u (Some c) r =
      Inr (r\<lparr>type := Some t, uri := u, body_buf := bb, headers := request_headers t n,
             firstline := type_name t @ '' '' @ u @ '' HTTP/1.1'' @ [CR, LF]\<rparr>, Some c')"
    unfolding set_request_def Let_def option.case t(1) bind_res.simps prod.case
    using v len by (simp add: set_header_def request_headers_def header_order)
  with t show ?thesis by blast
qed

lemma request_headers_clean: "list_all clean_header (request_headers t n)"
  using to_string_plain [of "int n"]
  by (auto simp: request_headers_def clean_header_def clean_def trimmed_def is_eol_def CR_def LF_def NUL_def ws_def)

lemma request_headers_nonempty: "filter (\<lambda>kv. snd kv \<noteq> []) (request_headers t n) = request_headers t n"
  by (simp add: request_headers_def)

lemma request_headers_sorted: "smap_ok (request_headers t n)"
  by (simp add: request_headers_def)

section \<open>Reading a message back\<close>

text \<open>A target: a path and an optional query.\<close>

definition target :: "string \<Rightarrow> string option \<Rightarrow> string" where
  "target p q = p @ (case q of None \<Rightarrow> [] | Some s \<Rightarrow> CHR ''?'' # s)"

definition query_of :: "string option \<Rightarrow> string \<Rightarrow> string" where
  "query_of q d = (case q of None \<Rightarrow> d | Some s \<Rightarrow> s)"

lemma store_uri_target:
  assumes "CHR ''?'' \<notin> set p" and "string_from_utf8 p = Inr p'"
  shows "store_uri (target p q) r = Inr (r\<lparr>uri := p', query := query_of q (query r)\<rparr>)"
proof (cases q)
  case None
  then have "find_chr (CHR ''?'') (target p q) = None" using assms(1) by (simp add: target_def find_chr_None)
  then show ?thesis using None assms(2) by (simp add: store_uri_def target_def query_of_def)
next
  case (Some s)
  then have "find_chr (CHR ''?'') (target p q) = Some (length p)" using assms(1) by (simp add: target_def)
  then show ?thesis using Some assms(2) by (simp add: store_uri_def target_def query_of_def)
qed

lemma type_name_parse: "parse_type (type_name t) = Some t" "CHR '' '' \<notin> set (type_name t)" "clean (type_name t)"
  "type_name t \<noteq> []"
  by (cases t; simp add: parse_type_def type_name_def clean_def is_eol_def CR_def LF_def NUL_def)+

lemma clean_append: "clean (a @ b) = (clean a \<and> clean b)" "clean (CHR '' '' # a) = clean a"
  by (auto simp: clean_def is_eol_def CR_def LF_def NUL_def)

lemma parse_request_firstline_version:
  assumes b: "buffer_ok b" "buffer_content b = type_name t @ '' '' @ target p q @ '' '' @ v @ [CR, LF] @ rest"
    and r: "kind r = REQUEST" "status r = READING_FIRSTLINE"
    and u: "clean (target p q)" "CHR '' '' \<notin> set (target p q)" "CHR ''?'' \<notin> set p" "string_from_utf8 p = Inr p'"
    and v: "clean v" "parse_protocol v = Some (mj, mn)"
  shows "\<exists>b1. parse e r b = parse_headers_loop e [] []
      (r\<lparr>type := Some t, uri := p', query := query_of q (query r), major := mj, minor := mn,
         status := READING_HEADERS\<rparr>) b1 \<and> buffer_ok b1 \<and> buffer_content b1 = rest"
proof -
  let ?l = "type_name t @ '' '' @ target p q @ '' '' @ v"
  have "clean ?l" using u(1) v(1) type_name_parse(3) [of t] by (simp add: clean_append)
  moreover have con: "buffer_content b = ?l @ [CR, LF] @ rest" using b(2) by simp
  ultimately obtain b1 where b1: "buffer_pop_line b = Inr (?l, b1)" "buffer_ok b1" "buffer_content b1 = rest"
    using pop_clean_line [OF b(1), of ?l rest] by blast
  have ne: "\<not> buffer_empty b" using b(1) con by (simp add: buffer_empty_content)
  have tw: "three_words ?l = Some (type_name t, target p q, v)"
    using type_name_parse(2) u(2) by (rule three_words_app)
  have "parse_request_line ?l r = Inr (0, set_protocol mj mn (r\<lparr>type := Some t, uri := p',
      query := query_of q (query r)\<rparr>))"
    unfolding parse_request_line_def tw using store_uri_target [OF u(3,4), of q "r\<lparr>type := Some t\<rparr>"]
    by (simp add: type_name_parse v(2))
  then have "parse e r b = parse_headers_loop e [] [] (set_protocol mj mn (r\<lparr>type := Some t, uri := p',
      query := query_of q (query r)\<rparr>)\<lparr>status := READING_HEADERS\<rparr>) b1"
    using ne b1(1) r by (simp add: parse_def parse_firstline_def parse_headers_def)
  then show ?thesis using b1(2,3) by (auto simp: set_protocol_def)
qed

lemma version_line: "clean ''HTTP/1.1''" "clean ''HTTP/1.0''" "parse_protocol ''HTTP/1.1'' = Some (1, 1)"
  "parse_protocol ''HTTP/1.0'' = Some (1, 0)"
  by (simp_all add: clean_def is_eol_def CR_def LF_def NUL_def parse_protocol_def)

lemma parse_request_firstline:
  assumes b: "buffer_ok b" "buffer_content b = type_name t @ '' '' @ target p q @ '' HTTP/1.1'' @ [CR, LF] @ rest"
    and r: "kind r = REQUEST" "status r = READING_FIRSTLINE"
    and u: "clean (target p q)" "CHR '' '' \<notin> set (target p q)" "CHR ''?'' \<notin> set p" "string_from_utf8 p = Inr p'"
  shows "\<exists>b1. parse e r b = parse_headers_loop e [] []
      (r\<lparr>type := Some t, uri := p', query := query_of q (query r), major := 1, minor := 1,
         status := READING_HEADERS\<rparr>) b1 \<and> buffer_ok b1 \<and> buffer_content b1 = rest"
  by (rule parse_request_firstline_version [OF b(1) _ r u version_line(1,3)]) (use b(2) in simp)

lemma fold_set_header: "fold (\<lambda>(j, w). set_header j w) hs r = r\<lparr>headers := fold (\<lambda>(j, w). smap_set j w) hs (headers r)\<rparr>"
  by (induction hs arbitrary: r) (auto simp: set_header_def)

lemma parse_header_map:
  assumes "buffer_ok b" and "list_all clean_header h" and "smap_ok h" and "headers r = []"
    and "buffer_content b = concat (map header_line h) @ [CR, LF] @ rest"
  shows "\<exists>b'. parse_headers_loop e k v r b = headers_end e (r\<lparr>headers := h\<rparr>) b'
    \<and> buffer_ok b' \<and> buffer_content b' = rest"
  using parse_header_block [OF assms(1) _ assms(5), of e k v r] assms(2-4) smap_set_all [of "[]" h]
  by (simp add: fold_set_header list_all_iff)

lemma request_header_values:
  "headers r = request_headers POST n \<Longrightarrow> header_value ''Content-Length'' r = to_string (int n)"
  "headers r = request_headers t n \<Longrightarrow> header_value ''Transfer-Encoding'' r = []"
  by (simp_all add: header_value_def request_headers_def)

lemma nat_str_length: "2 \<le> b \<Longrightarrow> n < b ^ Suc k \<Longrightarrow> length (nat_str b n) \<le> Suc k"
proof (induction k arbitrary: n)
  case 0
  then show ?case by (simp add: nat_str.simps)
next
  case (Suc k)
  have "n div b < b ^ Suc k" using Suc.prems by (simp add: less_mult_imp_div_less mult.commute)
  with Suc.IH [OF Suc.prems(1)] show ?case by (subst nat_str.simps) simp
qed

lemma to_string_length: "n < 10000000000 \<Longrightarrow> length (to_string (int n)) \<le> 10"
  using nat_str_length [of 10 n 9] by (simp add: to_string_def)

lemma request_wire_length:
  assumes "n < 10000000000"
  shows "length (concat (map header_line (request_headers t n))) \<le> 68"
  using to_string_length [OF assms] by (simp add: request_headers_def header_line_def)

definition parsed_request :: "request_type_t \<Rightarrow> string \<Rightarrow> string \<Rightarrow> request \<Rightarrow> bool" where
  "parsed_request t u q r =
     (type r = Some t \<and> uri r = u \<and> query r = q \<and> major r = 1 \<and> minor r = 1
      \<and> get_header ''Content-Type'' r = Inr ''text/html; charset=utf-8'' \<and> get_header ''Connection'' r = Inr [])"

lemma content_type_value:
  "headers r = request_headers t n \<Longrightarrow>
   header_value ''Content-Type'' r = ''text/html; charset=utf-8'' \<and> header_value ''Connection'' r = []"
  by (simp add: header_value_def request_headers_def)

lemma parse_request_body:
  fixes r :: request
  assumes r: "kind r = REQUEST" "type r = Some POST" "status r = READING_HEADERS" "\<not> chunked r"
      "headers r = request_headers POST (length d)" "buffer_ok (body_buf r)" "buffer_ok b" "buffer_content b = d @ rest"
    and room: "buffer_used (body_buf r) + int (length (d @ rest)) \<le> 1073741824"
    and frame: "uri r = u" "query r = q" "major r = 1" "minor r = 1"
  shows "\<exists>r' b'. headers_end (granting f) r b = Inr (ALLREAD, r', b') \<and> parsed_request POST u q r'
    \<and> body r' = body r @ d \<and> buffer_content b' = rest"
proof -
  have n: "int (length d) \<le> INT_MAX" using room bufq.used_content [OF r(6)] by (simp add: INT_MAX_def)
  let ?q = "r\<lparr>status := READING_BODY\<rparr>"
  have e: "headers_end (granting f) r b = parse_body (granting f) ?q b"
    using r by (simp add: headers_end_def no_body_def read_member_def)
  have hv: "header_value ''Content-Length'' ?q = to_string (int (length d))"
    "header_value ''Transfer-Encoding'' ?q \<noteq> ''chunked''" using r by (simp_all add: request_header_values)
  from parse_body_known_length [of ?q b "int (length d)" f] r room n hv obtain h bb b' where
    "parse_body (granting f) ?q b = Inr (ALLREAD, ?q\<lparr>headers := h, ntoread := int (length d), body_buf := bb\<rparr>, b')"
    "\<forall>j. header_value j (?q\<lparr>headers := h\<rparr>) = header_value j ?q"
    "buffer_content bb = body r @ d" "buffer_content b' = rest" by auto
  with e frame content_type_value [OF r(5)] r(2) show ?thesis
    by (auto simp: parsed_request_def get_header_value)
qed

lemma parse_request_message:
  fixes p p' d rest :: string
  assumes b: "buffer_ok b" "buffer_content b = type_name t @ '' '' @ target p q @ '' HTTP/1.1'' @ [CR, LF]
        @ concat (map header_line (request_headers t (length d))) @ [CR, LF] @ d @ rest"
      "length (buffer_content b) \<le> 1073741824"
    and u: "clean (target p q)" "CHR '' '' \<notin> set (target p q)" "CHR ''?'' \<notin> set p" "string_from_utf8 p = Inr p'"
    and b0: "buffer_ok b0" "buffer_content b0 = []" "buffer_used b0 = 0"
  shows "\<exists>r' b'. parse (granting f) (fresh_request b0\<lparr>kind := REQUEST\<rparr>) b = Inr (ALLREAD, r', b')
    \<and> parsed_request t p' (query_of q []) r'
    \<and> (if t = POST then body r' = d \<and> buffer_content b' = rest else body r' = [] \<and> buffer_content b' = d @ rest)"
proof -
  let ?h = "request_headers t (length d)"
  let ?fr = "fresh_request b0\<lparr>kind := REQUEST\<rparr>"
  let ?hr = "?fr\<lparr>type := Some t, uri := p', query := query_of q [], major := 1, minor := 1, status := READING_HEADERS\<rparr>"
  from parse_request_firstline [OF b(1,2) _ _ u, where r = ?fr and e = "granting f"]
  obtain b1 where b1: "parse (granting f) ?fr b = parse_headers_loop (granting f) [] [] ?hr b1"
    "buffer_ok b1" "buffer_content b1 = concat (map header_line ?h) @ [CR, LF] @ d @ rest" by auto
  from parse_header_map [OF b1(2) request_headers_clean request_headers_sorted _ b1(3), where r = ?hr and e = "granting f" and k = "[]" and v = "[]"]
  obtain b2 where b2: "parse (granting f) ?fr b = headers_end (granting f) (?hr\<lparr>headers := ?h\<rparr>) b2"
    "buffer_ok b2" "buffer_content b2 = d @ rest" using b1(1) by auto
  show ?thesis
  proof (cases "t = POST")
    case True
    have "int (length (d @ rest)) \<le> 1073741824" using b(2,3) by simp
    moreover have "body (?hr\<lparr>headers := ?h\<rparr>) = []" using b0(2) by (simp add: body_def)
    ultimately show ?thesis
      using parse_request_body [of "?hr\<lparr>headers := ?h\<rparr>" d b2 rest p' "query_of q []" f] True b2 b0 by simp
  next
    case False
    have "headers_end (granting f) (?hr\<lparr>headers := ?h\<rparr>) b2 = Inr (ALLREAD, ?hr\<lparr>headers := ?h\<rparr>, b2)"
      using False by (simp add: headers_end_def no_body_def read_member_def)
    moreover have "parsed_request t p' (query_of q []) (?hr\<lparr>headers := ?h\<rparr>)"
      using content_type_value [of "?hr\<lparr>headers := ?h\<rparr>"] by (simp add: parsed_request_def get_header_value)
    ultimately show ?thesis using False b2 b0(2) by (simp add: body_def)
  qed
qed

section \<open>Responses\<close>

definition response_hdrs :: "string \<Rightarrow> nat \<Rightarrow> (string, string) smap" where
  "response_hdrs date n =
     [(''Connection'', ''keep-alive''), (''Content-Length'', to_string (int n))]
     @ (if 0 < n then [(''Content-Type'', ''text/html; charset=utf-8'')] else []) @ [(''Date'', date)]"

lemma response_headers_eq:
  assumes "major r = 1" and "minor r = 1" and "buffer_length (body_buf r) = n"
  shows "response_headers date r = r\<lparr>headers := response_hdrs date n\<rparr>"
  using assms
  by (simp add: response_headers_def header_index_def smap_index_def set_header_def response_hdrs_def Let_def)

lemma set_response_ok:
  fixes r :: request
  assumes ok: "buffer_ok (body_buf r)" "buffer_ok c"
    and room: "buffer_used (body_buf r) + int (length (buffer_content c)) \<le> 1073741824"
    and v: "major r = 1" "minor r = 1"
  shows "\<exists>bb c'. set_response (granting f) date code reason (Some c) r =
      Inr (r\<lparr>kind := RESPONSE, response_code := Some code, response_line := reason, body_buf := bb,
             firstline := ''HTTP/1.1 '' @ to_string code @ '' '' @ reason @ [CR, LF],
             headers := response_hdrs date (length (body r @ buffer_content c))\<rparr>, Some c')
    \<and> buffer_ok bb \<and> buffer_content bb = body r @ buffer_content c \<and> buffer_ok c' \<and> buffer_content c' = []"
proof -
  let ?q = "r\<lparr>kind := RESPONSE, response_code := Some code, response_line := reason\<rparr>"
  have mv: "moved (-1) (length (buffer_content c)) = length (buffer_content c)" by (simp add: moved_def)
  then have "buffer_fits (moved (-1) (length (buffer_content c))) (body_buf ?q)" using room by (simp add: buffer_fits_def)
  from take_body_granting [OF _ ok(2) this, of f] ok(1) mv obtain bb c' where
    t: "take_body (granting f) (-1) ?q c = Inr (?q\<lparr>body_buf := bb\<rparr>, c')" "buffer_ok bb" "buffer_ok c'"
      "buffer_content bb = body r @ buffer_content c" "buffer_content c' = []" by (auto simp: body_def)
  have len: "buffer_length bb = length (body r @ buffer_content c)" using t(2,4) by (simp add: buffer_length_content)
  have "set_response (granting f) date code reason (Some c) r =
      Inr (r\<lparr>kind := RESPONSE, response_code := Some code, response_line := reason, body_buf := bb,
             firstline := ''HTTP/1.1 '' @ to_string code @ '' '' @ reason @ [CR, LF],
             headers := response_hdrs date (length (body r @ buffer_content c))\<rparr>, Some c')"
    unfolding set_response_def Let_def option.case t(1) bind_res.simps prod.case
    using v len by (simp add: response_headers_eq)
  with t show ?thesis by blast
qed

lemma response_hdrs_clean:
  "clean date \<Longrightarrow> trimmed date \<Longrightarrow> list_all clean_header (response_hdrs date n)"
  using to_string_plain [of "int n"]
  by (auto simp: response_hdrs_def clean_header_def clean_def trimmed_def is_eol_def CR_def LF_def NUL_def ws_def)

lemma response_hdrs_facts:
  "date \<noteq> [] \<Longrightarrow> filter (\<lambda>kv. snd kv \<noteq> []) (response_hdrs date n) = response_hdrs date n"
  "smap_ok (response_hdrs date n)"
  "n < 10000000000 \<Longrightarrow> length (concat (map header_line (response_hdrs date n))) \<le> 102 + length date"
  using to_string_length [of n] by (auto simp: response_hdrs_def header_line_def)

lemma response_hdrs_values:
  "headers r = response_hdrs date n \<Longrightarrow> header_value ''Content-Length'' r = to_string (int n)"
  "headers r = response_hdrs date n \<Longrightarrow> header_value ''Transfer-Encoding'' r = []"
  "headers r = response_hdrs date n \<Longrightarrow> header_value ''Date'' r = date"
  "headers r = response_hdrs date n \<Longrightarrow> header_value ''Connection'' r = ''keep-alive''"
  by (simp_all add: header_value_def response_hdrs_def)

lemma stoi_to_string: "0 \<le> n \<Longrightarrow> n \<le> INT_MAX \<Longrightarrow> stoi (to_string n) = Inr n"
  using stol_to_string [of n] by (simp add: stoi_def INT_MAX_def INT_MIN_def LONG_MAX_def)

lemma parse_response_firstline:
  assumes b: "buffer_ok b" "buffer_content b = ''HTTP/1.1 '' @ to_string code @ '' '' @ reason @ [CR, LF] @ rest"
    and r: "kind r = RESPONSE" "status r = READING_FIRSTLINE"
    and c: "0 \<le> code" "code \<le> INT_MAX" "clean reason"
  shows "\<exists>b1. parse e r b = parse_headers_loop e [] []
      (r\<lparr>major := 1, minor := 1, response_code := Some code, response_line := reason, status := READING_HEADERS\<rparr>) b1
    \<and> buffer_ok b1 \<and> buffer_content b1 = rest"
proof -
  let ?l = "''HTTP/1.1'' @ '' '' @ to_string code @ '' '' @ reason"
  have "clean ?l" using c to_string_plain [of code] by (auto simp: clean_def is_eol_def CR_def LF_def NUL_def)
  moreover have con: "buffer_content b = ?l @ [CR, LF] @ rest" using b(2) by simp
  ultimately obtain b1 where b1: "buffer_pop_line b = Inr (?l, b1)" "buffer_ok b1" "buffer_content b1 = rest"
    using pop_clean_line [OF b(1), of ?l rest] by blast
  have ne: "\<not> buffer_empty b" using b(1) con by (simp add: buffer_empty_content)
  have tw: "three_words ?l = Some (''HTTP/1.1'', to_string code, reason)"
    by (rule three_words_app) (use to_string_plain c(1) in auto)
  have "parse_response_line ?l r = Inr (0, r\<lparr>major := 1, minor := 1, response_code := Some code, response_line := reason\<rparr>)"
    unfolding parse_response_line_def tw using stoi_to_string [OF c(1,2)] by (simp add: parse_protocol_def set_protocol_def)
  then show ?thesis using ne b1 r by (auto simp: parse_def parse_firstline_def parse_headers_def)
qed

definition parsed_response :: "int \<Rightarrow> string \<Rightarrow> string \<Rightarrow> request \<Rightarrow> bool" where
  "parsed_response code reason date r =
     (response_code r = Some code \<and> response_line r = reason \<and> major r = 1 \<and> minor r = 1
      \<and> get_header ''Date'' r = Inr date \<and> get_header ''Connection'' r = Inr ''keep-alive'')"

definition has_body :: "int \<Rightarrow> bool" where
  "has_body code = (200 \<le> code \<and> code \<le> 511 \<and> code \<noteq> HTTP_NOCONTENT \<and> code \<noteq> HTTP_NOTMODIFIED)"

lemma parse_response_message:
  fixes d rest :: string
  assumes b: "buffer_ok b" "buffer_content b = ''HTTP/1.1 '' @ to_string code @ '' '' @ reason @ [CR, LF]
        @ concat (map header_line (response_hdrs date (length d))) @ [CR, LF] @ d @ rest"
      "length (buffer_content b) \<le> 1073741824"
    and c: "has_body code" "clean reason" "clean date" "trimmed date"
    and b0: "buffer_ok b0" "buffer_content b0 = []" "buffer_used b0 = 0"
  shows "\<exists>r' b'. parse (granting f) (fresh_request b0) b = Inr (ALLREAD, r', b')
    \<and> parsed_response code reason date r' \<and> body r' = d \<and> buffer_content b' = rest"
proof -
  let ?h = "response_hdrs date (length d)" and ?fr = "fresh_request b0"
  let ?hr = "?fr\<lparr>major := 1, minor := 1, response_code := Some code, response_line := reason, status := READING_HEADERS\<rparr>"
  have k: "kind ?fr = RESPONSE" by (simp add: fresh_request_def)
  have cd: "0 \<le> code" "code \<le> INT_MAX" using c(1) by (auto simp: has_body_def INT_MAX_def)
  from parse_response_firstline [OF b(1,2) k _ cd c(2), where e = "granting f"]
  obtain b1 where b1: "parse (granting f) ?fr b = parse_headers_loop (granting f) [] [] ?hr b1"
    "buffer_ok b1" "buffer_content b1 = concat (map header_line ?h) @ [CR, LF] @ d @ rest" by auto
  from parse_header_map [OF b1(2) response_hdrs_clean [OF c(3,4)] response_hdrs_facts(2) _ b1(3), where r = ?hr and e = "granting f" and k = "[]" and v = "[]"]
  obtain b2 where b2: "parse (granting f) ?fr b = headers_end (granting f) (?hr\<lparr>headers := ?h\<rparr>) b2"
    "buffer_ok b2" "buffer_content b2 = d @ rest" using b1(1) by auto
  let ?q = "?hr\<lparr>headers := ?h, status := READING_BODY\<rparr>"
  have e: "headers_end (granting f) (?hr\<lparr>headers := ?h\<rparr>) b2 = parse_body (granting f) ?q b2"
    using c(1) k by (auto simp: headers_end_def no_body_def read_member_def has_body_def)
  have room: "int (length (d @ rest)) \<le> 1073741824" using b(2,3) by simp
  have n: "int (length d) \<le> INT_MAX" using room by (simp add: INT_MAX_def)
  have hv: "header_value ''Content-Length'' ?q = to_string (int (length d))"
    "header_value ''Transfer-Encoding'' ?q \<noteq> ''chunked''" "header_value ''Date'' ?q = date"
    "header_value ''Connection'' ?q = ''keep-alive''" by (simp_all add: response_hdrs_values)
  have bq: "body ?q = []" using b0(2) by (simp add: body_def)
  from parse_body_known_length [of ?q b2 "int (length d)" f] room n hv b0 b2 bq obtain h bb b' where
    "parse_body (granting f) ?q b2 = Inr (ALLREAD, ?q\<lparr>headers := h, ntoread := int (length d), body_buf := bb\<rparr>, b')"
    "\<forall>j. header_value j (?q\<lparr>headers := h\<rparr>) = header_value j ?q"
    "buffer_content bb = d" "buffer_content b' = rest" by auto
  with e b2(1) hv show ?thesis by (auto simp: parsed_response_def get_header_value)
qed

section \<open>Properties\<close>

text \<open>C11. A request that \<open>set_request\<close> builds and \<open>send_to\<close> writes is read back by \<open>parse\<close> in
  one call: same method, the decoded path, the query, version 1.1 and the headers. The body of a
  POST arrives byte for byte and the input is used up; a body given to a GET or HEAD is sent
  without a length and stays in the input.\<close>

theorem request_roundtrip:
  fixes c b :: buffer and p p' :: string and q :: "string option"
  assumes ok: "buffer_ok c" "buffer_ok b" "buffer_content b = []"
    and u: "clean (target p q)" "CHR '' '' \<notin> set (target p q)" "CHR ''?'' \<notin> set p" "string_from_utf8 p = Inr p'"
    and room: "buffer_used b + int (length (target p q) + length (buffer_content c)) + 100 \<le> 1073741824"
  shows "\<exists>r0 r c' r' b' r2 b2. request_new (granting f) = Inr r0
    \<and> set_request (granting f) t (target p q) (Some c) r0 = Inr (r, c')
    \<and> send_to (granting f) r b = Inr (r', b')
    \<and> parse (granting f) (r0\<lparr>kind := REQUEST\<rparr>) b' = Inr (ALLREAD, r2, b2)
    \<and> parsed_request t p' (query_of q []) r2
    \<and> (if t = POST then body r2 = buffer_content c \<and> buffer_content b2 = []
       else body r2 = [] \<and> buffer_content b2 = buffer_content c)"
proof -
  from request_new_fresh [of f] obtain b0 where b0: "request_new (granting f) = Inr (fresh_request b0)"
    "buffer_ok b0" "buffer_content b0 = []" "buffer_used b0 = 0" by blast
  let ?fr = "fresh_request b0" and ?n = "length (buffer_content c)"
  let ?h = "request_headers t ?n"
  have used: "0 \<le> buffer_used b" using ok(2) by (auto simp: buffer_ok_def buffer_used_def)
  from room used b0 have fit: "buffer_used (body_buf ?fr) + int ?n \<le> 1073741824" by simp
  from set_request_ok [OF _ ok(1) fit, of f t "target p q"] b0 obtain bb c' where
    sr: "set_request (granting f) t (target p q) (Some c) ?fr = Inr (?fr\<lparr>type := Some t, uri := target p q, body_buf := bb,
      headers := ?h, firstline := type_name t @ '' '' @ target p q @ '' HTTP/1.1'' @ [CR, LF]\<rparr>, Some c')" (is "_ = Inr (?sr, _)")
    and bb: "buffer_ok bb" "buffer_content bb = buffer_content c" by auto
  have wire: "wire ?sr = type_name t @ '' '' @ target p q @ '' HTTP/1.1'' @ [CR, LF] @ concat (map header_line ?h)
      @ [CR, LF] @ buffer_content c @ []"
    using bb(2) by (simp add: wire_def body_def header_lines_def request_headers_nonempty)
  have "length (type_name t) \<le> 4" by (cases t) (simp_all add: type_name_def)
  moreover have "?n < 10000000000" using room used by linarith
  ultimately have len: "buffer_used b + int (length (wire ?sr)) \<le> 1073741824"
    using room request_wire_length [of ?n t] unfolding wire by simp
  from send_to_ok [OF ok(2) _ this, of f] bb obtain bb' b' where
    st: "send_to (granting f) ?sr b = Inr (?sr\<lparr>body_buf := bb'\<rparr>, b')" "buffer_ok b'" "buffer_content b' = wire ?sr"
    using ok(3) by auto
  have "length (buffer_content b') \<le> 1073741824" using len used st(3) by simp
  from parse_request_message [OF st(2) st(3) [unfolded wire] this u b0(2-4)] b0(1) sr st(1)
  show ?thesis by fastforce
qed

theorem request_roundtrip_witness:
  "\<exists>r0 r c' r' b' r2 b2. request_new (granting (\<lambda>_. NUL)) = Inr r0
    \<and> set_request (granting (\<lambda>_. NUL)) POST (target ''/a%20b'' (Some ''x=1'')) (Some (mkbuf [] ''hello'' [])) r0 = Inr (r, c')
    \<and> send_to (granting (\<lambda>_. NUL)) r (mkbuf [] [] []) = Inr (r', b')
    \<and> parse (granting (\<lambda>_. NUL)) (r0\<lparr>kind := REQUEST\<rparr>) b' = Inr (ALLREAD, r2, b2)
    \<and> parsed_request POST ''/a b'' ''x=1'' r2 \<and> body r2 = ''hello'' \<and> buffer_content b2 = []"
proof -
  have "string_from_utf8 ''/a%20b'' = Inr ''/a b''" unfolding decode_pct by code_simp
  then show ?thesis
    using request_roundtrip [of "mkbuf [] ''hello'' []" "mkbuf [] [] []" "''/a%20b''" "Some ''x=1''" "''/a b''"
        "\<lambda>_. NUL" POST]
    by (simp add: target_def query_of_def clean_def is_eol_def CR_def LF_def NUL_def INT_MAX_def buffer_used_def)
qed

text \<open>A response that \<open>set_response\<close> builds with a body and \<open>send_to\<close> writes is read back by
  \<open>parse\<close> in one call, for every status code that carries a body: the code, the reason, the
  headers, and the body byte for byte, with the input used up.\<close>

theorem response_roundtrip:
  fixes c b :: buffer and reason date :: string
  assumes ok: "buffer_ok c" "buffer_ok b" "buffer_content b = []"
    and cd: "has_body code" "clean reason" "clean date" "trimmed date" "date \<noteq> []"
    and room: "buffer_used b + int (length reason + length date + length (buffer_content c)) + 200 \<le> 1073741824"
  shows "\<exists>r0 r c' r' b' r2 b2. request_new (granting f) = Inr r0
    \<and> set_response (granting f) date code reason (Some c) r0 = Inr (r, c')
    \<and> send_to (granting f) r b = Inr (r', b')
    \<and> parse (granting f) r0 b' = Inr (ALLREAD, r2, b2)
    \<and> parsed_response code reason date r2 \<and> body r2 = buffer_content c \<and> buffer_content b2 = []"
proof -
  from request_new_fresh [of f] obtain b0 where b0: "request_new (granting f) = Inr (fresh_request b0)"
    "buffer_ok b0" "buffer_content b0 = []" "buffer_used b0 = 0" by blast
  let ?fr = "fresh_request b0" and ?n = "length (buffer_content c)"
  let ?h = "response_hdrs date ?n"
  have used: "0 \<le> buffer_used b" using ok(2) by (auto simp: buffer_ok_def buffer_used_def)
  from room used b0 have fit: "buffer_used (body_buf ?fr) + int ?n \<le> 1073741824" by simp
  from set_response_ok [OF _ ok(1) fit, of f date code reason] b0 obtain bb c' where
    sr: "set_response (granting f) date code reason (Some c) ?fr =
      Inr (?fr\<lparr>kind := RESPONSE, response_code := Some code, response_line := reason, body_buf := bb,
             firstline := ''HTTP/1.1 '' @ to_string code @ '' '' @ reason @ [CR, LF], headers := ?h\<rparr>, Some c')" (is "_ = Inr (?sr, _)")
    and bb: "buffer_ok bb" "buffer_content bb = buffer_content c" by auto
  have wire: "wire ?sr = ''HTTP/1.1 '' @ to_string code @ '' '' @ reason @ [CR, LF] @ concat (map header_line ?h)
      @ [CR, LF] @ buffer_content c @ []"
    using bb(2) by (simp add: wire_def body_def header_lines_def response_hdrs_facts(1) [OF cd(5)])
  have "0 \<le> code" "nat code < 10000000000" using cd(1) unfolding has_body_def by linarith+
  then have "length (to_string code) \<le> 10" using to_string_length [of "nat code"] by simp
  moreover have "?n < 10000000000" using room used by linarith
  ultimately have len: "buffer_used b + int (length (wire ?sr)) \<le> 1073741824"
    using room response_hdrs_facts(3) [of ?n date] unfolding wire by simp
  from send_to_ok [OF ok(2) _ this, of f] bb obtain bb' b' where
    st: "send_to (granting f) ?sr b = Inr (?sr\<lparr>body_buf := bb'\<rparr>, b')" "buffer_ok b'" "buffer_content b' = wire ?sr"
    using ok(3) by auto
  have "length (buffer_content b') \<le> 1073741824" using len used st(3) by simp
  from parse_response_message [OF st(2) st(3) [unfolded wire] this cd(1-4) b0(2-4)] b0(1) sr st(1)
  show ?thesis by fastforce
qed

theorem response_roundtrip_witness:
  "\<exists>r0 r c' r' b' r2 b2. request_new (granting (\<lambda>_. NUL)) = Inr r0
    \<and> set_response (granting (\<lambda>_. NUL)) ''Thu, 01 Jan 1970 00:00:00 GMT'' 200 ''OK'' (Some (mkbuf [] ''hello'' [])) r0 = Inr (r, c')
    \<and> send_to (granting (\<lambda>_. NUL)) r (mkbuf [] [] []) = Inr (r', b')
    \<and> parse (granting (\<lambda>_. NUL)) r0 b' = Inr (ALLREAD, r2, b2)
    \<and> parsed_response 200 ''OK'' ''Thu, 01 Jan 1970 00:00:00 GMT'' r2 \<and> body r2 = ''hello'' \<and> buffer_content b2 = []"
  using response_roundtrip [of "mkbuf [] ''hello'' []" "mkbuf [] [] []" 200 "''OK''" "''Thu, 01 Jan 1970 00:00:00 GMT''"
      "\<lambda>_. NUL"]
  by (simp add: has_body_def clean_def trimmed_def ws_def is_eol_def CR_def LF_def NUL_def INT_MAX_def buffer_used_def)

end
