(* ===== verification/Libio_Http_Stream.thy ===== *)
theory Libio_Http_Stream
  imports Libio_Http_Message
begin

text \<open>
  The parser of \<open>src/http/request.cc\<close> on a stream: chunked bodies, bodies of known length that
  arrive in pieces, and input that ends in the middle of a line. The line reader answers with
  the empty string both for an empty line and for a line that has not arrived in full, and the
  parser takes the second for the first; several theorems here pin down what that does.
\<close>

section \<open>Chunked bodies\<close>

text \<open>A chunk as \<open>http_connection::send_chunk\<close> writes it.\<close>

definition chunk_enc :: "string \<Rightarrow> string" where
  "chunk_enc d = to_hex (length d) @ [CR, LF] @ d @ [CR, LF]"

lemma to_hex_clean: "clean (to_hex n)"
proof -
  have "\<not> is_eol (digit_char d) \<and> digit_char d \<noteq> NUL" if "d < 16" for d
  proof -
    have "of_char (digit_char d) = (if d < 10 then 48 + d else 87 + d)" using that by (simp add: digit_char_def)
    then show ?thesis by (auto simp: is_eol_def CR_def LF_def NUL_def split: if_splits)
  qed
  moreover have "\<forall>c \<in> set (nat_str 16 n). \<exists>d < 16. c = digit_char d" by (rule nat_str_digits) simp
  ultimately show ?thesis unfolding clean_def to_hex_def by metis
qed

lemma stol16_to_hex: "n \<le> 1073741824 \<Longrightarrow> stol16 (to_hex n) = Inr (int n)"
  using strtol_nat_str [of 16 n] by (simp add: to_hex_def LONG_MAX_def)

lemma parse_chunk_step:
  assumes ok: "buffer_ok (body_buf r)" "buffer_ok b" and n: "ntoread r < 0" and d: "d \<noteq> []"
    and con: "buffer_content b = chunk_enc d @ rest"
    and room: "buffer_used (body_buf r) + int (length (buffer_content b)) \<le> 1073741824"
  shows "\<exists>bb b'. parse_chunks (granting f) r b = parse_chunks (granting f) (r\<lparr>body_buf := bb, ntoread := -1\<rparr>) b'
    \<and> buffer_ok bb \<and> buffer_ok b' \<and> buffer_content bb = body r @ d @ [CR, LF] \<and> buffer_content b' = rest
    \<and> buffer_used bb + int (length rest) \<le> 1073741824"
proof -
  have used: "0 \<le> buffer_used (body_buf r)" using bufq.used_content [OF ok(1)] by simp
  have len: "length d \<le> 1073741824" "length d + 2 \<le> 1073741824" using room used con by (simp_all add: chunk_enc_def)
  have con': "buffer_content b = to_hex (length d) @ [CR, LF] @ (d @ [CR, LF] @ rest)"
    using con by (simp add: chunk_enc_def)
  from pop_clean_line [OF ok(2) con' to_hex_clean] obtain b1 where
    b1: "buffer_pop_line b = Inr (to_hex (length d), b1)" "buffer_ok b1" "buffer_content b1 = d @ [CR, LF] @ rest" by blast
  let ?r1 = "r\<lparr>ntoread := int (length d)\<rparr>"
  have "\<not> buffer_empty b" "to_hex (length d) \<noteq> []" using con ok(2) by (simp_all add: buffer_empty_content chunk_enc_def to_hex_def)
  then have e1: "parse_chunks (granting f) r b = parse_chunks (granting f) ?r1 b1"
    unfolding parse_chunks.simps [of "granting f" r b] b1(1) using n d stol16_to_hex [OF len(1)] by simp
  let ?k = "length d + 2"
  have mv: "moved (int ?k) (length (buffer_content b1)) = ?k" using b1(3) by (simp add: moved_def)
  have "int (length d) + int (length rest) + 2 + buffer_used (body_buf r) \<le> 1073741824" using room con by (simp add: chunk_enc_def)
  then have fit: "buffer_fits (moved (int ?k) (length (buffer_content b1))) (body_buf ?r1)" unfolding mv by (simp add: buffer_fits_def)
  from take_body_ok [OF _ b1(2) fit, of "granting f"] ok(1) obtain bb b2 where
    t: "take_body (granting f) (int ?k) ?r1 b1 = Inr (?r1\<lparr>body_buf := bb\<rparr>, b2)" "buffer_ok bb" "buffer_ok b2"
    "buffer_content bb = body r @ d @ [CR, LF]" "buffer_content b2 = rest" "buffer_used bb \<le> buffer_used (body_buf r) + int ?k"
    unfolding mv using b1(3) by auto
  have ti: "to_int (int (length d) + 2) = int ?k" "to_int (int (buffer_length b1)) = int (length (buffer_content b1))"
    using len room used con b1 by (simp_all add: buffer_length_content INT_MIN_def INT_MAX_def chunk_enc_def)
  have "\<not> buffer_empty b1" using b1(2,3) by (simp add: buffer_empty_content)
  then have "parse_chunks (granting f) ?r1 b1 = parse_chunks (granting f) (r\<lparr>body_buf := bb, ntoread := -1\<rparr>) b2"
    unfolding parse_chunks.simps [of "granting f" ?r1 b1] using ti t(1) b1(3) by simp
  with e1 t room con show ?thesis by (intro exI [of _ bb] exI [of _ b2]) (simp add: chunk_enc_def)
qed

text \<open>The last chunk and the empty trailer.\<close>

lemma parse_last_chunk:
  assumes ok: "buffer_ok b" and n: "ntoread r < 0" and con: "buffer_content b = ''0'' @ [CR, LF] @ [CR, LF] @ rest"
    and nb: "no_body (r\<lparr>ntoread := 0, status := READING_TRAILER\<rparr>) = Inr x"
  shows "\<exists>b'. parse_chunks e r b = Inr (ALLREAD, r\<lparr>ntoread := 0, status := READING_TRAILER\<rparr>, b') \<and> buffer_content b' = rest"
proof -
  have "clean ''0''" by (simp add: clean_def is_eol_def CR_def LF_def NUL_def)
  from pop_clean_line [OF ok con this] obtain b1 where
    b1: "buffer_pop_line b = Inr (''0'', b1)" "buffer_ok b1" "buffer_content b1 = [CR, LF] @ rest" by blast
  have "stol16 ''0'' = Inr 0" by code_simp
  moreover have "\<not> buffer_empty b" using con ok by (simp add: buffer_empty_content)
  ultimately have "parse_chunks e r b = parse_headers_loop e [] [] (r\<lparr>ntoread := 0, status := READING_TRAILER\<rparr>) b1"
    unfolding parse_chunks.simps [of e r b] b1(1) using n by simp
  with parse_headers_end [OF b1(2,3), of e "[]" "[]" "r\<lparr>ntoread := 0, status := READING_TRAILER\<rparr>"] nb show ?thesis
    by (auto simp: headers_end_def)
qed

lemma no_body_frame: "no_body (r\<lparr>body_buf := bb, ntoread := n\<rparr>) = no_body r" "no_body (r\<lparr>ntoread := n, status := st\<rparr>) = no_body r"
  by (simp_all add: no_body_def split: request_kind_t.split)

lemma parse_chunk_list:
  assumes "buffer_ok (body_buf r)" and "buffer_ok b" and "ntoread r < 0" and "[] \<notin> set ds"
    and "buffer_content b = concat (map chunk_enc ds) @ ''0'' @ [CR, LF] @ [CR, LF] @ rest"
    and "buffer_used (body_buf r) + int (length (buffer_content b)) \<le> 1073741824"
    and "no_body r = Inr x"
  shows "\<exists>r' b'. parse_chunks (granting f) r b = Inr (ALLREAD, r', b')
    \<and> body r' = body r @ concat (map (\<lambda>d. d @ [CR, LF]) ds) \<and> buffer_content b' = rest"
  using assms
proof (induction ds arbitrary: r b)
  case Nil
  with parse_last_chunk [of b r rest x "granting f"] show ?case by (auto simp: no_body_frame)
next
  case (Cons d ds)
  from parse_chunk_step [OF Cons.prems(1-3), of d _ f] Cons.prems(4-6) obtain bb b1 where
    s: "parse_chunks (granting f) r b = parse_chunks (granting f) (r\<lparr>body_buf := bb, ntoread := -1\<rparr>) b1"
      "buffer_ok bb" "buffer_ok b1" "buffer_content bb = body r @ d @ [CR, LF]"
      "buffer_content b1 = concat (map chunk_enc ds) @ ''0'' @ [CR, LF] @ [CR, LF] @ rest"
      "buffer_used bb + int (length (buffer_content b1)) \<le> 1073741824" by auto
  from Cons.IH [of "r\<lparr>body_buf := bb, ntoread := -1\<rparr>" b1] s Cons.prems(4,7) show ?case
    by (auto simp: no_body_frame)
qed

section \<open>Properties\<close>

text \<open>C26. A chunked body in the form \<open>send_chunk\<close>/\<open>send_chunk_end\<close> write is read to its end in one
  call, however many chunks it has, and the bytes behind it stay in the input. The body that
  is collected is not the data that was sent: the line break behind every chunk is part of it.\<close>

theorem parse_chunked_body:
  assumes ok: "request_ok r" "buffer_ok b" "status r = READING_BODY"
    and te: "get_header ''Transfer-Encoding'' r = Inr ''chunked''" and ds: "[] \<notin> set ds"
    and con: "buffer_content b = concat (map chunk_enc ds) @ ''0'' @ [CR, LF] @ [CR, LF] @ rest"
    and room: "buffer_used (body_buf r) + int (length (buffer_content b)) \<le> 1073741824"
  shows "\<exists>r' b'. parse (granting f) r b = Inr (ALLREAD, r', b')
    \<and> body r' = body r @ concat (map (\<lambda>d. d @ [CR, LF]) ds) \<and> buffer_content b' = rest"
proof -
  from header_index_value [of "''Transfer-Encoding''" r] te obtain h where
    h: "header_index ''Transfer-Encoding'' r = (''chunked'', r\<lparr>headers := h\<rparr>)" by (auto simp: get_header_value)
  let ?q = "r\<lparr>headers := h, chunked := True, ntoread := -1\<rparr>"
  have "parse (granting f) r b = parse_chunks (granting f) ?q b"
    using ok(3) by (simp add: parse_def parse_body.simps [of "granting f" r b] h)
  moreover from no_body_returns [OF ok(1)] ok(3) obtain x where "no_body r = Inr x" by auto
  then have "no_body ?q = Inr x" by (simp add: no_body_def split: request_kind_t.splits)
  ultimately show ?thesis
    using parse_chunk_list [of ?q b ds rest x f] ok ds con room by (auto simp: request_ok_def)
qed

definition chunked_post :: "request" where
  "chunked_post = fresh_request (mkbuf [] [] [])\<lparr>kind := REQUEST, type := Some POST, status := READING_BODY,
     headers := [(''Transfer-Encoding'', ''chunked'')]\<rparr>"

lemma chunked_post_ok:
  "request_ok chunked_post" "status chunked_post = READING_BODY" "get_header ''Transfer-Encoding'' chunked_post = Inr ''chunked''"
  "body chunked_post = []" "body_buf chunked_post = mkbuf [] [] []"
  by (simp_all add: chunked_post_def request_ok_def get_header_value header_value_def body_def INT_MAX_def)

theorem parse_chunked_body_witness:
  "\<exists>r' b'. parse (granting (\<lambda>_. NUL)) chunked_post
      (mkbuf [] (chunk_enc ''hello'' @ chunk_enc ''you'' @ ''0'' @ [CR, LF] @ [CR, LF] @ ''rest'') []) = Inr (ALLREAD, r', b')
    \<and> body r' = ''hello'' @ [CR, LF] @ ''you'' @ [CR, LF] \<and> buffer_content b' = ''rest''"
proof -
  have h: "chunk_enc ''hello'' = ''5'' @ [CR, LF] @ ''hello'' @ [CR, LF]" "chunk_enc ''you'' = ''3'' @ [CR, LF] @ ''you'' @ [CR, LF]"
    by code_simp+
  show ?thesis
    using parse_chunked_body [of chunked_post
        "mkbuf [] (chunk_enc ''hello'' @ chunk_enc ''you'' @ ''0'' @ [CR, LF] @ [CR, LF] @ ''rest'') []"
        "[''hello'', ''you'']" "''rest''" "\<lambda>_. NUL"]
    by (simp add: chunked_post_ok h buffer_used_def INT_MAX_def)
qed

text \<open>C25. A body of known length may arrive in any number of pieces: while fewer bytes than the
  \<open>Content-Length\<close> header says are in the input, \<open>parse\<close> asks for more and leaves the input and the
  body as they are; as soon as they are there it takes exactly that many, in order, and reports
  the message complete. No header value changes.\<close>

theorem parse_known_length_body:
  fixes n :: nat
  assumes ok: "request_ok r" "buffer_ok b" "status r = READING_BODY" "\<not> chunked r"
    and cl: "get_header ''Content-Length'' r = Inr (to_string (int n))" "int n \<le> INT_MAX"
    and te: "get_header ''Transfer-Encoding'' r \<noteq> Inr ''chunked''"
    and room: "buffer_used (body_buf r) + int (length (buffer_content b)) \<le> 1073741824"
  shows "\<exists>r' b'. (\<forall>k. get_header k r' = get_header k r) \<and>
    (if n \<le> length (buffer_content b)
     then parse (granting f) r b = Inr (ALLREAD, r', b') \<and> body r' = body r @ take n (buffer_content b)
       \<and> buffer_content b' = drop n (buffer_content b)
     else parse (granting f) r b = Inr (NEEDMORE, r', b') \<and> body r' = body r \<and> b' = b \<and> status r' = READING_BODY)"
proof -
  have "parse (granting f) r b = parse_body (granting f) r b" using ok(3) by (simp add: parse_def)
  moreover have "buffer_ok (body_buf r)" using ok(1) by (simp add: request_ok_def)
  from parse_body_known_length [OF this ok(2) room _ _ cl(2) _ ok(4), of f] cl(1) te obtain h bb b' where
    "parse_body (granting f) r b = Inr (if n \<le> length (buffer_content b) then ALLREAD else NEEDMORE,
        r\<lparr>headers := h, ntoread := int n, body_buf := bb\<rparr>, b')"
    "\<forall>j. header_value j (r\<lparr>headers := h\<rparr>) = header_value j r"
    "if n \<le> length (buffer_content b)
     then buffer_content bb = body r @ take n (buffer_content b) \<and> buffer_content b' = drop n (buffer_content b)
     else bb = body_buf r \<and> b' = b"
    by (auto simp: get_header_value)
  ultimately show ?thesis using ok(3)
    by (intro exI [of _ "r\<lparr>headers := h, ntoread := int n, body_buf := bb\<rparr>"] exI [of _ b'])
      (auto simp: get_header_value body_def)
qed

definition sized_post :: "request" where
  "sized_post = fresh_request (mkbuf [] [] [])\<lparr>kind := REQUEST, type := Some POST, status := READING_BODY,
     headers := [(''Content-Length'', ''5'')]\<rparr>"

theorem parse_known_length_body_witness:
  "(\<exists>r' b'. parse (granting (\<lambda>_. NUL)) sized_post (mkbuf [] ''hel'' []) = Inr (NEEDMORE, r', b') \<and> buffer_content b' = ''hel'')
   \<and> (\<exists>r' b'. parse (granting (\<lambda>_. NUL)) sized_post (mkbuf [] ''hello you'' []) = Inr (ALLREAD, r', b')
        \<and> body r' = ''hello'' \<and> buffer_content b' = '' you'')"
proof -
  have five: "to_string 5 = ''5''" by code_simp
  have ok: "request_ok sized_post" "status sized_post = READING_BODY" "\<not> chunked sized_post"
    "get_header ''Content-Length'' sized_post = Inr ''5''" "get_header ''Transfer-Encoding'' sized_post \<noteq> Inr ''chunked''"
    "body sized_post = []" "body_buf sized_post = mkbuf [] [] []"
    by (simp_all add: sized_post_def request_ok_def get_header_value header_value_def body_def INT_MAX_def)
  show ?thesis
    using parse_known_length_body [of sized_post "mkbuf [] ''hel'' []" 5 "\<lambda>_. NUL"]
      parse_known_length_body [of sized_post "mkbuf [] ''hello you'' []" 5 "\<lambda>_. NUL"] ok five
    by (auto simp: buffer_used_def INT_MAX_def)
qed

section \<open>Input that ends inside a line\<close>

lemma pop_partial_line: "buffer_ok b \<Longrightarrow> \<forall>c \<in> set (buffer_content b). \<not> is_eol c \<Longrightarrow> buffer_pop_line b = Inr ([], b)"
  using buffer_pop_line_ok [of b] line_of_None [of "buffer_content b"] by simp

text \<open>A header line that has arrived only in part ends the headers: \<open>parse\<close> reports a GET or HEAD
  request complete, leaves the fragment in the input (where it is taken for the start of the next
  request), and every header that was still to come is lost.\<close>

theorem parse_partial_header_completes:
  assumes "buffer_ok b" and "buffer_content b \<noteq> []" and "\<forall>c \<in> set (buffer_content b). \<not> is_eol c"
    and "kind r = REQUEST" and "type r = Some t" and "t \<noteq> POST" and "status r = READING_HEADERS"
  shows "parse e r b = Inr (ALLREAD, r, b)"
proof -
  have "\<not> buffer_empty b" using assms(1,2) by (simp add: buffer_empty_content)
  then show ?thesis using assms pop_partial_line [OF assms(1,3)]
    by (simp add: parse_def parse_headers_def parse_headers_loop.simps [of e "[]" "[]" r b] no_body_def read_member_def)
qed

definition get_in_headers :: "request" where
  "get_in_headers = fresh_request (mkbuf [] [] [])\<lparr>kind := REQUEST, type := Some GET, status := READING_HEADERS\<rparr>"

theorem parse_partial_header_completes_witness:
  "parse (granting (\<lambda>_. NUL)) get_in_headers (mkbuf [] ''Connection: cl'' [])
     = Inr (ALLREAD, get_in_headers, mkbuf [] ''Connection: cl'' [])"
  by (rule parse_partial_header_completes [where t = GET])
    (simp_all add: get_in_headers_def INT_MAX_def is_eol_def CR_def LF_def)

text \<open>A chunk-size line that has arrived only in part is not waited for: \<open>std::stol\<close> is applied
  to the empty string before the check for it, and \<open>parse\<close> ends in the exception
  \<open>std::invalid_argument\<close>, which no caller in the repository catches.\<close>

theorem parse_partial_chunk_size_throws:
  assumes "buffer_ok b" and "buffer_content b \<noteq> []" and "\<forall>c \<in> set (buffer_content b). \<not> is_eol c"
    and "status r = READING_BODY" and te: "get_header ''Transfer-Encoding'' r = Inr ''chunked''"
  shows "parse e r b = Inl InvalidArgument"
proof -
  from header_index_value [of "''Transfer-Encoding''" r] te obtain h where
    h: "header_index ''Transfer-Encoding'' r = (''chunked'', r\<lparr>headers := h\<rparr>)" by (auto simp: get_header_value)
  have "\<not> buffer_empty b" using assms(1,2) by (simp add: buffer_empty_content)
  then show ?thesis using assms(4) pop_partial_line [OF assms(1,3)]
    by (simp add: parse_def parse_body.simps [of e r b] h parse_chunks.simps [of e _ b])
qed

theorem parse_partial_chunk_size_throws_witness:
  "parse (granting (\<lambda>_. NUL)) chunked_post (mkbuf [] ''1'' []) = Inl InvalidArgument"
  by (rule parse_partial_chunk_size_throws) (simp_all add: chunked_post_ok INT_MAX_def is_eol_def CR_def LF_def)

text \<open>When a chunk arrives in pieces the parser forgets that it has read the chunk's size: each call
  of \<open>parse\<close> on a chunked body starts at a size line, whatever \<open>ntoread\<close> was left at, so that the
  rest of a chunk is read as a size.\<close>

theorem parse_forgets_chunk_size:
  assumes "status r = READING_BODY" and te: "get_header ''Transfer-Encoding'' r = Inr ''chunked''"
  shows "parse e (r\<lparr>ntoread := n\<rparr>) b = parse e (r\<lparr>ntoread := -1\<rparr>) b"
proof -
  have te': "get_header ''Transfer-Encoding'' (r\<lparr>ntoread := m\<rparr>) = Inr ''chunked''" for m
    using te by (simp add: get_header_value)
  have "header_index ''Transfer-Encoding'' (r\<lparr>ntoread := m\<rparr>) =
      (''chunked'', r\<lparr>ntoread := m, headers := headers r\<rparr>)" for m
    using te by (auto simp: get_header_value header_value_def header_index_def smap_index_def split: option.splits)
  then show ?thesis using assms(1) by (simp add: parse_def parse_body.simps [of e _ b])
qed

theorem parse_forgets_chunk_size_witness:
  "parse (granting (\<lambda>_. NUL)) (chunked_post\<lparr>ntoread := 5\<rparr>) (mkbuf [] ''hello'' [])
     = parse (granting (\<lambda>_. NUL)) (chunked_post\<lparr>ntoread := -1\<rparr>) (mkbuf [] ''hello'' [])"
  by (rule parse_forgets_chunk_size) (simp_all add: chunked_post_ok)

section \<open>Continuation lines and malformed paths\<close>

lemma continuation_step:
  assumes ok: "buffer_ok b" and con: "buffer_content b = '' '' @ x @ [CR, LF] @ rest"
    and x: "clean x" "x = [] \<or> hd x \<noteq> CHR '' '' \<and> hd x \<noteq> CHR 0x09" and k: "k \<noteq> []"
  shows "\<exists>b'. parse_headers_loop e k v r b = parse_headers_loop e k v (set_header k (v @ x) r) b'
    \<and> buffer_ok b' \<and> buffer_content b' = rest"
proof -
  have "clean ('' '' @ x)" using x(1) by (auto simp: clean_def is_eol_def CR_def LF_def NUL_def)
  moreover have "buffer_content b = ('' '' @ x) @ [CR, LF] @ rest" using con by simp
  ultimately obtain b' where b': "buffer_pop_line b = Inr ('' '' @ x, b')" "buffer_ok b'" "buffer_content b' = rest"
    using pop_clean_line [OF ok] by blast
  have "ltrim (CHR '' '' # x) [CHR '' '', CHR 0x09] = x"
    using x(2) dropWhile_hd_id [of x "\<lambda>c. c \<in> set [CHR '' '', CHR 0x09]"] by (auto simp: ltrim_dropWhile)
  moreover have "\<not> buffer_empty b" using ok con by (simp add: buffer_empty_content)
  ultimately have "parse_headers_loop e k v r b = parse_headers_loop e k v (set_header k (v @ x) r) b'"
    unfolding parse_headers_loop.simps [of e k v r b] b'(1) using k by simp
  with b' show ?thesis by blast
qed

text \<open>A header that continues over several lines loses all but its last continuation: with two of
  them, the value \<open>parse\<close> stores is the first line followed by the second continuation alone.\<close>

theorem parse_continuation_lost:
  assumes ok: "buffer_ok b" and h: "clean_header (k, v)"
    and x: "clean x" "x = [] \<or> hd x \<noteq> CHR '' '' \<and> hd x \<noteq> CHR 0x09"
    and y: "clean y" "y = [] \<or> hd y \<noteq> CHR '' '' \<and> hd y \<noteq> CHR 0x09"
    and con: "buffer_content b = header_line (k, v) @ '' '' @ x @ [CR, LF] @ '' '' @ y @ [CR, LF] @ [CR, LF] @ rest"
    and r: "kind r = REQUEST" "type r = Some GET" "status r = READING_HEADERS"
  shows "\<exists>r' b'. parse e r b = Inr (ALLREAD, r', b') \<and> get_header k r' = Inr (v @ y) \<and> buffer_content b' = rest"
proof -
  have k: "k \<noteq> []" using h by (simp add: clean_header_def)
  from header_step [OF ok con h, of e "[]" "[]" r] obtain b1 where
    b1: "parse_headers_loop e [] [] r b = parse_headers_loop e k v (set_header k v r) b1" "buffer_ok b1"
      "buffer_content b1 = '' '' @ x @ [CR, LF] @ '' '' @ y @ [CR, LF] @ [CR, LF] @ rest" by blast
  from continuation_step [OF b1(2,3) x k, of e v "set_header k v r"] obtain b2 where
    b2: "parse_headers_loop e [] [] r b = parse_headers_loop e k v (set_header k (v @ x) (set_header k v r)) b2" "buffer_ok b2"
      "buffer_content b2 = '' '' @ y @ [CR, LF] @ [CR, LF] @ rest" using b1(1) by auto
  let ?q = "set_header k (v @ y) (set_header k (v @ x) (set_header k v r))"
  from continuation_step [OF b2(2,3) y k, of e v "set_header k (v @ x) (set_header k v r)"] obtain b3 where
    b3: "parse_headers_loop e [] [] r b = parse_headers_loop e k v ?q b3" "buffer_ok b3"
      "buffer_content b3 = [CR, LF] @ rest" using b2(1) by auto
  from parse_headers_end [OF b3(2,3), of e k v ?q] b3(1) obtain b4 where
    "parse_headers_loop e [] [] r b = headers_end e ?q b4" "buffer_content b4 = rest" by auto
  moreover have "get_header k ?q = Inr (v @ y)" by (simp add: get_header_value header_value_def set_header_def smap_find_set)
  ultimately show ?thesis using r
    by (simp add: parse_def parse_headers_def headers_end_def no_body_def read_member_def set_header_def)
qed

theorem parse_continuation_lost_witness:
  "\<exists>r' b'. parse (granting (\<lambda>_. NUL)) get_in_headers
      (mkbuf [] (header_line (''K'', ''a'') @ '' '' @ ''b'' @ [CR, LF] @ '' '' @ ''c'' @ [CR, LF] @ [CR, LF] @ ''rest'') [])
    = Inr (ALLREAD, r', b') \<and> get_header ''K'' r' = Inr ''ac'' \<and> buffer_content b' = ''rest''"
  using parse_continuation_lost [of "mkbuf [] (header_line (''K'', ''a'') @ '' '' @ ''b'' @ [CR, LF] @ '' '' @ ''c''
      @ [CR, LF] @ [CR, LF] @ ''rest'') []" "''K''" "''a''" "''b''" "''c''" "''rest''" get_in_headers "granting (\<lambda>_. NUL)"]
  by (simp add: get_in_headers_def clean_header_def clean_def trimmed_def ws_def is_eol_def CR_def LF_def NUL_def
      INT_MAX_def header_line_def)

lemma pct_decode_trailing: "CHR ''%'' \<notin> set p \<Longrightarrow> pct_decode (p @ ''%'') = Inl BadAccess"
  by (induction p) auto

text \<open>A request whose path ends in a percent sign makes the percent decoder read behind the end of
  the string: any client can trigger the undefined behaviour with one request line.\<close>

theorem parse_trailing_percent_faults:
  assumes ok: "buffer_ok b" and con: "buffer_content b = type_name t @ '' '' @ p @ ''%'' @ '' HTTP/1.1'' @ [CR, LF] @ rest"
    and p: "clean p" "CHR ''%'' \<notin> set p" "CHR '' '' \<notin> set p" "CHR ''?'' \<notin> set p"
    and r: "kind r = REQUEST" "status r = READING_FIRSTLINE"
  shows "parse e r b = Inl BadAccess"
proof -
  let ?l = "type_name t @ '' '' @ (p @ ''%'') @ '' '' @ ''HTTP/1.1''"
  have "clean ?l" using p(1) type_name_parse(3) [of t] by (auto simp: clean_def is_eol_def CR_def LF_def NUL_def)
  moreover have con': "buffer_content b = ?l @ [CR, LF] @ rest" using con by simp
  ultimately obtain b1 where b1: "buffer_pop_line b = Inr (?l, b1)" using pop_clean_line [OF ok] by blast
  have ne: "\<not> buffer_empty b" using ok con' by (simp add: buffer_empty_content)
  have tw: "three_words ?l = Some (type_name t, p @ ''%'', ''HTTP/1.1'')"
    by (rule three_words_app) (use type_name_parse(2) p(3) in auto)
  have "find_chr (CHR ''?'') (p @ ''%'') = None" using p(4) by (simp add: find_chr_None)
  then have "store_uri (p @ ''%'') (r\<lparr>type := Some t\<rparr>) = Inl BadAccess"
    using pct_decode_trailing [OF p(2)] by (simp add: store_uri_def decode_pct)
  then have "parse_request_line ?l r = Inl BadAccess"
    unfolding parse_request_line_def tw by (simp add: type_name_parse)
  with ne b1 r show ?thesis by (simp add: parse_def parse_firstline_def)
qed

theorem parse_trailing_percent_faults_witness:
  "parse (granting (\<lambda>_. NUL)) (fresh_request (mkbuf [] [] [])\<lparr>kind := REQUEST\<rparr>)
     (mkbuf [] (type_name GET @ '' '' @ ''/'' @ ''%'' @ '' HTTP/1.1'' @ [CR, LF] @ [CR, LF]) []) = Inl BadAccess"
  by (rule parse_trailing_percent_faults [where t = GET and p = "''/''"])
    (simp_all add: clean_def is_eol_def CR_def LF_def NUL_def INT_MAX_def type_name_def)

end
