(* ===== verification/Libio_Time.thy ===== *)
theory Libio_Time
  imports Libio_Map
begin

text \<open>
  The timer manager of \<open>src/core/time.hh\<close>. Timers are heap objects: \<open>store\<close> maps the address of a
  live timer to it, the set \<open>timers\<close> is the list of addresses in the order of the comparator (the
  timeout), \<open>idtimer\<close> the map from ids to addresses. Following a pointer to a deleted timer is a
  fault. \<open>set_timer\<close> never writes the member \<open>id\<close>; what is read there later is the arbitrary value
  \<open>junk\<close> of the environment, which also picks the address of a new object, possibly one that was
  freed before. \<open>gettimeofday\<close> is an argument, and so is the effect of a callback, which may do
  anything, also to the manager itself.
\<close>

section \<open>Definitions\<close>

type_synonym timeval = "int \<times> int"

text \<open>\<open>timercmp(a, b, <)\<close> and \<open>timeradd\<close>.\<close>

definition timer_less :: "timeval \<Rightarrow> timeval \<Rightarrow> bool" where
  "timer_less a b = (if fst a = fst b then snd a < snd b else fst a < fst b)"

definition timeradd :: "timeval \<Rightarrow> timeval \<Rightarrow> timeval" where
  "timeradd a b =
     (let sec = fst a + fst b; usec = snd a + snd b in
      if 1000000 \<le> usec then (sec + 1, usec - 1000000) else (sec, usec))"

record 'cb timer =
  tm_id :: int
  tm_tv :: timeval
  tm_timeout :: timeval
  tm_persistent :: bool
  tm_callback :: 'cb

record 'cb tmgr =
  timers :: "nat list"
  idtimer :: "(int, nat) smap"
  maxid :: int
  store :: "(nat, 'cb timer) smap"

record time_env =
  new_addr :: "nat list \<Rightarrow> nat"
  junk :: "nat \<Rightarrow> int"

definition time_new :: "'cb tmgr" where
  "time_new = \<lparr>timers = [], idtimer = [], maxid = 0, store = []\<rparr>"

definition time_empty :: "'cb tmgr \<Rightarrow> bool" where
  "time_empty s = (timers s = [])"

definition time_size :: "'cb tmgr \<Rightarrow> int" where
  "time_size s = to_int (int (length (timers s)))"

text \<open>\<open>*p\<close>\<close>

definition deref :: "nat \<Rightarrow> 'cb tmgr \<Rightarrow> 'cb timer res" where
  "deref p s = (case smap_find p (store s) of None \<Rightarrow> Inl BadAccess | Some t \<Rightarrow> Inr t)"

text \<open>
  \<open>timers.insert(p)\<close>: an element with an equivalent key stays and the new one is not inserted.
\<close>

fun set_insert :: "'cb tmgr \<Rightarrow> nat \<Rightarrow> timeval \<Rightarrow> nat list \<Rightarrow> nat list res" where
  "set_insert s p k [] = Inr [p]"
| "set_insert s p k (q # qs) =
     bind_res (deref q s) (\<lambda>t.
       if timer_less k (tm_timeout t) then Inr (p # q # qs)
       else if timer_less (tm_timeout t) k then bind_res (set_insert s p k qs) (\<lambda>r. Inr (q # r))
       else Inr (q # qs))"

definition timers_insert :: "nat \<Rightarrow> 'cb tmgr \<Rightarrow> 'cb tmgr res" where
  "timers_insert p s =
     bind_res (deref p s) (\<lambda>t.
     bind_res (set_insert s p (tm_timeout t) (timers s)) (\<lambda>l. Inr (s\<lparr>timers := l\<rparr>)))"

text \<open>\<open>timers.erase(p)\<close> erases the element with an equivalent key, which need not be \<open>p\<close>.\<close>

fun set_erase :: "'cb tmgr \<Rightarrow> timeval \<Rightarrow> nat list \<Rightarrow> nat list res" where
  "set_erase s k [] = Inr []"
| "set_erase s k (q # qs) =
     bind_res (deref q s) (\<lambda>t.
       if timer_less k (tm_timeout t) then Inr (q # qs)
       else if timer_less (tm_timeout t) k then bind_res (set_erase s k qs) (\<lambda>r. Inr (q # r))
       else Inr qs)"

definition timers_erase :: "nat \<Rightarrow> 'cb tmgr \<Rightarrow> 'cb tmgr res" where
  "timers_erase p s =
     bind_res (deref p s) (\<lambda>t.
     bind_res (set_erase s (tm_timeout t) (timers s)) (\<lambda>l. Inr (s\<lparr>timers := l\<rparr>)))"

text \<open>\<open>__get_id\<close>\<close>

definition get_id :: "'cb tmgr \<Rightarrow> (int \<times> 'cb tmgr) res" where
  "get_id s =
     (case idtimer s of
        [] \<Rightarrow> Inr (0, s)
      | (k, _) # _ \<Rightarrow>
          if 0 < k then Inr (k - 1, s)
          else bind_res (cint (maxid s + 1)) (\<lambda>m. Inr (m, s\<lparr>maxid := m\<rparr>)))"

definition set_timer ::
  "time_env \<Rightarrow> timeval \<Rightarrow> int \<Rightarrow> int \<Rightarrow> bool \<Rightarrow> 'cb \<Rightarrow> 'cb tmgr \<Rightarrow> (int \<times> 'cb tmgr) res" where
  "set_timer env now sec usec persistent f s =
     bind_res (get_id s) (\<lambda>(tid, s1).
       let p = new_addr env (map fst (store s1));
           tv = (sec, usec);
           t = \<lparr>tm_id = junk env p, tm_tv = tv, tm_timeout = timeradd now tv, tm_persistent = persistent,
                tm_callback = f\<rparr>;
           s2 = s1\<lparr>idtimer := smap_set tid p (idtimer s1), store := smap_set p t (store s1)\<rparr> in
       bind_res (timers_insert p s2) (\<lambda>s3. Inr (tid, s3)))"

text \<open>The overloads without microseconds and without \<open>persistent\<close>.\<close>

definition set_timer_usec :: "time_env \<Rightarrow> timeval \<Rightarrow> int \<Rightarrow> int \<Rightarrow> 'cb \<Rightarrow> 'cb tmgr \<Rightarrow> (int \<times> 'cb tmgr) res" where
  "set_timer_usec env now sec usec f s = set_timer env now sec usec False f s"

definition set_timer_sec :: "time_env \<Rightarrow> timeval \<Rightarrow> int \<Rightarrow> 'cb \<Rightarrow> 'cb tmgr \<Rightarrow> (int \<times> 'cb tmgr) res" where
  "set_timer_sec env now sec f s = set_timer env now sec 0 False f s"

definition set_persistent :: "int \<Rightarrow> 'cb tmgr \<Rightarrow> 'cb tmgr res" where
  "set_persistent tid s =
     (case smap_find tid (idtimer s) of
        None \<Rightarrow> Inr s
      | Some p \<Rightarrow> bind_res (deref p s) (\<lambda>t. Inr (s\<lparr>store := smap_set p (t\<lparr>tm_persistent := True\<rparr>) (store s)\<rparr>)))"

text \<open>\<open>remove\<close>; deleting an object that is not allocated is a fault.\<close>

definition delete_timer :: "nat \<Rightarrow> 'cb tmgr \<Rightarrow> 'cb tmgr res" where
  "delete_timer p s = bind_res (deref p s) (\<lambda>_. Inr (s\<lparr>store := smap_erase p (store s)\<rparr>))"

definition time_remove :: "int \<Rightarrow> 'cb tmgr \<Rightarrow> 'cb tmgr res" where
  "time_remove tid s =
     (case smap_find tid (idtimer s) of
        None \<Rightarrow> Inr s
      | Some p \<Rightarrow>
          bind_res (timers_erase p s) (\<lambda>s1.
            delete_timer p (s1\<lparr>idtimer := smap_erase tid (idtimer s1)\<rparr>)))"

text \<open>
  The iterator of \<open>process\<close> is the address of the node it stands on, \<open>None\<close> for \<open>end()\<close>;
  \<open>timers.erase(i)\<close> returns the iterator behind. An iterator whose node was erased is invalid.
\<close>

fun next_node :: "nat \<Rightarrow> nat list \<Rightarrow> nat option res" where
  "next_node p [] = Inl BadAccess"
| "next_node p (q # qs) = (if p = q then Inr (case qs of [] \<Rightarrow> None | r # _ \<Rightarrow> Some r) else next_node p qs)"

type_synonym ('cb, 'w) exec = "'cb \<Rightarrow> 'w \<times> 'cb tmgr \<Rightarrow> ('w \<times> 'cb tmgr) res"

text \<open>The body of the loop of \<open>process\<close>, after the check of the timeout: timer \<open>p\<close> is due.\<close>

definition fire_end :: "timeval \<Rightarrow> nat \<Rightarrow> 'cb tmgr \<Rightarrow> 'cb tmgr res" where
  "fire_end now p s =
     bind_res (deref p s) (\<lambda>t.
       if \<not> tm_persistent t then delete_timer p (s\<lparr>idtimer := smap_erase (tm_id t) (idtimer s)\<rparr>)
       else timers_insert p (s\<lparr>store := smap_set p (t\<lparr>tm_timeout := timeradd now (tm_tv t)\<rparr>) (store s)\<rparr>))"

definition fire :: "('cb, 'w) exec \<Rightarrow> timeval \<Rightarrow> nat \<Rightarrow> 'w \<times> 'cb tmgr \<Rightarrow> (nat option \<times> 'w \<times> 'cb tmgr) res" where
  "fire exec now p ws =
     (case ws of (w, s) \<Rightarrow>
        bind_res (next_node p (timers s)) (\<lambda>i.
        bind_res (deref p s) (\<lambda>ti.
        bind_res (exec (tm_callback ti) (w, s\<lparr>timers := filter (\<lambda>q. q \<noteq> p) (timers s)\<rparr>)) (\<lambda>(w1, s1).
        bind_res (fire_end now p s1) (\<lambda>s2. Inr (i, w1, s2))))))"

text \<open>The loop, with fuel: a callback may set timers that are due at once, for ever.\<close>

fun process_loop :: "nat \<Rightarrow> ('cb, 'w) exec \<Rightarrow> timeval \<Rightarrow> nat option \<Rightarrow> 'w \<times> 'cb tmgr \<Rightarrow> ('w \<times> 'cb tmgr) res" where
  "process_loop n exec now None ws = Inr ws"
| "process_loop 0 exec now (Some p) ws = Inl NoReturn"
| "process_loop (Suc n) exec now (Some p) ws =
     (if p \<in> set (timers (snd ws)) then
        bind_res (deref p (snd ws)) (\<lambda>ti.
          if timer_less now (tm_timeout ti) then Inr ws
          else bind_res (fire exec now p ws) (\<lambda>(i, ws'). process_loop n exec now i ws'))
      else Inl BadAccess)"

definition time_process :: "nat \<Rightarrow> ('cb, 'w) exec \<Rightarrow> timeval \<Rightarrow> 'w \<times> 'cb tmgr \<Rightarrow> ('w \<times> 'cb tmgr) res" where
  "time_process n exec now ws =
     (if time_empty (snd ws) then Inr ws
      else process_loop n exec now (Some (hd (timers (snd ws)))) ws)"

text \<open>\<open>shortest_time\<close> reads the clock twice; the difference of the seconds is converted to \<open>int\<close>.\<close>

definition shortest_time ::
  "nat \<Rightarrow> ('cb, 'w) exec \<Rightarrow> timeval \<Rightarrow> timeval \<Rightarrow> 'w \<times> 'cb tmgr \<Rightarrow> (int \<times> 'w \<times> 'cb tmgr) res" where
  "shortest_time n exec now1 now2 ws =
     bind_res (time_process n exec now1 ws) (\<lambda>ws1.
       if time_empty (snd ws1) then Inr (-1, ws1)
       else
         bind_res (deref (hd (timers (snd ws1))) (snd ws1)) (\<lambda>ti.
           let timeout = to_int (fst (tm_timeout ti) - fst now2 + 1) in
           Inr (if 0 < timeout then timeout else 0, ws1)))"

text \<open>The invariant: every timer in the set is live, the set is in order, ids are below the counter.\<close>

definition live :: "'cb tmgr \<Rightarrow> nat \<Rightarrow> bool" where
  "live s p = smap_count p (store s)"

definition due_at :: "'cb tmgr \<Rightarrow> nat \<Rightarrow> timeval" where
  "due_at s p = (case smap_find p (store s) of Some t \<Rightarrow> tm_timeout t | None \<Rightarrow> (0, 0))"

definition in_order :: "('p \<Rightarrow> timeval) \<Rightarrow> 'p list \<Rightarrow> bool" where
  "in_order due l = sorted_wrt (\<lambda>p q. timer_less (due p) (due q)) l"

definition time_ok :: "'cb tmgr \<Rightarrow> bool" where
  "time_ok s =
     (smap_ok (idtimer s) \<and> smap_ok (store s) \<and> (\<forall>p \<in> set (timers s). live s p) \<and> in_order (due_at s) (timers s) \<and>
      (\<forall>k \<in> fst ` set (idtimer s). 0 \<le> k \<and> k \<le> maxid s) \<and> 0 \<le> maxid s \<and> maxid s \<le> INT_MAX)"

section \<open>The order of timeouts\<close>

lemma timer_less_irrefl [simp]: "\<not> timer_less a a"
  by (simp add: timer_less_def)

lemma timer_less_trans: "timer_less a b \<Longrightarrow> timer_less b c \<Longrightarrow> timer_less a c"
  by (auto simp: timer_less_def split: if_splits)

lemma timer_less_linear: "timer_less a b \<or> a = b \<or> timer_less b a"
  by (auto simp: timer_less_def prod_eq_iff)

lemma timer_less_asym: "timer_less a b \<Longrightarrow> \<not> timer_less b a"
  using timer_less_trans timer_less_irrefl by blast

text \<open>Insertion into and deletion from an ordered set of keys, without the pointers.\<close>

fun ord_ins :: "('p \<Rightarrow> timeval) \<Rightarrow> 'p \<Rightarrow> 'p list \<Rightarrow> 'p list" where
  "ord_ins due p [] = [p]"
| "ord_ins due p (q # qs) =
     (if timer_less (due p) (due q) then p # q # qs
      else if timer_less (due q) (due p) then q # ord_ins due p qs else q # qs)"

fun ord_del :: "('p \<Rightarrow> timeval) \<Rightarrow> timeval \<Rightarrow> 'p list \<Rightarrow> 'p list" where
  "ord_del due k [] = []"
| "ord_del due k (q # qs) =
     (if timer_less k (due q) then q # qs else if timer_less (due q) k then q # ord_del due k qs else qs)"

lemma deref_live: "live s p \<Longrightarrow> \<exists>t. deref p s = Inr t \<and> smap_find p (store s) = Some t \<and> due_at s p = tm_timeout t"
  by (auto simp: live_def smap_count_def deref_def due_at_def)

lemma set_insert_ord:
  "\<forall>q \<in> set l. live s q \<Longrightarrow> set_insert s p k l = Inr (ord_ins ((due_at s)(p := k)) p l)" if "p \<notin> set l"
  using that
proof (induction l)
  case (Cons q l)
  then obtain t where "deref q s = Inr t" "due_at s q = tm_timeout t" using deref_live [of s q] by auto
  with Cons show ?case by auto
qed simp

lemma set_erase_ord: "\<forall>q \<in> set l. live s q \<Longrightarrow> set_erase s k l = Inr (ord_del (due_at s) k l)"
proof (induction l)
  case (Cons q l)
  then obtain t where "deref q s = Inr t" "due_at s q = tm_timeout t" using deref_live [of s q] by auto
  with Cons show ?case by auto
qed simp

lemma ord_ins_set:
  "in_order due l \<Longrightarrow> set (ord_ins due p l) = (if due p \<in> due ` set l then set l else insert p (set l))"
proof (induction l)
  case (Cons q l)
  have "due p \<notin> due ` set (q # l)" if "timer_less (due p) (due q)"
    using that Cons.prems by (auto simp: in_order_def dest: timer_less_asym)
  moreover have "due p = due q" if "\<not> timer_less (due p) (due q)" "\<not> timer_less (due q) (due p)"
    using that timer_less_linear by metis
  ultimately show ?case using Cons by (auto simp: in_order_def)
qed simp

lemma ord_ins_order: "in_order due l \<Longrightarrow> in_order due (ord_ins due p l)"
proof (induction l)
  case (Cons q l)
  then have "set (ord_ins due p l) \<subseteq> insert p (set l)" using ord_ins_set [of due l p] by (auto simp: in_order_def split: if_splits)
  with Cons show ?case by (auto simp: in_order_def intro: timer_less_trans)
qed (simp add: in_order_def)

lemma ord_del_filter: "in_order due l \<Longrightarrow> ord_del due k l = filter (\<lambda>q. due q \<noteq> k) l"
proof (induction l)
  case (Cons q l)
  have rest: "\<forall>r \<in> set l. timer_less (due q) (due r)" "in_order due l" using Cons.prems by (auto simp: in_order_def)
  consider "timer_less k (due q)" | "timer_less (due q) k" | "due q = k" using timer_less_linear by metis
  then show ?case
  proof cases
    case 1
    then have "\<forall>r \<in> set (q # l). due r \<noteq> k" using rest timer_less_trans by fastforce
    with 1 show ?thesis by (simp add: filter_True)
  next
    case 2
    then show ?thesis using Cons.IH rest(2) timer_less_asym by auto
  next
    case 3
    then have "\<forall>r \<in> set l. due r \<noteq> k" using rest by fastforce
    with 3 show ?thesis by (simp add: filter_True)
  qed
qed simp

lemma in_order_filter: "in_order due l \<Longrightarrow> in_order due (filter p l)"
  by (simp add: in_order_def sorted_wrt_filter)

lemma in_order_distinct: "in_order due l \<Longrightarrow> distinct l"
  by (induction l) (auto simp: in_order_def)

lemma in_order_cong: "(\<And>p. p \<in> set l \<Longrightarrow> due p = due' p) \<Longrightarrow> in_order due l = in_order due' l"
  by (simp add: in_order_def sorted_wrt_iff_nth_less)

lemma in_order_transfer: "in_order due l \<Longrightarrow> (\<And>q. q \<in> set l \<Longrightarrow> due' q = due q) \<Longrightarrow> in_order due' l"
  using in_order_cong [of l due' due] by blast

section \<open>The operations keep the invariant\<close>

lemma live_update [simp]:
  "live (s\<lparr>timers := l\<rparr>) p = live s p" "live (s\<lparr>idtimer := m\<rparr>) p = live s p" "live (s\<lparr>maxid := n\<rparr>) p = live s p"
  "due_at (s\<lparr>timers := l\<rparr>) = due_at s" "due_at (s\<lparr>idtimer := m\<rparr>) = due_at s" "due_at (s\<lparr>maxid := n\<rparr>) = due_at s"
  by (simp_all add: live_def due_at_def fun_eq_iff)

lemma live_store [simp]:
  "live (s\<lparr>store := smap_set p t (store s)\<rparr>) q = (q = p \<or> live s q)"
  "due_at (s\<lparr>store := smap_set p t (store s)\<rparr>) q = (if q = p then tm_timeout t else due_at s q)"
  by (auto simp: live_def due_at_def smap_count_def smap_find_set)

lemma timers_insert_eq:
  assumes "\<forall>q \<in> set (timers s). live s q" and "live s p" and "p \<notin> set (timers s)"
  shows "timers_insert p s = Inr (s\<lparr>timers := ord_ins (due_at s) p (timers s)\<rparr>)"
proof -
  from deref_live [OF assms(2)] obtain t where t: "deref p s = Inr t" "due_at s p = tm_timeout t" by blast
  then have "(due_at s)(p := tm_timeout t) = due_at s" by auto
  with t set_insert_ord [OF assms(3,1), of "tm_timeout t"] show ?thesis by (simp add: timers_insert_def)
qed

lemma timers_erase_eq:
  assumes "time_ok s" and "live s p"
  shows "timers_erase p s = Inr (s\<lparr>timers := filter (\<lambda>q. due_at s q \<noteq> due_at s p) (timers s)\<rparr>)"
proof -
  from deref_live [OF assms(2)] obtain t where t: "deref p s = Inr t" "due_at s p = tm_timeout t" by blast
  have "\<forall>q \<in> set (timers s). live s q" "in_order (due_at s) (timers s)" using assms(1) by (auto simp: time_ok_def)
  with t set_erase_ord [of "timers s" s] ord_del_filter [of "due_at s" "timers s"] show ?thesis
    by (simp add: timers_erase_def)
qed

lemma get_id_ok:
  assumes ok: "time_ok s" and g: "get_id s = Inr (i, s1)"
  shows "time_ok s1 \<and> \<not> smap_count i (idtimer s) \<and> 0 \<le> i \<and> i \<le> maxid s1 \<and> s1 = s\<lparr>maxid := maxid s1\<rparr>"
proof (cases "idtimer s")
  case Nil
  with ok g show ?thesis by (auto simp: get_id_def time_ok_def smap_count_def)
next
  case (Cons kp m)
  obtain k p where kp: "kp = (k, p)" by (cases kp)
  have keys: "smap_ok ((k, p) # m)" "\<forall>j \<in> fst ` set ((k, p) # m). 0 \<le> j \<and> j \<le> maxid s" "maxid s \<le> INT_MAX" "0 \<le> maxid s"
    using ok Cons kp by (simp_all add: time_ok_def)
  show ?thesis
  proof (cases "0 < k")
    case True
    then have "i = k - 1" "s1 = s" using g Cons kp by (auto simp: get_id_def)
    moreover have "k - 1 \<notin> fst ` set ((k, p) # m)" using keys(1) by fastforce
    ultimately show ?thesis using True ok keys Cons kp by (auto simp: smap_count_def smap_find_None)
  next
    case False
    then have "i = maxid s + 1" "s1 = s\<lparr>maxid := maxid s + 1\<rparr>" "maxid s + 1 \<le> INT_MAX"
      using g Cons kp by (auto simp: get_id_def bind_res_eq_Inr cint_eq_Inr)
    moreover have "maxid s + 1 \<notin> fst ` set ((k, p) # m)" using keys(2) by force
    ultimately show ?thesis using ok keys Cons kp by (auto simp: smap_count_def smap_find_None time_ok_def)
  qed
qed

definition env_ok :: "time_env \<Rightarrow> bool" where
  "env_ok env = (\<forall>l. new_addr env l \<notin> set l)"

lemma set_timer_ok:
  fixes s s1 :: "'cb tmgr" and env :: time_env and now :: timeval and sec usec i :: int and per :: bool and f :: 'cb
  assumes ok: "time_ok s" and env: "env_ok env" and g: "get_id s = Inr (i, s1)"
  defines "p \<equiv> new_addr env (map fst (store s))"
  defines "t \<equiv> \<lparr>tm_id = junk env p, tm_tv = (sec, usec), tm_timeout = timeradd now (sec, usec), tm_persistent = per, tm_callback = f\<rparr>"
  defines "s2 \<equiv> s1\<lparr>idtimer := smap_set i p (idtimer s), store := smap_set p t (store s)\<rparr>"
  shows "set_timer env now sec usec per f s = Inr (i, s2\<lparr>timers := ord_ins (due_at s2) p (timers s)\<rparr>)"
    "time_ok (s2\<lparr>timers := ord_ins (due_at s2) p (timers s)\<rparr>)" "\<not> live s p"
    "\<And>q. q \<noteq> p \<Longrightarrow> due_at s2 q = due_at s q" "due_at s2 p = tm_timeout t"
proof -
  from get_id_ok [OF ok g] have s1: "s1 = s\<lparr>maxid := maxid s1\<rparr>" "time_ok s1" "0 \<le> i" "i \<le> maxid s1" by auto
  have eqs: "store s1 = store s" "idtimer s1 = idtimer s" "timers s1 = timers s"
    by (subst s1(1), simp)+
  have "p \<notin> fst ` set (store s)" using env by (simp add: env_ok_def p_def) (metis set_map)
  then show nl: "\<not> live s p" by (simp add: live_def smap_count_def smap_find_None)
  have s2: "timers s2 = timers s" "store s2 = smap_set p t (store s)" by (simp_all add: s2_def eqs)
  show due: "\<And>q. q \<noteq> p \<Longrightarrow> due_at s2 q = due_at s q" "due_at s2 p = tm_timeout t"
    by (simp_all add: due_at_def s2 smap_find_set)
  have lv: "live s2 q = (q = p \<or> live s q)" for q by (simp add: live_def s2)
  have okl: "\<forall>q \<in> set (timers s). live s q" "in_order (due_at s) (timers s)" using ok by (auto simp: time_ok_def)
  have np: "p \<notin> set (timers s)" using nl okl(1) by blast
  have "timers_insert p s2 = Inr (s2\<lparr>timers := ord_ins (due_at s2) p (timers s)\<rparr>)"
    using timers_insert_eq [of s2 p] lv okl(1) np by (simp add: s2)
  then show "set_timer env now sec usec per f s = Inr (i, s2\<lparr>timers := ord_ins (due_at s2) p (timers s)\<rparr>)"
    using g by (simp add: set_timer_def eqs Let_def p_def [symmetric] t_def [symmetric] s2_def)
  have io: "in_order (due_at s2) (timers s)"
    using okl(2) in_order_cong [of "timers s" "due_at s" "due_at s2"] due(1) np by metis
  have "set (ord_ins (due_at s2) p (timers s)) \<subseteq> insert p (set (timers s))" using ord_ins_set [OF io, of p] by auto
  moreover have "maxid s2 = maxid s1" "idtimer s2 = smap_set i p (idtimer s)" by (simp_all add: s2_def)
  ultimately show "time_ok (s2\<lparr>timers := ord_ins (due_at s2) p (timers s)\<rparr>)"
    using s1 eqs ok okl(1) ord_ins_order [OF io, of p] lv fst_smap_set [of i p "idtimer s"]
    unfolding time_ok_def s2 by (auto simp: s2 in_order_def)
qed

lemma time_remove_ok:
  assumes ok: "time_ok s" and r: "time_remove tid s = Inr s'"
  shows "time_ok s'"
proof (cases "smap_find tid (idtimer s)")
  case None
  with r ok show ?thesis by (simp add: time_remove_def)
next
  case (Some p)
  have lp: "live s p"
    using r Some by (auto simp: time_remove_def timers_erase_def deref_def live_def smap_count_def split: option.splits)
  let ?l = "filter (\<lambda>q. due_at s q \<noteq> due_at s p) (timers s)"
  have "s' = s\<lparr>timers := ?l, idtimer := smap_erase tid (idtimer s), store := smap_erase p (store s)\<rparr>"
    using r Some timers_erase_eq [OF ok lp] by (auto simp: time_remove_def delete_timer_def bind_res_eq_Inr)
  moreover have okp: "smap_ok (store s)" using ok by (simp add: time_ok_def)
  have "live s' q = (q \<noteq> p \<and> live s q)" "q \<noteq> p \<Longrightarrow> due_at s' q = due_at s q" for q
    using calculation okp by (auto simp: live_def smap_count_def due_at_def smap_find_erase)
  moreover have "in_order (due_at s) ?l" using ok by (simp add: time_ok_def in_order_filter)
  moreover from this have "in_order (due_at s') ?l"
    by (rule in_order_transfer) (rule calculation(3), auto)
  ultimately show ?thesis using ok set_smap_erase [of tid "idtimer s"] by (auto simp: time_ok_def)
qed

lemma set_persistent_ok:
  assumes ok: "time_ok s" and r: "set_persistent tid s = Inr s'"
  shows "time_ok s'"
proof (cases "smap_find tid (idtimer s)")
  case None
  with r ok show ?thesis by (simp add: set_persistent_def)
next
  case (Some p)
  with r obtain t where t: "deref p s = Inr t" "s' = s\<lparr>store := smap_set p (t\<lparr>tm_persistent := True\<rparr>) (store s)\<rparr>"
    by (auto simp: set_persistent_def bind_res_eq_Inr)
  have "due_at s p = tm_timeout t" using t(1) by (auto simp: deref_def due_at_def split: option.splits)
  then have "due_at s' = due_at s" using t(2) by (auto simp: fun_eq_iff)
  with t(2) ok show ?thesis by (auto simp: time_ok_def)
qed

section \<open>Firing\<close>

text \<open>Callbacks that leave the manager alone: \<open>step\<close> is what one does to the rest of the world.\<close>

definition plain_exec :: "('cb \<Rightarrow> 'w \<Rightarrow> 'w) \<Rightarrow> ('cb, 'w) exec" where
  "plain_exec step cb ws = Inr (step cb (fst ws), snd ws)"

lemma next_node_hd: "next_node p (p # l) = Inr (case l of [] \<Rightarrow> None | r # _ \<Rightarrow> Some r)"
  by simp

definition callback_of :: "'cb tmgr \<Rightarrow> nat \<Rightarrow> 'cb" where
  "callback_of s p = tm_callback (the (smap_find p (store s)))"

text \<open>A timer that can be fired without coming due again at once.\<close>

definition settles :: "timeval \<Rightarrow> 'cb tmgr \<Rightarrow> nat \<Rightarrow> bool" where
  "settles now s p =
     (case smap_find p (store s) of None \<Rightarrow> True
      | Some t \<Rightarrow> tm_persistent t \<longrightarrow> timer_less now (timeradd now (tm_tv t)))"

lemma fire_first:
  fixes s :: "'cb tmgr"
  assumes ok: "time_ok s" and l: "timers s = p # l" and st: "settles now s p" and nd: "\<not> timer_less now (due_at s p)"
  shows "\<exists>s'. fire (plain_exec step) now p (w, s) = Inr (case l of [] \<Rightarrow> None | r # _ \<Rightarrow> Some r, step (callback_of s p) w, s')
    \<and> time_ok s' \<and> (\<forall>q. q \<noteq> p \<longrightarrow> smap_find q (store s') = smap_find q (store s))
    \<and> filter (\<lambda>q. \<not> timer_less now (due_at s' q)) (timers s') = filter (\<lambda>q. \<not> timer_less now (due_at s q)) l
    \<and> set l \<subseteq> set (timers s') \<and> set (timers s') \<subseteq> insert p (set l) \<and> settles now s' p \<and> (\<not> tm_persistent (the (smap_find p (store s))) \<longrightarrow> \<not> live s' p)"
proof -
  have lv: "live s p" "\<forall>q \<in> set l. live s q" "in_order (due_at s) l" "p \<notin> set l"
    using ok l in_order_distinct [of "due_at s" "timers s"] by (auto simp: time_ok_def in_order_def)
  from deref_live [OF lv(1)] obtain t where t: "deref p s = Inr t" "smap_find p (store s) = Some t" "due_at s p = tm_timeout t" by blast
  let ?s1 = "s\<lparr>timers := l\<rparr>"
  have fl: "filter (\<lambda>q. q \<noteq> p) (timers s) = l" using l lv(4) by (auto simp: filter_id_conv)
  have d1: "deref p ?s1 = Inr t" using t(1) by (simp add: deref_def)
  show ?thesis
  proof (cases "tm_persistent t")
    case False
    let ?s' = "?s1\<lparr>idtimer := smap_erase (tm_id t) (idtimer s), store := smap_erase p (store s)\<rparr>"
    have "fire (plain_exec step) now p (w, s) = Inr (case l of [] \<Rightarrow> None | r # _ \<Rightarrow> Some r, step (callback_of s p) w, ?s')"
      using t d1 False fl l by (simp add: fire_def fire_end_def plain_exec_def callback_of_def delete_timer_def deref_def)
    moreover have okp: "smap_ok (store s)" using ok by (simp add: time_ok_def)
    have q: "live ?s' q = (q \<noteq> p \<and> live s q)" "q \<noteq> p \<Longrightarrow> due_at ?s' q = due_at s q"
      "q \<noteq> p \<Longrightarrow> smap_find q (store ?s') = smap_find q (store s)" for q
      using okp by (auto simp: live_def smap_count_def due_at_def smap_find_erase)
    have ql: "due_at ?s' x = due_at s x" if "x \<in> set l" for x by (rule q(2)) (use that lv(4) in auto)
    moreover have "in_order (due_at ?s') l" using lv(3) ql by (rule in_order_transfer)
    moreover have "filter (\<lambda>q. \<not> timer_less now (due_at ?s' q)) l = filter (\<lambda>q. \<not> timer_less now (due_at s q)) l"
      by (intro filter_cong) (simp_all only: ql)
    moreover have "settles now ?s' p" using okp by (simp add: settles_def smap_find_erase)
    ultimately show ?thesis using ok lv False t q(1,3) set_smap_erase [of "tm_id t" "idtimer s"]
      by (intro exI [of _ ?s']) (auto simp: time_ok_def)
  next
    case True
    let ?t = "t\<lparr>tm_timeout := timeradd now (tm_tv t)\<rparr>"
    let ?s2 = "?s1\<lparr>store := smap_set p ?t (store s)\<rparr>"
    let ?s' = "?s2\<lparr>timers := ord_ins (due_at ?s2) p l\<rparr>"
    have q: "live ?s2 q = (q = p \<or> live s q)" "due_at ?s2 q = (if q = p then timeradd now (tm_tv t) else due_at s q)"
      "q \<noteq> p \<Longrightarrow> smap_find q (store ?s2) = smap_find q (store s)" for q
      by (auto simp: live_def smap_count_def due_at_def smap_find_set)
    have "timers_insert p ?s2 = Inr ?s'" using timers_insert_eq [of ?s2 p] q lv by simp
    then have f: "fire (plain_exec step) now p (w, s) = Inr (case l of [] \<Rightarrow> None | r # _ \<Rightarrow> Some r, step (callback_of s p) w, ?s')"
      using t d1 True fl l by (simp add: fire_def fire_end_def plain_exec_def callback_of_def)
    have io: "in_order (due_at ?s2) l" using lv(3) by (rule in_order_transfer) (use lv(4) q(2) in auto)
    have set: "set (ord_ins (due_at ?s2) p l) \<subseteq> insert p (set l)" "set l \<subseteq> set (ord_ins (due_at ?s2) p l)"
      using ord_ins_set [OF io, of p] by auto
    have new: "timer_less now (due_at ?s2 p)" using st t(2) True q(2) by (simp add: settles_def)
    have fil: "filter (\<lambda>q. \<not> timer_less now (due q)) (ord_ins due p l) = filter (\<lambda>q. \<not> timer_less now (due q)) l"
      if "timer_less now (due p)" for due :: "nat \<Rightarrow> timeval"
      using that by (induction l) (auto split: if_splits)
    have due: "due_at ?s' = due_at ?s2" "live ?s' = live ?s2" by (simp_all add: due_at_def live_def fun_eq_iff)
    have "filter (\<lambda>q. \<not> timer_less now (due_at ?s2 q)) l = filter (\<lambda>q. \<not> timer_less now (due_at s q)) l"
      using lv(4) q(2) by (intro filter_cong) auto
    then have fil': "filter (\<lambda>q. \<not> timer_less now (due_at ?s' q)) (timers ?s') = filter (\<lambda>q. \<not> timer_less now (due_at s q)) l"
      unfolding due using fil [of "due_at ?s2"] new by simp
    have lv': "\<forall>q \<in> set (timers ?s'). live ?s' q" using set(1) lv(2) q(1) unfolding due by auto
    have io': "in_order (due_at ?s') (timers ?s')" unfolding due using ord_ins_order [OF io, of p] by simp
    have ok': "time_ok ?s'" using ok lv' io' by (simp add: time_ok_def)
    have "settles now ?s' p" using st t(2) by (simp add: settles_def smap_find_set)
    moreover have "\<forall>r. r \<noteq> p \<longrightarrow> smap_find r (store ?s') = smap_find r (store s)" using q(3) by simp
    moreover have "set l \<subseteq> set (timers ?s')" "set (timers ?s') \<subseteq> insert p (set l)" using set by simp_all
    ultimately show ?thesis using f fil' ok' True t(2) by (intro exI [of _ ?s']) simp
  qed
qed

definition due_now :: "timeval \<Rightarrow> 'cb tmgr \<Rightarrow> nat list" where
  "due_now now s = filter (\<lambda>q. \<not> timer_less now (due_at s q)) (timers s)"

lemma due_first:
  assumes "in_order due (p # l)" and "filter (\<lambda>q. \<not> timer_less now (due q)) (p # l) = r # rs"
  shows "r = p" "\<not> timer_less now (due p)"
proof -
  have "r \<in> set (filter (\<lambda>q. \<not> timer_less now (due q)) (p # l))" using assms(2) by simp
  then have "r = p \<or> timer_less (due p) (due r)" "\<not> timer_less now (due r)" using assms(1) by (auto simp: in_order_def split: if_splits)
  then show "\<not> timer_less now (due p)" using timer_less_trans by blast
  with assms(2) show "r = p" by simp
qed

lemma process_settled:
  assumes "due_now now s = []" and "time_ok s" and "case i of None \<Rightarrow> True | Some p \<Rightarrow> p \<in> set (timers s)"
  shows "process_loop (Suc n) exec now i (w, s) = Inr (w, s)"
proof (cases i)
  case (Some p)
  with assms have p: "p \<in> set (timers s)" "timer_less now (due_at s p)" "live s p"
    by (auto simp: due_now_def filter_empty_conv time_ok_def)
  with deref_live [of s p] Some show ?thesis by auto
qed simp

lemma process_fires:
  fixes s :: "'cb tmgr"
  assumes "time_ok s" and "\<forall>p \<in> set (timers s). settles now s p" and "length (due_now now s) < n"
    and "(case i of None \<Rightarrow> due_now now s = [] | Some p \<Rightarrow> p \<in> set (timers s) \<and> (due_now now s = [] \<or> p = hd (timers s)))"
  shows "\<exists>s'. process_loop n (plain_exec step) now i (w, s) = Inr (fold (\<lambda>p. step (callback_of s p)) (due_now now s) w, s')
    \<and> time_ok s' \<and> due_now now s' = [] \<and> set (timers s) - set (due_now now s) \<subseteq> set (timers s')
    \<and> (\<forall>q \<in> set (due_now now s). \<not> tm_persistent (the (smap_find q (store s))) \<longrightarrow> \<not> live s' q)
    \<and> (\<forall>q. q \<notin> set (due_now now s) \<longrightarrow> smap_find q (store s') = smap_find q (store s))"
  using assms
proof (induction n arbitrary: s w i)
  case (Suc n)
  show ?case
  proof (cases "due_now now s")
    case Nil
    have "process_loop (Suc n) (plain_exec step) now i (w, s) = Inr (w, s)"
      by (rule process_settled [OF Nil Suc.prems(1)]) (use Suc.prems(4) in \<open>auto split: option.splits\<close>)
    with Nil Suc.prems(1) show ?thesis by auto
  next
    case (Cons p ds)
    then have "timers s \<noteq> []" by (auto simp: due_now_def)
    then obtain q l where ql: "timers s = q # l" by (cases "timers s") auto
    have io: "in_order (due_at s) (q # l)" using Suc.prems(1) ql by (simp add: time_ok_def)
    have "filter (\<lambda>q. \<not> timer_less now (due_at s q)) (q # l) = p # ds" using Cons ql unfolding due_now_def by metis
    note pq = due_first [OF io this]
    have i: "i = Some p" using Suc.prems(4) Cons ql pq(1) by (cases i) simp_all
    have ds: "ds = filter (\<lambda>q. \<not> timer_less now (due_at s q)) l" using Cons ql pq by (simp add: due_now_def)
    have tl: "timers s = p # l" and st: "settles now s p" and nd: "\<not> timer_less now (due_at s p)"
      using ql pq Suc.prems(2) by auto
    from fire_first [OF Suc.prems(1) tl st nd, of step w] obtain s1 where
      f: "fire (plain_exec step) now p (w, s) = Inr (case l of [] \<Rightarrow> None | r # _ \<Rightarrow> Some r, step (callback_of s p) w, s1)"
      and s1: "time_ok s1" "\<forall>q. q \<noteq> p \<longrightarrow> smap_find q (store s1) = smap_find q (store s)" "due_now now s1 = ds"
        "set l \<subseteq> set (timers s1)" "set (timers s1) \<subseteq> insert p (set l)"
        "settles now s1 p" "\<not> tm_persistent (the (smap_find p (store s))) \<longrightarrow> \<not> live s1 p"
      unfolding due_now_def ds by blast
    let ?i = "case l of [] \<Rightarrow> None | r # _ \<Rightarrow> Some r"
    have dist: "p \<notin> set l" using in_order_distinct [OF io] pq by simp
    have dsl: "set ds \<subseteq> set l" by (auto simp: ds)
    have cb: "fold (\<lambda>p. step (callback_of s1 p)) ds v = fold (\<lambda>p. step (callback_of s p)) ds v" for v
      by (rule fold_cong) (use s1(2) dist dsl in \<open>auto simp: callback_of_def\<close>)
    have set1: "settles now s1 q" if "q \<in> set (timers s1)" for q
    proof (cases "q = p")
      case False
      with that s1(5) tl Suc.prems(2) have "settles now s q" by auto
      with False s1(2) show ?thesis by (simp add: settles_def)
    qed (use s1(6) in simp)
    have it: "case ?i of None \<Rightarrow> due_now now s1 = [] | Some r \<Rightarrow> r \<in> set (timers s1) \<and> (due_now now s1 = [] \<or> r = hd (timers s1))"
    proof (cases l)
      case (Cons r l')
      have "due_now now s1 = [] \<or> r = hd (timers s1)"
      proof (cases ds)
        case (Cons d ds')
        obtain x xs where x: "timers s1 = x # xs" using s1(3) Cons by (cases "timers s1") (auto simp: due_now_def)
        have "filter (\<lambda>q. \<not> timer_less now (due_at s1 q)) (x # xs) = d # ds'" using s1(3) Cons x unfolding due_now_def by metis
        moreover have "in_order (due_at s1) (x # xs)" using s1(1) x by (simp add: time_ok_def)
        ultimately have "d = x" by (rule due_first(1) [rotated])
        have "filter (\<lambda>q. \<not> timer_less now (due_at s q)) (r # l') = d # ds'" using ds Cons \<open>l = r # l'\<close> by metis
        moreover have "in_order (due_at s) (r # l')" using io \<open>l = r # l'\<close> by (simp add: in_order_def)
        ultimately have "d = r" by (rule due_first(1) [rotated])
        then show ?thesis using x \<open>d = x\<close> by simp
      qed (use s1(3) in simp)
      then show ?thesis using Cons s1(4) by simp
    qed (use ds s1(3) in simp)
    have len: "length (due_now now s1) < n" using s1(3) Suc.prems(3) Cons by simp
    have "\<forall>q \<in> set (timers s1). settles now s1 q" using set1 by blast
    from Suc.IH [OF s1(1) this len it, of "step (callback_of s p) w", unfolded s1(3)]
    obtain s' where s': "process_loop n (plain_exec step) now ?i (step (callback_of s p) w, s1)
        = Inr (fold (\<lambda>p. step (callback_of s1 p)) ds (step (callback_of s p) w), s')" "time_ok s'" "due_now now s' = []"
        "set (timers s1) - set ds \<subseteq> set (timers s')" "\<forall>q \<in> set ds. \<not> tm_persistent (the (smap_find q (store s1))) \<longrightarrow> \<not> live s' q"
        "\<forall>q. q \<notin> set ds \<longrightarrow> smap_find q (store s') = smap_find q (store s1)" by blast
    have dp: "deref p s = Inr (the (smap_find p (store s)))" "due_at s p = tm_timeout (the (smap_find p (store s)))"
      using deref_live [of s p] Suc.prems(1) tl by (auto simp: time_ok_def)
    have "process_loop (Suc n) (plain_exec step) now i (w, s) = Inr (fold (\<lambda>p. step (callback_of s p)) (due_now now s) w, s')"
      using f s'(1) dp tl nd i Cons cb by simp
    moreover have "\<not> live s' p" if "\<not> live s1 p"
      using that s'(6) dsl dist by (auto simp: live_def smap_count_def)
    moreover have "\<forall>q \<in> set ds. smap_find q (store s1) = smap_find q (store s)" using s1(2) dsl dist by (metis subsetD)
    ultimately show ?thesis using s' s1 Cons tl dist dsl
      by (intro exI [of _ s']) auto
  qed
qed simp

lemma time_process_fires:
  fixes s :: "'cb tmgr"
  assumes "time_ok s" and "\<forall>p \<in> set (timers s). settles now s p" and "length (due_now now s) < n"
  shows "\<exists>s'. time_process n (plain_exec step) now (w, s) = Inr (fold (\<lambda>p. step (callback_of s p)) (due_now now s) w, s')
    \<and> time_ok s' \<and> due_now now s' = [] \<and> set (timers s) - set (due_now now s) \<subseteq> set (timers s')
    \<and> (\<forall>q \<in> set (due_now now s). \<not> tm_persistent (the (smap_find q (store s))) \<longrightarrow> \<not> live s' q)"
proof (cases "timers s")
  case Nil
  with assms(1) show ?thesis by (simp add: time_process_def time_empty_def due_now_def)
next
  case (Cons p l)
  with process_fires [OF assms, of "Some p" step w] show ?thesis by (auto simp: time_process_def time_empty_def)
qed

section \<open>Callbacks that set timers\<close>

text \<open>
  What the loop of \<open>process\<close> needs of a callback: it keeps the manager in order and puts no timer
  into the set that was allocated before and not in it, the one being fired above all. Callbacks
  that leave the manager alone and callbacks that set timers are of this kind; one that removes the
  timer being fired is not.
\<close>

definition keeps :: "('cb, 'w) exec \<Rightarrow> bool" where
  "keeps exec =
     (\<forall>cb w s w' s'. time_ok s \<longrightarrow> exec cb (w, s) = Inr (w', s') \<longrightarrow>
        time_ok s' \<and> (\<forall>p. live s p \<and> p \<notin> set (timers s) \<longrightarrow> p \<notin> set (timers s')))"

lemma keeps_plain: "keeps (plain_exec step)"
  by (simp add: keeps_def plain_exec_def)

lemma set_timer_keeps:
  assumes ok: "time_ok s" and env: "env_ok env" and r: "set_timer env now sec usec per f s = Inr (i, s')"
  shows "time_ok s' \<and> \<not> smap_count i (idtimer s) \<and> (\<forall>p. live s p \<and> p \<notin> set (timers s) \<longrightarrow> p \<notin> set (timers s'))"
proof -
  from r obtain s1 where g: "get_id s = Inr (i, s1)" by (auto simp: set_timer_def bind_res_eq_Inr Let_def)
  note st = set_timer_ok(1,2) [OF ok env g, where sec = sec and usec = usec and now = now and per = per and f = f]
  define p where "p = new_addr env (map fst (store s))"
  obtain s2 where s2: "s' = s2\<lparr>timers := ord_ins (due_at s2) p (timers s)\<rparr>" "time_ok s'" "\<not> live s p"
    using st set_timer_ok(3) [OF ok env g] r unfolding p_def by auto
  have "set (ord_ins d p l) \<subseteq> insert p (set l)" for d :: "nat \<Rightarrow> timeval" and l by (induction l) auto
  then have "set (timers s') \<subseteq> insert p (set (timers s))" by (simp add: s2(1))
  then show ?thesis using s2 get_id_ok [OF ok g] by auto
qed

lemma fire_keeps:
  assumes ok: "time_ok s" and k: "keeps exec" and r: "fire exec now p (w, s) = Inr (i, w', s')"
  shows "time_ok s'"
proof -
  from r obtain ti w1 s1 where t: "deref p s = Inr ti"
    and e: "exec (tm_callback ti) (w, s\<lparr>timers := filter (\<lambda>q. q \<noteq> p) (timers s)\<rparr>) = Inr (w1, s1)" and rest: "fire_end now p s1 = Inr s'"
    by (auto simp: fire_def bind_res_eq_Inr)
  from rest obtain t1 where d: "deref p s1 = Inr t1" by (cases "deref p s1") (simp_all add: fire_end_def)
  have "time_ok (s\<lparr>timers := filter (\<lambda>q. q \<noteq> p) (timers s)\<rparr>)" using ok by (auto simp: time_ok_def in_order_filter)
  note k1 = k [unfolded keeps_def, rule_format, OF this e]
  have "live s p" using t by (auto simp: deref_def live_def smap_count_def split: option.splits)
  then have s1: "time_ok s1" "p \<notin> set (timers s1)" using k1 by simp_all
  have l1: "live s1 p" using d by (auto simp: deref_def live_def smap_count_def split: option.splits)
  have o1: "in_order (due_at s1) (timers s1)" "\<forall>q \<in> set (timers s1). live s1 q" "smap_ok (store s1)" using s1(1) by (auto simp: time_ok_def)
  show ?thesis
  proof (cases "tm_persistent t1")
    case False
    then have s': "s' = s1\<lparr>idtimer := smap_erase (tm_id t1) (idtimer s1), store := smap_erase p (store s1)\<rparr>"
      using rest d by (auto simp: fire_end_def delete_timer_def bind_res_eq_Inr)
    have q: "live s' q" "due_at s' q = due_at s1 q" if "q \<in> set (timers s1)" for q
      using that s1(2) o1 by (auto simp: s' live_def smap_count_def due_at_def smap_find_erase)
    have "in_order (due_at s') (timers s1)" using o1(1) by (rule in_order_transfer) (rule q(2))
    then show ?thesis using s1(1) q(1) set_smap_erase [of "tm_id t1" "idtimer s1"] by (auto simp: time_ok_def s')
  next
    case True
    let ?s2 = "s1\<lparr>store := smap_set p (t1\<lparr>tm_timeout := timeradd now (tm_tv t1)\<rparr>) (store s1)\<rparr>"
    have s': "s' = ?s2\<lparr>timers := ord_ins (due_at ?s2) p (timers s1)\<rparr>"
      using rest d True timers_insert_eq [of ?s2 p] o1 s1(2) by (simp add: fire_end_def)
    have io: "in_order (due_at ?s2) (timers s1)" using o1(1) by (rule in_order_transfer) (use s1(2) in auto)
    have due: "due_at s' = due_at ?s2" "live s' = live ?s2" by (simp_all add: s' due_at_def live_def fun_eq_iff)
    have "set (timers s') \<subseteq> insert p (set (timers s1))" using ord_ins_set [OF io, of p] by (auto simp: s')
    then have "\<forall>q \<in> set (timers s'). live s' q" using o1(2) unfolding due by auto
    moreover have "in_order (due_at s') (timers s')" unfolding due using ord_ins_order [OF io, of p] by (simp add: s')
    ultimately show ?thesis using s1(1) by (simp add: time_ok_def s')
  qed
qed

lemma process_loop_keeps:
  assumes "time_ok (snd ws)" and "keeps exec" and "process_loop n exec now i ws = Inr ws'"
  shows "time_ok (snd ws')"
  using assms
proof (induction n exec now i ws rule: process_loop.induct)
  case (3 n exec now p ws)
  from "3.prems"(3) obtain ti where p: "p \<in> set (timers (snd ws))" "deref p (snd ws) = Inr ti"
    by (auto simp: bind_res_eq_Inr split: if_splits)
  show ?case
  proof (cases "timer_less now (tm_timeout ti)")
    case False
    with "3.prems"(3) p obtain j ws1 where f: "fire exec now p ws = Inr (j, ws1)" "process_loop n exec now j ws1 = Inr ws'"
      by (auto simp: bind_res_eq_Inr)
    have "time_ok (snd ws1)" using fire_keeps [of "snd ws" exec now p "fst ws" j "fst ws1" "snd ws1"] "3.prems"(1,2) f(1) by simp
    then show ?thesis using "3.IH" [OF p False f(1)] f(2) "3.prems"(2) by simp
  qed (use "3.prems" p in simp)
qed auto

text \<open>A callback that sets a timer, for instance itself again, is of this kind.\<close>

definition setting_exec :: "time_env \<Rightarrow> timeval \<Rightarrow> int \<Rightarrow> ('cb, 'w) exec" where
  "setting_exec env now sec cb ws = bind_res (set_timer env now sec 0 False cb (snd ws)) (\<lambda>(i, s). Inr (fst ws, s))"

lemma keeps_setting:
  assumes "env_ok env"
  shows "keeps (setting_exec env now sec)"
  unfolding keeps_def setting_exec_def by (auto simp: bind_res_eq_Inr dest: set_timer_keeps [OF _ assms])

section \<open>What callbacks keep, processing keeps\<close>

definition exec_keeps :: "fault set \<Rightarrow> ('w \<Rightarrow> bool) \<Rightarrow> ('cb, 'w) exec \<Rightarrow> bool" where
  "exec_keeps F P exec = (\<forall>cb w s. P w \<longrightarrow> outcome F (\<lambda>ws. P (fst ws)) (exec cb (w, s)))"

lemma next_node_safe: "BadAccess \<in> F \<Longrightarrow> outcome F (\<lambda>_. True) (next_node p l)"
  by (induction l) auto

lemma set_ops_safe:
  "BadAccess \<in> F \<Longrightarrow> outcome F (\<lambda>_. True) (set_insert s p k l)"
  "BadAccess \<in> F \<Longrightarrow> outcome F (\<lambda>_. True) (fire_end now p s)"
proof -
  assume b: "BadAccess \<in> F"
  have ins: "outcome F (\<lambda>_. True) (set_insert s p k l)" for s :: "'a tmgr" and p k l
  proof (induction l)
    case (Cons q l)
    then show ?case using b by (auto simp: deref_def split: option.splits intro: safe_bind [where Q = "\<lambda>_. True"])
  qed simp
  then show "outcome F (\<lambda>_. True) (set_insert s p k l)" .
  show "outcome F (\<lambda>_. True) (fire_end now p s)" for s :: "'a tmgr"
    using b by (auto simp: fire_end_def deref_def delete_timer_def timers_insert_def split: option.splits
        intro!: safe_bind [where Q = "\<lambda>_. True"] ins)
qed

lemma fire_world:
  assumes e: "exec_keeps F P exec" and b: "BadAccess \<in> F" and P: "P (fst ws)"
  shows "outcome F (\<lambda>(i, ws'). P (fst ws')) (fire exec now p ws)"
proof -
  obtain w s where ws: "ws = (w, s)" by (cases ws)
  have d: "outcome F (\<lambda>_. True) (deref p s)" using b by (simp add: deref_def split: option.splits)
  have x: "outcome F (\<lambda>ws. P (fst ws)) (exec cb (w, s'))" for cb s' using e P ws by (simp add: exec_keeps_def)
  show ?thesis unfolding fire_def ws
    by (simp, intro safe_bind [OF next_node_safe [OF b]] safe_bind [OF d])
      (rule safe_bind [OF x], auto intro!: safe_bind [OF set_ops_safe(2) [OF b]])
qed

lemma process_loop_world:
  assumes e: "exec_keeps F P exec" and b: "BadAccess \<in> F" "NoReturn \<in> F"
  shows "P (fst ws) \<Longrightarrow> outcome F (\<lambda>ws'. P (fst ws')) (process_loop n exec now i ws)"
  using e
proof (induction n exec now i ws rule: process_loop.induct)
  case (3 n exec now p ws)
  show ?case
  proof (cases "p \<in> set (timers (snd ws))")
    case True
    show ?thesis
    proof (cases "deref p (snd ws)")
      case (Inr ti)
      have "outcome F (\<lambda>ws'. P (fst ws')) (bind_res (fire exec now p ws) (\<lambda>(i, ws'). process_loop n exec now i ws'))"
        if nt: "\<not> timer_less now (tm_timeout ti)"
      proof (cases "fire exec now p ws")
        case (Inr x)
        obtain j ws1 where x: "x = (j, ws1)" by (cases x)
        have "P (fst ws1)" using fire_world [OF "3.prems"(2) b(1) "3.prems"(1), of now p] Inr x by simp
        then show ?thesis using "3.IH" [OF True \<open>deref p (snd ws) = Inr ti\<close> nt Inr [unfolded x]] "3.prems"(2) Inr x by simp
      qed (use fire_world [OF "3.prems"(2) b(1) "3.prems"(1), of now p] in simp)
      then show ?thesis using True Inr "3.prems"(1) by simp
    qed (use True b in \<open>auto simp: deref_def split: option.splits\<close>)
  qed (use b in simp)
qed (use b in simp_all)

lemma time_process_world:
  assumes "exec_keeps F P exec" and "BadAccess \<in> F" "NoReturn \<in> F" and "P (fst ws)"
  shows "outcome F (\<lambda>ws'. P (fst ws')) (time_process n exec now ws)"
  using assms process_loop_world [of F P exec ws] by (simp add: time_process_def)

lemma shortest_time_world:
  assumes "exec_keeps F P exec" and "BadAccess \<in> F" "NoReturn \<in> F" and "P (fst ws)"
  shows "outcome F (\<lambda>(r, ws'). P (fst ws')) (shortest_time n exec now1 now2 ws)"
  unfolding shortest_time_def
  by (rule safe_bind [OF time_process_world [OF assms]])
    (use assms(2) in \<open>auto simp: deref_def Let_def split: option.splits\<close>)

section \<open>Properties\<close>

text \<open>The managers that the public functions build, with callbacks as above.\<close>

inductive time_reach :: "time_env \<Rightarrow> 'cb tmgr \<Rightarrow> bool" for env where
  reach_new: "time_reach env time_new"
| reach_set: "time_reach env s \<Longrightarrow> set_timer env now sec usec per f s = Inr (i, s') \<Longrightarrow> time_reach env s'"
| reach_persistent: "time_reach env s \<Longrightarrow> set_persistent i s = Inr s' \<Longrightarrow> time_reach env s'"
| reach_remove: "time_reach env s \<Longrightarrow> time_remove i s = Inr s' \<Longrightarrow> time_reach env s'"
| reach_process: "time_reach env s \<Longrightarrow> keeps (exec :: ('cb, nat) exec) \<Longrightarrow> time_process n exec now (w, s) = Inr (w', s') \<Longrightarrow> time_reach env s'"


text \<open>C17.
  When the callbacks leave the manager alone (\<open>plain_exec\<close>) and no persistent timer has an interval so short that
  it is due again at the same instant (\<open>settles\<close>),
  \<open>process\<close> runs the callbacks of exactly the timers that are due, each once, in the order of their
  timeouts, and returns with none due; timers that were not due stay in the set, and a timer that
  is not persistent is deleted once it has fired. One round of the loop per due timer is enough.
\<close>
theorem process_fires_due:
  fixes s :: "'cb tmgr"
  assumes "time_ok s" and "\<forall>p \<in> set (timers s). settles now s p" and "length (due_now now s) < n"
  shows "\<exists>s'. time_process n (plain_exec step) now (w, s) = Inr (fold (\<lambda>p. step (callback_of s p)) (due_now now s) w, s')
    \<and> time_ok s' \<and> due_now now s' = [] \<and> set (timers s) - set (due_now now s) \<subseteq> set (timers s')
    \<and> (\<forall>q \<in> set (due_now now s). \<not> tm_persistent (the (smap_find q (store s))) \<longrightarrow> \<not> live s' q)"
  using assms by (rule time_process_fires)

text \<open>
  \<open>set_timer\<close> returns a fresh id and registers a new timer with timeout now plus the interval; the
  timer enters the set exactly when no timer of the set has that timeout. When one has, the set is
  unchanged: the new timer never fires, although the caller holds an id for it.
\<close>
theorem set_timer_inserts:
  fixes s :: "'cb tmgr"
  assumes ok: "time_ok s" and env: "env_ok env" and r: "set_timer env now sec usec per f s = Inr (i, s')"
  shows "\<exists>p. \<not> live s p \<and> smap_find i (idtimer s') = Some p \<and> due_at s' p = timeradd now (sec, usec) \<and> callback_of s' p = f
    \<and> set (timers s') = (if timeradd now (sec, usec) \<in> due_at s ` set (timers s) then set (timers s) else insert p (set (timers s)))"
proof -
  from r obtain s1 where g: "get_id s = Inr (i, s1)" by (auto simp: set_timer_def bind_res_eq_Inr Let_def)
  define p where "p = new_addr env (map fst (store s))"
  define s2 where "s2 = s1\<lparr>idtimer := smap_set i p (idtimer s), store := smap_set p
    \<lparr>tm_id = junk env p, tm_tv = (sec, usec), tm_timeout = timeradd now (sec, usec), tm_persistent = per, tm_callback = f\<rparr> (store s)\<rparr>"
  note st = set_timer_ok(1,2,5) [OF ok env g, where sec = sec and usec = usec and now = now and per = per and f = f, folded p_def, folded s2_def]
  have s': "s' = s2\<lparr>timers := ord_ins (due_at s2) p (timers s)\<rparr>" using st(1) r by simp
  have nl: "\<not> live s p" using set_timer_ok(3) [OF ok env g] by (simp add: p_def)
  have okl: "\<forall>q \<in> set (timers s). live s q" "in_order (due_at s) (timers s)" using ok by (auto simp: time_ok_def)
  have due: "due_at s2 q = due_at s q" if "q \<in> set (timers s)" for q
    using that okl(1) nl by (auto simp: s2_def due_at_def smap_find_set)
  have io: "in_order (due_at s2) (timers s)" using okl(2) by (rule in_order_transfer) (rule due)
  have im: "due_at s2 ` set (timers s) = due_at s ` set (timers s)" using due by (rule image_cong [OF refl])
  have "set (timers s') = (if timeradd now (sec, usec) \<in> due_at s ` set (timers s) then set (timers s) else insert p (set (timers s)))"
    using ord_ins_set [OF io, of p] st(3) im by (simp add: s')
  moreover have "smap_find i (idtimer s') = Some p" "callback_of s' p = f" by (simp_all add: s' s2_def callback_of_def smap_find_set)
  ultimately show ?thesis using nl st(3) by (intro exI [of _ p]) (simp add: s')
qed

text \<open>
  Removing a timer that shares its timeout with another one takes the other one out of the set
  instead: the timer that was to fire never does, and it is not freed.
\<close>
theorem remove_cancels_other:
  fixes s :: "'cb tmgr"
  assumes ok: "time_ok s" and tid: "smap_find tid (idtimer s) = Some p" and "live s p" and "q \<in> set (timers s)" "q \<noteq> p" "due_at s q = due_at s p"
  shows "\<exists>s'. time_remove tid s = Inr s' \<and> q \<notin> set (timers s') \<and> live s' q"
proof -
  have "smap_ok (store s)" "live s q" using ok assms(4) by (auto simp: time_ok_def)
  moreover obtain t where "deref p s = Inr t" using deref_live [OF assms(3)] by blast
  then have "time_remove tid s = Inr (s\<lparr>timers := filter (\<lambda>q. due_at s q \<noteq> due_at s p) (timers s),
      idtimer := smap_erase tid (idtimer s), store := smap_erase p (store s)\<rparr>)"
    using tid timers_erase_eq [OF ok assms(3)] by (simp add: time_remove_def delete_timer_def deref_def)
  ultimately show ?thesis using assms(5,6) by (simp add: live_def smap_count_def smap_find_erase)
qed

text \<open>
  The id of a timer that has fired once stays registered, because \<open>process\<close> unregisters the member
  \<open>id\<close>, which \<open>set_timer\<close> never writes: a later \<open>remove\<close> or \<open>set_persistent\<close> with the id follows a
  pointer to the deleted timer.
\<close>
theorem fired_id_dangles:
  fixes s :: "'cb tmgr"
  assumes ok: "time_ok s" and tid: "smap_find tid (idtimer s) = Some p" and l: "timers s = [p]"
    and t: "smap_find p (store s) = Some t" "\<not> tm_persistent t" "tm_id t \<noteq> tid" and due: "\<not> timer_less now (tm_timeout t)"
  shows "\<exists>s'. time_process 1 (plain_exec step) now (w, s) = Inr (step (tm_callback t) w, s')
    \<and> time_remove tid s' = Inl BadAccess \<and> set_persistent tid s' = Inl BadAccess"
proof -
  have m: "smap_ok (idtimer s)" "smap_ok (store s)" using ok by (auto simp: time_ok_def)
  let ?s = "s\<lparr>timers := [], idtimer := smap_erase (tm_id t) (idtimer s), store := smap_erase p (store s)\<rparr>"
  have "time_process 1 (plain_exec step) now (w, s) = Inr (step (tm_callback t) w, ?s)"
    using l t due by (simp add: time_process_def time_empty_def fire_def fire_end_def deref_def plain_exec_def delete_timer_def)
  moreover have "time_remove tid ?s = Inl BadAccess" "set_persistent tid ?s = Inl BadAccess"
    using tid t(3) m by (simp_all add: time_remove_def set_persistent_def timers_erase_def deref_def smap_find_erase)
  ultimately show ?thesis by blast
qed

text \<open>C37.
  \<open>shortest_time\<close> returns -1 exactly when no timer is left after the due ones have fired; otherwise
  waiting for its result, in seconds, from the second reading of the clock passes the earliest
  timeout, and if it waits at all it wakes up in the second after the one of that timeout. As for
  \<open>process\<close>, the callbacks leave the manager alone and no persistent timer is due again at once; the
  distance must fit the type int.
\<close>
theorem shortest_time_bounds:
  fixes s :: "'cb tmgr"
  assumes "time_ok s" and "\<forall>p \<in> set (timers s). settles now1 s p" and "length (due_now now1 s) < n"
  shows "\<exists>r w' s'. shortest_time n (plain_exec step) now1 now2 (w, s) = Inr (r, w', s') \<and> due_now now1 s' = [] \<and>
    (r = -1 \<longleftrightarrow> timers s' = []) \<and>
    (\<forall>p l. timers s' = p # l \<longrightarrow> INT_MIN \<le> fst (due_at s' p) - fst now2 + 1 \<longrightarrow> fst (due_at s' p) - fst now2 + 1 \<le> INT_MAX \<longrightarrow>
       timer_less (due_at s' p) (fst now2 + r, snd now2) \<and> (r = 0 \<or> fst now2 + r = fst (due_at s' p) + 1))"
proof -
  obtain w' s' where p: "time_process n (plain_exec step) now1 (w, s) = Inr (w', s')" and s': "time_ok s'" "due_now now1 s' = []"
    using time_process_fires [OF assms, of step w] by blast
  show ?thesis
  proof (cases "timers s'")
    case Nil
    with p s' show ?thesis by (simp add: shortest_time_def time_empty_def)
  next
    case (Cons q l)
    then obtain t where t: "deref q s' = Inr t" "due_at s' q = tm_timeout t" using deref_live [of s' q] s'(1) by (auto simp: time_ok_def)
    let ?d = "fst (tm_timeout t) - fst now2 + 1"
    have "shortest_time n (plain_exec step) now1 now2 (w, s) = Inr (if 0 < to_int ?d then to_int ?d else 0, w', s')"
      using p Cons t by (simp add: shortest_time_def time_empty_def Let_def)
    then show ?thesis using s'(2) Cons t
      by (intro exI [of _ "if 0 < to_int ?d then to_int ?d else 0"] exI [of _ w'] exI [of _ s']) (auto simp: timer_less_def)
  qed
qed

section \<open>Examples\<close>

definition ex_env :: time_env where
  "ex_env = \<lparr>new_addr = (\<lambda>l. Suc (sum_list l)), junk = (\<lambda>_. -1)\<rparr>"

lemma ex_env_ok: "env_ok ex_env"
proof -
  have "Suc (sum_list l) \<notin> set l" for l :: "nat list" using member_le_sum_list [of _ l] by fastforce
  then show ?thesis by (simp add: env_ok_def ex_env_def)
qed

text \<open>Two one-shot timers set at second 100, for 5 seconds and, in the second manager, both for 5.\<close>

definition ex_tm :: "int \<Rightarrow> nat timer" where
  "ex_tm k = \<lparr>tm_id = -1, tm_tv = (k, 0), tm_timeout = (100 + k, 0), tm_persistent = False, tm_callback = 7\<rparr>"

definition ex_mgr :: "nat tmgr" where
  "ex_mgr = \<lparr>timers = [1], idtimer = [(0, 1)], maxid = 0, store = [(1, ex_tm 5)]\<rparr>"

definition ex_mgr2 :: "nat tmgr" where
  "ex_mgr2 = \<lparr>timers = [1], idtimer = [(0, 1), (1, 2)], maxid = 1, store = [(1, ex_tm 5), (2, ex_tm 5)]\<rparr>"

lemma ex_set1: "set_timer ex_env (100, 0) 5 0 False 7 time_new = Inr (0, ex_mgr)"
  by (simp add: set_timer_def get_id_def time_new_def Let_def ex_env_def timers_insert_def deref_def timeradd_def ex_mgr_def ex_tm_def)

lemma ex_set2: "set_timer ex_env (100, 0) 5 0 False 7 ex_mgr = Inr (1, ex_mgr2)"
  by (simp add: set_timer_def get_id_def ex_mgr_def ex_mgr2_def Let_def ex_env_def timers_insert_def deref_def timeradd_def ex_tm_def
      timer_less_def cint_def INT_MIN_def INT_MAX_def)

lemma ex_mgr_ok: "time_ok ex_mgr" "time_ok ex_mgr2"
  by (simp_all add: time_ok_def ex_mgr_def ex_mgr2_def live_def smap_count_def in_order_def INT_MAX_def)

lemma ex_reach: "time_reach ex_env ex_mgr2"
  using reach_set [OF reach_set [OF reach_new ex_set1] ex_set2] .


theorem process_fires_due_witness:
  "\<exists>s'. time_process 2 (plain_exec (#)) (105, 0) ([], ex_mgr) = Inr ([7], s') \<and> due_now (105, 0) s' = [] \<and> \<not> live s' 1"
proof -
  have "due_now (105, 0) ex_mgr = [1]" "callback_of ex_mgr 1 = 7" "settles (105, 0) ex_mgr 1" "timers ex_mgr = [1]"
    "smap_find 1 (store ex_mgr) = Some (ex_tm 5)" "\<not> tm_persistent (ex_tm 5)"
    by (simp_all add: due_now_def ex_mgr_def ex_tm_def due_at_def timer_less_def callback_of_def settles_def)
  with process_fires_due [of ex_mgr "(105, 0)" 2 "(#)" "[]"] ex_mgr_ok(1) show ?thesis by auto
qed

theorem set_timer_inserts_witness:
  "\<exists>p. \<not> live ex_mgr p \<and> smap_find 1 (idtimer ex_mgr2) = Some p \<and> p \<notin> set (timers ex_mgr2)"
proof -
  have "timeradd (100, 0) (5, 0) \<in> due_at ex_mgr ` set (timers ex_mgr)" "\<forall>p \<in> set (timers ex_mgr). live ex_mgr p"
    by (simp_all add: timeradd_def ex_mgr_def ex_tm_def due_at_def live_def smap_count_def)
  with set_timer_inserts [OF ex_mgr_ok(1) ex_env_ok ex_set2] show ?thesis by auto
qed

theorem remove_cancels_other_witness: "\<exists>s'. time_remove 1 ex_mgr2 = Inr s' \<and> 1 \<notin> set (timers s') \<and> live s' 1"
  by (rule remove_cancels_other [of ex_mgr2 1 2 1])
    (simp_all add: ex_mgr_ok, simp_all add: ex_mgr2_def live_def smap_count_def due_at_def)

theorem fired_id_dangles_witness:
  "\<exists>s'. time_process 1 (plain_exec (#)) (105, 0) ([], ex_mgr) = Inr ([7], s') \<and> time_remove 0 s' = Inl BadAccess \<and> set_persistent 0 s' = Inl BadAccess"
  using fired_id_dangles [of ex_mgr 0 1 "ex_tm 5" "(105, 0)" "(#)" "[]"] ex_mgr_ok(1) by (simp add: ex_mgr_def ex_tm_def timer_less_def)

theorem shortest_time_bounds_witness:
  "\<exists>r w' s'. shortest_time 1 (plain_exec (#)) (101, 0) (101, 5) ([], ex_mgr) = Inr (r, w', s') \<and> due_now (101, 0) s' = []"
proof -
  have "due_now (101, 0) ex_mgr = []" "settles (101, 0) ex_mgr 1" "timers ex_mgr = [1]"
    by (simp_all add: due_now_def ex_mgr_def ex_tm_def due_at_def timer_less_def settles_def)
  with shortest_time_bounds [of ex_mgr "(101, 0)" 1 "(#)" "(101, 5)" "[]"] ex_mgr_ok(1) show ?thesis by auto
qed

end
