(* ===== verification/Libio_Socket.thy ===== *)
theory Libio_Socket
  imports Libio_Prelude
begin

text \<open>
  The socket helpers of \<open>src/core/socket.hh\<close>. The system calls and the resolver are not part of the
  repository: the record \<open>sys\<close> holds one function per call, on a kernel state \<open>'k\<close> and socket
  addresses \<open>'a\<close>. The helpers are sequences of such calls with their early returns; what they print
  is left out. The theory shows what they release on every path.
\<close>

section \<open>Definitions\<close>

datatype fcntl_cmd = F_SETFL_NONBLOCK | F_SETFD_CLOEXEC

datatype sock_opt = SO_KEEPALIVE | SO_REUSEADDR | SO_OTHER int

datatype shut_how = SHUT_RD | SHUT_WR

text \<open>
  \<open>accept\<close> returns the descriptor and the peer, \<open>getnameinfo\<close> host and port as text or nothing on an
  error, \<open>getaddrinfo\<close> a list of addresses (its handle and first address) or nothing,
  \<open>getsockopt\<close> the return value and the option, \<open>read\<close> the bytes or nothing on an error. The last two
  calls are those of the HTTP server.
\<close>

record ('k, 'a) sys =
  s_write :: "int \<Rightarrow> string \<Rightarrow> 'k \<Rightarrow> int \<times> 'k"
  s_eventfd :: "'k \<Rightarrow> int \<times> 'k"
  s_fcntl :: "int \<Rightarrow> fcntl_cmd \<Rightarrow> 'k \<Rightarrow> int \<times> 'k"
  s_setsockopt :: "int \<Rightarrow> sock_opt \<Rightarrow> 'k \<Rightarrow> int \<times> 'k"
  s_getsockopt :: "int \<Rightarrow> nat \<Rightarrow> 'k \<Rightarrow> (int \<times> int) \<times> 'k"
  s_socketpair :: "'k \<Rightarrow> (int \<times> int) option \<times> 'k"
  s_socket :: "bool \<Rightarrow> 'k \<Rightarrow> int \<times> 'k"
  s_close :: "int \<Rightarrow> 'k \<Rightarrow> int \<times> 'k"
  s_bind :: "int \<Rightarrow> 'a \<Rightarrow> 'k \<Rightarrow> int \<times> 'k"
  s_connect :: "int \<Rightarrow> 'a \<Rightarrow> 'k \<Rightarrow> int \<times> 'k"
  s_listen :: "int \<Rightarrow> int \<Rightarrow> 'k \<Rightarrow> int \<times> 'k"
  s_accept :: "int \<Rightarrow> 'k \<Rightarrow> (int \<times> 'a) \<times> 'k"
  s_getnameinfo :: "'a \<Rightarrow> 'k \<Rightarrow> (string \<times> string) option \<times> 'k"
  s_getaddrinfo :: "string \<Rightarrow> string \<Rightarrow> 'k \<Rightarrow> (nat \<times> 'a) option \<times> 'k"
  s_freeaddrinfo :: "nat \<Rightarrow> 'k \<Rightarrow> 'k"
  s_inet :: "string \<Rightarrow> int \<Rightarrow> 'a"
  s_shutdown :: "int \<Rightarrow> shut_how \<Rightarrow> 'k \<Rightarrow> int \<times> 'k"
  s_read :: "int \<Rightarrow> nat \<Rightarrow> 'k \<Rightarrow> string option \<times> 'k"

definition sock_write :: "('k, 'a) sys \<Rightarrow> int \<Rightarrow> string \<Rightarrow> 'k \<Rightarrow> int \<times> 'k" where
  "sock_write y fd str k = s_write y fd str k"

definition create_eventfd :: "('k, 'a) sys \<Rightarrow> 'k \<Rightarrow> (int \<times> 'k) res" where
  "create_eventfd y k = (case s_eventfd y k of (fd, k1) \<Rightarrow> if fd < 0 then Inl Aborted else Inr (fd, k1))"

definition set_nonblock :: "('k, 'a) sys \<Rightarrow> int \<Rightarrow> 'k \<Rightarrow> int \<times> 'k" where
  "set_nonblock y fd k =
     (if fd < 0 then (-1, k)
      else case s_fcntl y fd F_SETFL_NONBLOCK k of (r1, k1) \<Rightarrow>
        if r1 = -1 then (-1, k1)
        else case s_fcntl y fd F_SETFD_CLOEXEC k1 of (r2, k2) \<Rightarrow>
          if r2 = -1 then (-1, k2) else (0, k2))"

definition set_socket :: "('k, 'a) sys \<Rightarrow> int \<Rightarrow> int \<Rightarrow> 'k \<Rightarrow> int \<times> 'k" where
  "set_socket y fd what k =
     (case s_setsockopt y fd (SO_OTHER what) k of (r, k1) \<Rightarrow> if r = -1 then (-1, k1) else (0, k1))"

definition get_socketpair :: "('k, 'a) sys \<Rightarrow> 'k \<Rightarrow> (int \<times> int) \<times> 'k" where
  "get_socketpair y k =
     (case s_socketpair y k of (None, k1) \<Rightarrow> ((-1, -1), k1) | (Some p, k1) \<Rightarrow> (p, k1))"

text \<open>\<open>check_socket\<close> passes the number \<open>sizeof(error)\<close>, 4, as the address of the option length.\<close>

definition check_socket :: "('k, 'a) sys \<Rightarrow> int \<Rightarrow> 'k \<Rightarrow> int \<times> 'k" where
  "check_socket y fd k =
     (case s_getsockopt y fd 4 k of ((r, error), k1) \<Rightarrow>
        if r = -1 then (-1, k1) else if error \<noteq> 0 then (-1, k1) else (0, k1))"

text \<open>The class \<open>tcp\<close>.\<close>

definition tcp_getaddrinfo :: "('k, 'a) sys \<Rightarrow> string \<Rightarrow> int \<Rightarrow> 'k \<Rightarrow> (nat \<times> 'a) option \<times> 'k" where
  "tcp_getaddrinfo y address port k = s_getaddrinfo y address (to_string port) k"

definition set_both :: "('k, 'a) sys \<Rightarrow> int \<Rightarrow> 'k \<Rightarrow> bool \<times> 'k" where
  "set_both y fd k =
     (case s_setsockopt y fd SO_KEEPALIVE k of (r1, k1) \<Rightarrow>
        if r1 < 0 then (False, k1)
        else case s_setsockopt y fd SO_REUSEADDR k1 of (r2, k2) \<Rightarrow> (0 \<le> r2, k2))"

definition tcp_bind :: "('k, 'a) sys \<Rightarrow> int \<Rightarrow> string \<Rightarrow> int \<Rightarrow> 'k \<Rightarrow> int \<times> 'k" where
  "tcp_bind y fd address port k =
     (if address = [] \<or> port = 0 then (-1, k)
      else case tcp_getaddrinfo y address port k of
        (None, k1) \<Rightarrow> (-1, k1)
      | (Some (h, a), k1) \<Rightarrow>
          (case set_both y fd k1 of (ok, k2) \<Rightarrow>
             if \<not> ok then (-1, s_freeaddrinfo y h k2)
             else case s_bind y fd a k2 of (r, k3) \<Rightarrow>
               if r = -1 then (-1, s_freeaddrinfo y h k3) else (0, s_freeaddrinfo y h k3)))"

definition bind_ipv4 :: "('k, 'a) sys \<Rightarrow> int \<Rightarrow> string \<Rightarrow> int \<Rightarrow> 'k \<Rightarrow> (int \<times> 'k) res" where
  "bind_ipv4 y fd address port k =
     (if fd = -1 then Inl (ExitCalled (-1))
      else case set_both y fd k of (ok, k1) \<Rightarrow>
        if \<not> ok then Inr (-1, k1)
        else case s_bind y fd (s_inet y address port) k1 of (r, k2) \<Rightarrow> Inr (if r < 0 then -1 else 0, k2))"

definition tcp_listen :: "('k, 'a) sys \<Rightarrow> int \<Rightarrow> 'k \<Rightarrow> (int \<times> 'k) res" where
  "tcp_listen y fd k =
     (if fd = -1 then Inl (ExitCalled (-1))
      else case s_listen y fd 128 k of (r, k1) \<Rightarrow> Inr (if r < 0 then -1 else 0, k1))"

definition bind_and_listen :: "('k, 'a) sys \<Rightarrow> int \<Rightarrow> string \<Rightarrow> int \<Rightarrow> 'k \<Rightarrow> (int \<times> 'k) res" where
  "bind_and_listen y fd address port k =
     (case tcp_bind y fd address port k of (r, k1) \<Rightarrow>
        if r = -1 then Inr (-1, snd (s_close y fd k1))
        else bind_res (tcp_listen y fd k1) (\<lambda>(r2, k2).
          if r2 = -1 then Inr (-1, snd (s_close y fd k2)) else Inr (0, k2)))"

definition tcp_accept1 :: "('k, 'a) sys \<Rightarrow> int \<Rightarrow> 'k \<Rightarrow> (int \<times> 'k) res" where
  "tcp_accept1 y fd k =
     (if fd = -1 then Inl (ExitCalled (-1))
      else case s_accept y fd k of ((connfd, _), k1) \<Rightarrow> Inr (if connfd < 0 then -1 else connfd, k1))"

text \<open>The other overload writes host and port, the port through \<open>std::stoi\<close> and \<open>unsigned short\<close>.\<close>

definition tcp_accept ::
  "('k, 'a) sys \<Rightarrow> int \<Rightarrow> string \<Rightarrow> int \<Rightarrow> 'k \<Rightarrow> (int \<times> string \<times> int \<times> 'k) res" where
  "tcp_accept y fd host port k =
     (case s_accept y fd k of ((sockfd, peer), k1) \<Rightarrow>
        if sockfd = -1 then Inr (-1, host, port, k1)
        else case s_getnameinfo y peer k1 of
          (None, k2) \<Rightarrow> Inr (-1, host, port, k2)
        | (Some (ntop, strport), k2) \<Rightarrow>
            bind_res (stoi strport) (\<lambda>p. Inr (sockfd, ntop, p mod 65536, k2)))"

definition connect_fd :: "('k, 'a) sys \<Rightarrow> int \<Rightarrow> string \<Rightarrow> int \<Rightarrow> 'k \<Rightarrow> int \<times> 'k" where
  "connect_fd y fd address port k =
     (case tcp_getaddrinfo y address port k of
        (None, k1) \<Rightarrow> (-1, k1)
      | (Some (h, a), k1) \<Rightarrow>
          (case s_connect y fd a k1 of (r, k2) \<Rightarrow>
             if r = -1 then (-1, s_freeaddrinfo y h k2) else (0, s_freeaddrinfo y h k2)))"

definition connect_ipv4 :: "('k, 'a) sys \<Rightarrow> int \<Rightarrow> string \<Rightarrow> int \<Rightarrow> 'k \<Rightarrow> int \<times> 'k" where
  "connect_ipv4 y fd address port k =
     (case s_connect y fd (s_inet y address port) k of (r, k1) \<Rightarrow> (if r < 0 then -1 else 0, k1))"

definition get_socket :: "('k, 'a) sys \<Rightarrow> 'k \<Rightarrow> int \<times> 'k" where
  "get_socket y k = (case s_socket y False k of (fd, k1) \<Rightarrow> if fd < 0 then (-1, k1) else (fd, k1))"

text \<open>Despite its name the socket blocks: the type is \<open>SOCK_STREAM | SOCK_CLOEXEC\<close>.\<close>

definition get_nonblock_socket :: "('k, 'a) sys \<Rightarrow> 'k \<Rightarrow> int \<times> 'k" where
  "get_nonblock_socket y k = (case s_socket y True k of (fd, k1) \<Rightarrow> if fd < 0 then (-1, k1) else (fd, k1))"

definition tcp_connect :: "('k, 'a) sys \<Rightarrow> string \<Rightarrow> int \<Rightarrow> 'k \<Rightarrow> int \<times> 'k" where
  "tcp_connect y address port k =
     (case get_socket y k of (fd, k1) \<Rightarrow>
        case connect_fd y fd address port k1 of (r, k2) \<Rightarrow>
          if r = -1 then (-1, snd (s_close y fd k2)) else (fd, k2))"

section \<open>What the calls open and release\<close>

text \<open>
  The documented effect of the calls on the open descriptors and on the address lists that
  \<open>getaddrinfo\<close> has allocated: a call that fails opens nothing, a new descriptor was not open
  before, only \<open>close\<close> and \<open>freeaddrinfo\<close> release.
\<close>

definition sys_contract :: "('k, 'a) sys \<Rightarrow> ('k \<Rightarrow> int set) \<Rightarrow> ('k \<Rightarrow> nat set) \<Rightarrow> bool" where
  "sys_contract y fds ais =
     ((\<forall>fd opt k. let k' = snd (s_setsockopt y fd opt k) in fds k' = fds k \<and> ais k' = ais k) \<and>
      (\<forall>c k. case s_socket y c k of (fd, k') \<Rightarrow> ais k' = ais k \<and>
         (if fd < 0 then fd = -1 \<and> fds k' = fds k else fd \<notin> fds k \<and> fds k' = insert fd (fds k))) \<and>
      (\<forall>fd k. let k' = snd (s_close y fd k) in fds k' = fds k - {fd} \<and> ais k' = ais k) \<and>
      (\<forall>fd a k. let k' = snd (s_bind y fd a k) in fds k' = fds k \<and> ais k' = ais k) \<and>
      (\<forall>fd a k. let k' = snd (s_connect y fd a k) in fds k' = fds k \<and> ais k' = ais k) \<and>
      (\<forall>fd n k. let k' = snd (s_listen y fd n k) in fds k' = fds k \<and> ais k' = ais k) \<and>
      (\<forall>fd k. case s_accept y fd k of ((c, a), k') \<Rightarrow> ais k' = ais k \<and>
         (if c < 0 then c = -1 \<and> fds k' = fds k else c \<notin> fds k \<and> fds k' = insert c (fds k))) \<and>
      (\<forall>a k. let k' = snd (s_getnameinfo y a k) in fds k' = fds k \<and> ais k' = ais k) \<and>
      (\<forall>n p k. case s_getaddrinfo y n p k of
           (None, k') \<Rightarrow> fds k' = fds k \<and> ais k' = ais k
         | (Some (h, a), k') \<Rightarrow> fds k' = fds k \<and> h \<notin> ais k \<and> ais k' = insert h (ais k)) \<and>
      (\<forall>h k. fds (s_freeaddrinfo y h k) = fds k \<and> ais (s_freeaddrinfo y h k) = ais k - {h}))"

lemma sys_frame:
  assumes "sys_contract y fds ais"
  shows "s_setsockopt y fd opt k = (r, k1) \<Longrightarrow> fds k1 = fds k \<and> ais k1 = ais k"
    and "s_bind y fd a k = (r, k1) \<Longrightarrow> fds k1 = fds k \<and> ais k1 = ais k"
    and "s_connect y fd a k = (r, k1) \<Longrightarrow> fds k1 = fds k \<and> ais k1 = ais k"
    and "s_listen y fd n k = (r, k1) \<Longrightarrow> fds k1 = fds k \<and> ais k1 = ais k"
    and "s_getnameinfo y a k = (x, k1) \<Longrightarrow> fds k1 = fds k \<and> ais k1 = ais k"
    and "fds (snd (s_close y fd k)) = fds k - {fd} \<and> ais (snd (s_close y fd k)) = ais k"
    and "fds (s_freeaddrinfo y h k) = fds k \<and> ais (s_freeaddrinfo y h k) = ais k - {h}"
  using assms unfolding sys_contract_def Let_def by (metis snd_conv)+

lemma sys_open:
  assumes "sys_contract y fds ais"
  shows "s_socket y c k = (fd, k1) \<Longrightarrow> ais k1 = ais k \<and> (if fd < 0 then fd = -1 \<and> fds k1 = fds k else fd \<notin> fds k \<and> fds k1 = insert fd (fds k))"
    and "s_accept y j k = ((fd, a), k1) \<Longrightarrow> ais k1 = ais k \<and> (if fd < 0 then fd = -1 \<and> fds k1 = fds k else fd \<notin> fds k \<and> fds k1 = insert fd (fds k))"
    and "s_getaddrinfo y n p k = (None, k1) \<Longrightarrow> fds k1 = fds k \<and> ais k1 = ais k"
    and "s_getaddrinfo y n p k = (Some (h, b), k1) \<Longrightarrow> fds k1 = fds k \<and> h \<notin> ais k \<and> ais k1 = insert h (ais k)"
proof -
  have so: "case s_socket y c k of (fd, k') \<Rightarrow> ais k' = ais k \<and>
         (if fd < 0 then fd = -1 \<and> fds k' = fds k else fd \<notin> fds k \<and> fds k' = insert fd (fds k))"
    and ac: "case s_accept y j k of ((c, a), k') \<Rightarrow> ais k' = ais k \<and>
         (if c < 0 then c = -1 \<and> fds k' = fds k else c \<notin> fds k \<and> fds k' = insert c (fds k))"
    and ga: "case s_getaddrinfo y n p k of
           (None, k') \<Rightarrow> fds k' = fds k \<and> ais k' = ais k
         | (Some (h, a), k') \<Rightarrow> fds k' = fds k \<and> h \<notin> ais k \<and> ais k' = insert h (ais k)"
    using assms unfolding sys_contract_def by simp_all
  show "s_socket y c k = (fd, k1) \<Longrightarrow> ais k1 = ais k \<and> (if fd < 0 then fd = -1 \<and> fds k1 = fds k else fd \<notin> fds k \<and> fds k1 = insert fd (fds k))"
    using so by simp
  show "s_accept y j k = ((fd, a), k1) \<Longrightarrow> ais k1 = ais k \<and> (if fd < 0 then fd = -1 \<and> fds k1 = fds k else fd \<notin> fds k \<and> fds k1 = insert fd (fds k))"
    using ac by simp
  show "s_getaddrinfo y n p k = (None, k1) \<Longrightarrow> fds k1 = fds k \<and> ais k1 = ais k"
    "s_getaddrinfo y n p k = (Some (h, b), k1) \<Longrightarrow> fds k1 = fds k \<and> h \<notin> ais k \<and> ais k1 = insert h (ais k)"
    using ga by simp_all
qed

lemma set_both_frame:
  assumes c: "sys_contract y fds ais" and r: "set_both y fd k = (b, k')"
  shows "fds k' = fds k \<and> ais k' = ais k"
proof -
  obtain r1 k1 where 1: "s_setsockopt y fd SO_KEEPALIVE k = (r1, k1)" by (cases "s_setsockopt y fd SO_KEEPALIVE k")
  obtain r2 k2 where 2: "s_setsockopt y fd SO_REUSEADDR k1 = (r2, k2)" by (cases "s_setsockopt y fd SO_REUSEADDR k1")
  show ?thesis using r 1 2 sys_frame(1) [OF c 1] sys_frame(1) [OF c 2] by (auto simp: set_both_def split: if_splits)
qed

lemma bind_frame:
  assumes c: "sys_contract y fds ais" and r: "tcp_bind y fd address port k = (r, k')"
  shows "fds k' = fds k \<and> ais k' = ais k \<and> (r = 0 \<or> r = -1)"
proof (cases "tcp_getaddrinfo y address port k")
  case (Pair x k1)
  then have g: "s_getaddrinfo y address (to_string port) k = (x, k1)" by (simp add: tcp_getaddrinfo_def)
  show ?thesis
  proof (cases x)
    case None
    with sys_open(3) [OF c] g r Pair show ?thesis by (auto simp: tcp_bind_def split: if_splits)
  next
    case (Some ha)
    obtain h a where ha: "ha = (h, a)" by (cases ha)
    note o = sys_open(4) [OF c g [unfolded Some ha]]
    obtain ok k2 where s: "set_both y fd k1 = (ok, k2)" by (cases "set_both y fd k1")
    obtain q k3 where b: "s_bind y fd a k2 = (q, k3)" by (cases "s_bind y fd a k2")
    show ?thesis using r Pair Some ha s b o set_both_frame [OF c s] sys_frame(2) [OF c b] sys_frame(7) [OF c, of h]
      by (auto simp: tcp_bind_def split: if_splits)
  qed
qed

lemma connect_frame:
  assumes c: "sys_contract y fds ais" and r: "connect_fd y fd address port k = (r, k')"
  shows "fds k' = fds k \<and> ais k' = ais k \<and> (r = 0 \<or> r = -1)"
proof (cases "s_getaddrinfo y address (to_string port) k")
  case (Pair x k1)
  show ?thesis
  proof (cases x)
    case None
    with sys_open(3) [OF c] Pair r show ?thesis by (auto simp: connect_fd_def tcp_getaddrinfo_def)
  next
    case (Some ha)
    obtain h a where ha: "ha = (h, a)" by (cases ha)
    obtain q k2 where b: "s_connect y fd a k1 = (q, k2)" by (cases "s_connect y fd a k1")
    show ?thesis using r Pair Some ha b sys_open(4) [OF c Pair [unfolded Some ha]] sys_frame(3) [OF c b] sys_frame(7) [OF c, of h]
      by (auto simp: connect_fd_def tcp_getaddrinfo_def split: if_splits)
  qed
qed

lemma connect_opens:
  assumes c: "sys_contract y fds ais" and k: "-1 \<notin> fds k" and t: "tcp_connect y address port k = (r, k')"
  shows "ais k' = ais k \<and> (if r = -1 then fds k' = fds k else 0 \<le> r \<and> r \<notin> fds k \<and> fds k' = insert r (fds k))"
proof -
  obtain n k1 where s: "s_socket y False k = (n, k1)" by (cases "s_socket y False k")
  define m where "m = (if n < 0 then -1 else n)"
  obtain q k2 where cn: "connect_fd y m address port k1 = (q, k2)" by (cases "connect_fd y m address port k1")
  have "tcp_connect y address port k = (if q = -1 then (-1, snd (s_close y m k2)) else (m, k2))"
    using s cn by (cases "n < 0") (simp_all add: tcp_connect_def get_socket_def m_def)
  with t sys_open(1) [OF c s] connect_frame [OF c cn] sys_frame(6) [OF c, of m] k
  show ?thesis by (auto simp: m_def split: if_splits)
qed

section \<open>Properties\<close>

text \<open>C31.
  \<open>bind_and_listen\<close> and \<open>connect\<close> release what they take on every path: the address list of the
  resolver is always freed, a descriptor that was given is closed exactly when -1 is returned, and
  \<open>connect\<close> leaves one new descriptor open exactly when it succeeds, the one it returns.
\<close>
theorem socket_resources:
  assumes c: "sys_contract y fds ais" and fd: "fd \<noteq> -1" "-1 \<notin> fds k"
  shows "(\<exists>r k'. bind_and_listen y fd address port k = Inr (r, k') \<and> ais k' = ais k \<and> r \<in> {0, -1}
            \<and> fds k' = (if r = -1 then fds k - {fd} else fds k))
    \<and> (\<forall>r k'. tcp_connect y address port k = (r, k') \<longrightarrow> ais k' = ais k
            \<and> (if r = -1 then fds k' = fds k else r \<notin> fds k \<and> fds k' = insert r (fds k)))"
proof (intro conjI allI impI)
  obtain r1 k1 where b: "tcp_bind y fd address port k = (r1, k1)" by (cases "tcp_bind y fd address port k")
  obtain r2 k2 where l: "s_listen y fd 128 k1 = (r2, k2)" by (cases "s_listen y fd 128 k1")
  show "\<exists>r k'. bind_and_listen y fd address port k = Inr (r, k') \<and> ais k' = ais k \<and> r \<in> {0, -1}
            \<and> fds k' = (if r = -1 then fds k - {fd} else fds k)"
    using bind_frame [OF c b] sys_frame(4) [OF c l] sys_frame(6) [OF c, of fd] b l fd(1)
    by (auto simp: bind_and_listen_def tcp_listen_def)
next
  fix r k' assume t: "tcp_connect y address port k = (r, k')"
  with connect_opens [of y fds ais k address port r k'] c fd(2)
  show "ais k' = ais k" "if r = -1 then fds k' = fds k else r \<notin> fds k \<and> fds k' = insert r (fds k)"
    by (auto split: if_splits)
qed

text \<open>
  \<open>accept\<close> with host and port leaks a descriptor: when the peer's name cannot be resolved it returns
  -1 and the accepted connection stays open, known to nobody.
\<close>
theorem accept_leaks:
  assumes c: "sys_contract y fds ais" and a: "s_accept y fd k = ((s, peer), k1)" "0 \<le> s" and n: "s_getnameinfo y peer k1 = (None, k2)"
  shows "tcp_accept y fd host port k = Inr (-1, host, port, k2) \<and> s \<in> fds k2 \<and> s \<notin> fds k"
  using sys_open(2) [OF c a(1)] sys_frame(5) [OF c n] a n by (auto simp: tcp_accept_def)

section \<open>An example kernel\<close>

text \<open>Open descriptors and allocated address lists; every call succeeds but the name lookup.\<close>

definition fresh_fd :: "int list \<Rightarrow> int" where
  "fresh_fd l = 1 + sum_list (map abs l)"

definition ex_sys :: "(int list \<times> nat list, nat) sys" where
  "ex_sys = \<lparr>s_write = (\<lambda>fd s k. (int (length s), k)), s_eventfd = (\<lambda>(l, a). (fresh_fd l, fresh_fd l # l, a)),
    s_fcntl = (\<lambda>fd c k. (0, k)), s_setsockopt = (\<lambda>fd p k. (0, k)), s_getsockopt = (\<lambda>fd p k. ((-1, 0), k)),
    s_socketpair = (\<lambda>k. (None, k)), s_socket = (\<lambda>c (l, a). (fresh_fd l, fresh_fd l # l, a)),
    s_close = (\<lambda>fd (l, a). (0, filter (\<lambda>x. x \<noteq> fd) l, a)), s_bind = (\<lambda>fd a k. (0, k)), s_connect = (\<lambda>fd a k. (-1, k)),
    s_listen = (\<lambda>fd n k. (0, k)), s_accept = (\<lambda>fd (l, a). ((fresh_fd l, 0), fresh_fd l # l, a)), s_getnameinfo = (\<lambda>a k. (None, k)),
    s_getaddrinfo = (\<lambda>n p (l, a). (Some (Suc (sum_list a), 0), l, Suc (sum_list a) # a)),
    s_freeaddrinfo = (\<lambda>h (l, a). (l, filter (\<lambda>x. x \<noteq> h) a)), s_inet = (\<lambda>n p. 0), s_shutdown = (\<lambda>fd h k. (0, k)), s_read = (\<lambda>fd n k. (None, k))\<rparr>"

lemma fresh_fd: "0 < fresh_fd l" "fresh_fd l \<notin> set l"
proof -
  have nn: "0 \<le> sum_list (map abs l)" for l :: "int list" by (induction l) auto
  have "x \<in> set l \<Longrightarrow> \<bar>x\<bar> \<le> sum_list (map abs l)" for x :: int and l
  proof (induction l)
    case (Cons y l)
    then show ?case using nn [of l] by auto
  qed simp
  then show "fresh_fd l \<notin> set l" by (force simp: fresh_fd_def)
  show "0 < fresh_fd l" using nn [of l] by (simp add: fresh_fd_def)
qed

lemma ex_sys_contract: "sys_contract ex_sys (\<lambda>k. set (fst k)) (\<lambda>k. set (snd k))"
proof -
  have "Suc (sum_list a) \<notin> set a" for a :: "nat list" using member_le_sum_list [of _ a] by fastforce
  with fresh_fd show ?thesis unfolding sys_contract_def Let_def ex_sys_def by (auto simp: order.strict_iff_not)
qed

theorem socket_resources_witness:
  "(\<exists>r k'. bind_and_listen ex_sys 5 ''localhost'' 80 ([5], []) = Inr (r, k') \<and> snd k' = [] \<and> r \<in> {0, -1})
    \<and> (\<exists>k'. tcp_connect ex_sys ''localhost'' 80 ([5], []) = (-1, k') \<and> set (fst k') = {5})"
proof -
  note sr = socket_resources [OF ex_sys_contract, of 5 "([5], [])" "''localhost''" 80]
  have "fst (tcp_connect ex_sys ''localhost'' 80 ([5], [])) = -1"
    by (simp add: tcp_connect_def get_socket_def connect_fd_def tcp_getaddrinfo_def ex_sys_def fresh_fd_def)
  then obtain l a where "tcp_connect ex_sys ''localhost'' 80 ([5], []) = (-1, l, a)"
    by (cases "tcp_connect ex_sys ''localhost'' 80 ([5], [])") auto
  with sr show ?thesis by auto
qed

theorem accept_leaks_witness:
  "tcp_accept ex_sys 5 [] 0 ([5], []) = Inr (-1, [], 0, ([6, 5], [])) \<and> (6::int) \<in> set [6, 5] \<and> (6::int) \<notin> set [5]"
  using accept_leaks [OF ex_sys_contract, of 5 "([5], [])" 6 0 "([6, 5], [])" "([6, 5], [])" "[]" 0]
  by (simp add: ex_sys_def fresh_fd_def)

end
