(* ===== verification/Libio_Multiplexer.thy ===== *)
theory Libio_Multiplexer
  imports Libio_Map
begin

unbundle bit_operations_syntax

text \<open>
  What the reactor relies on from its template argument \<open>IoMultiplex\<close>, which is one of
  \<open>epoll\<close>, \<open>poll\<close> and \<open>select\<close> (\<open>src/core/\<close>): interest in reading and writing per
  descriptor, \<open>add\<close> and \<open>remove\<close> that change it, and \<open>listen\<close>, which does not. The
  locale states that contract once; each of the three theories interprets it on its model.
\<close>

section \<open>Event sets\<close>

definition RD :: int where
  "RD = 1"

definition WR :: int where
  "WR = 2"

definition RDWR :: int where
  "RDWR = RD OR WR"

definition has_rd :: "int \<Rightarrow> bool" where
  "has_rd m = (m AND RD \<noteq> 0)"

definition has_wr :: "int \<Rightarrow> bool" where
  "has_wr m = (m AND WR \<noteq> 0)"

text \<open>The event set with the given members.\<close>

definition rdwr_mask :: "bool \<Rightarrow> bool \<Rightarrow> int" where
  "rdwr_mask r w = (if r then RD else 0) OR (if w then WR else 0)"

lemma RDWR_3: "RDWR = 3"
  by (simp add: RDWR_def RD_def WR_def)

lemma has_rd_bit: "has_rd m = bit m 0"
proof -
  have "(m AND 1 \<noteq> 0) = bit m 0" by (simp add: and_one_eq bit_0 odd_iff_mod_2_eq_one)
  then show ?thesis by (simp add: has_rd_def RD_def)
qed

lemma has_wr_bit: "has_wr m = bit m 1"
proof -
  have "m AND 2 = (if bit m 1 then 2 else 0)"
    by (rule bit_eqI) (auto simp: bit_simps)
  then show ?thesis by (simp add: has_wr_def WR_def)
qed

lemma has_mask [simp]: "has_rd (rdwr_mask r w) = r" "has_wr (rdwr_mask r w) = w"
  by (simp_all add: rdwr_mask_def has_rd_def has_wr_def RD_def WR_def)

lemma has_or [simp]: "has_rd (m OR n) = (has_rd m \<or> has_rd n)" "has_wr (m OR n) = (has_wr m \<or> has_wr n)"
  by (simp_all add: has_rd_bit has_wr_bit bit_or_iff)

lemma has_const [simp]:
  "has_rd RD" "\<not> has_wr RD" "\<not> has_rd WR" "has_wr WR" "has_rd RDWR" "has_wr RDWR" "\<not> has_rd 0" "\<not> has_wr 0"
  by (simp_all add: has_rd_def has_wr_def RDWR_def RD_def WR_def)

lemma bit_RD: "bit RD n = (n = 0)" and bit_WR: "bit WR n = (n = 1)"
proof -
  show "bit WR n = (n = 1)" using bit_exp_iff [of 1 n, where 'a = int] by (auto simp: WR_def)
qed (simp add: RD_def bit_1_iff)

lemma and_RDWR: "m AND RDWR = rdwr_mask (has_rd m) (has_wr m)"
proof (rule bit_eqI)
  fix n :: nat
  have "n = 0 \<or> n = 1 \<or> 2 \<le> n" by linarith
  then show "bit (m AND RDWR) n = bit (rdwr_mask (has_rd m) (has_wr m)) n"
    by (auto simp: RDWR_def rdwr_mask_def has_rd_bit has_wr_bit bit_RD bit_WR bit_and_iff bit_or_iff)
qed

lemma mask_zero: "(rdwr_mask r w = 0) = (\<not> r \<and> \<not> w)"
  by (simp add: rdwr_mask_def RD_def WR_def)

lemma mask_cases: "rdwr_mask r w = (if r \<and> w then RDWR else if r then RD else if w then WR else 0)"
  by (simp add: rdwr_mask_def RDWR_def)

lemma mask_members: "m AND RDWR = m \<Longrightarrow> m = rdwr_mask (has_rd m) (has_wr m)"
  by (simp add: and_RDWR)

section \<open>The contract\<close>

locale io_multiplexer =
  fixes ok :: "'s \<Rightarrow> bool"
    and rd_set :: "int \<Rightarrow> 's \<Rightarrow> bool"
    and wr_set :: "int \<Rightarrow> 's \<Rightarrow> bool"
    and add :: "int \<Rightarrow> int \<Rightarrow> 's \<Rightarrow> (int \<times> 's) res"
    and remove :: "int \<Rightarrow> int \<Rightarrow> 's \<Rightarrow> (int \<times> 's) res"
  assumes add_law: "ok s \<Longrightarrow> t \<in> {RD, WR, RDWR} \<Longrightarrow> add fd t s = Inr (x, s') \<Longrightarrow>
      ok s' \<and> (\<forall>j. rd_set j s' = (rd_set j s \<or> x \<noteq> -1 \<and> j = fd \<and> has_rd t)
                 \<and> wr_set j s' = (wr_set j s \<or> x \<noteq> -1 \<and> j = fd \<and> has_wr t))"
    and remove_law: "ok s \<Longrightarrow> t \<in> {RD, WR, RDWR} \<Longrightarrow> remove fd t s = Inr (x, s') \<Longrightarrow>
      ok s' \<and> (\<forall>j. rd_set j s' = (rd_set j s \<and> \<not> (x \<noteq> -1 \<and> j = fd \<and> has_rd t))
                 \<and> wr_set j s' = (wr_set j s \<and> \<not> (x \<noteq> -1 \<and> j = fd \<and> has_wr t)))"
begin

lemma add_ok: "ok s \<Longrightarrow> t \<in> {RD, WR, RDWR} \<Longrightarrow> add fd t s = Inr (x, s') \<Longrightarrow> ok s'"
  and remove_ok: "ok s \<Longrightarrow> t \<in> {RD, WR, RDWR} \<Longrightarrow> remove fd t s = Inr (x, s') \<Longrightarrow> ok s'"
  using add_law remove_law by blast+

lemma add_then_remove:
  assumes "ok s" and t: "t \<in> {RD, WR, RDWR}" and "add fd t s = Inr (x, s1)" "x \<noteq> -1"
    and "remove fd t s1 = Inr (y, s2)" "y \<noteq> -1"
    and fresh: "\<not> (has_rd t \<and> rd_set fd s)" "\<not> (has_wr t \<and> wr_set fd s)"
  shows "ok s2 \<and> (\<forall>j. rd_set j s2 = rd_set j s \<and> wr_set j s2 = wr_set j s)"
  using add_law [OF assms(1) t assms(3)] remove_law [of s1 t fd y s2] assms t by auto

lemma add_commute:
  assumes "ok s" and t: "t \<in> {RD, WR, RDWR}" "u \<in> {RD, WR, RDWR}"
    and "add i t s = Inr (x1, s1)" "add j u s1 = Inr (x2, s2)" "x1 \<noteq> -1" "x2 \<noteq> -1"
    and "add j u s = Inr (y1, r1)" "add i t r1 = Inr (y2, r2)" "y1 \<noteq> -1" "y2 \<noteq> -1"
  shows "rd_set k s2 = rd_set k r2 \<and> wr_set k s2 = wr_set k r2"
  using add_law [OF assms(1) t(1) assms(4)] add_law [of s1 u j x2 s2] add_law [OF assms(1) t(2) assms(8)]
    add_law [of r1 t i y2 r2] assms by auto

lemma remove_other:
  assumes "ok s" and "t \<in> {RD, WR, RDWR}" and "remove fd t s = Inr (x, s')" and "j \<noteq> fd"
  shows "rd_set j s' = rd_set j s \<and> wr_set j s' = wr_set j s"
  using remove_law [OF assms(1-3)] assms(4) by blast

end

text \<open>
  \<open>listen\<close>, with the answer of the system call as an argument: it keeps the interest sets, and
  when the call reports events, every descriptor it reports was of interest and is readable or
  writeable afterwards.
\<close>

locale io_listener = io_multiplexer +
  fixes answers :: "'s \<Rightarrow> 'i \<Rightarrow> bool"
    and listen :: "'i \<Rightarrow> 's \<Rightarrow> (int \<times> 's) res"
    and active :: "'s \<Rightarrow> int list"
    and readable :: "int \<Rightarrow> 's \<Rightarrow> bool"
    and writeable :: "int \<Rightarrow> 's \<Rightarrow> bool"
  assumes listen_law: "ok s \<Longrightarrow> answers s i \<Longrightarrow> listen i s = Inr (n, s') \<Longrightarrow>
      ok s' \<and> (\<forall>j. rd_set j s' = rd_set j s \<and> wr_set j s' = wr_set j s)
      \<and> (0 < n \<longrightarrow> (\<forall>j \<in> set (active s'). (rd_set j s \<or> wr_set j s) \<and> (readable j s' \<or> writeable j s')))"
begin

lemma listen_active:
  assumes "ok s" "answers s i" "listen i s = Inr (n, s')" "0 < n" "j \<in> set (active s')"
  shows "rd_set j s' \<or> wr_set j s'" "readable j s' \<or> writeable j s'"
  using listen_law [OF assms(1-3)] assms(4,5) by auto

text \<open>A descriptor that was removed altogether before \<open>listen\<close> is not reported.\<close>

lemma removed_not_active:
  assumes "ok s" "remove fd RDWR s = Inr (x, s1)" "x \<noteq> -1" "answers s1 i" "listen i s1 = Inr (n, s2)" "0 < n"
  shows "fd \<notin> set (active s2)"
  using remove_law [OF assms(1) _ assms(2)] listen_law [of s1 i n s2] assms by auto

end

end
