(* ===== verification/Libio_Epoll.thy ===== *)
theory Libio_Epoll
  imports Libio_Multiplexer
begin

unbundle bit_operations_syntax

text \<open>
  The \<open>epoll\<close> back end of \<open>src/core/epoll.hh\<close>. The kernel is an argument: \<open>epoll_ctl\<close> is a
  function on a kernel state, seen through the interest list it keeps, and \<open>epoll_wait\<close> an
  answer that is given to \<open>listen\<close>; their documented behaviour is \<open>ctl_contract\<close> and
  \<open>wait_answer\<close>. The theory shows that the map \<open>events\<close> of the class mirrors the kernel's
  interest list after every call, also after one that failed.
\<close>

section \<open>Definitions\<close>

datatype ctl_op = EPOLL_CTL_ADD | EPOLL_CTL_MOD | EPOLL_CTL_DEL

definition EPOLLIN :: int where "EPOLLIN = 1"

definition EPOLLOUT :: int where "EPOLLOUT = 4"

definition EPOLLERR :: int where "EPOLLERR = 8"

definition EPOLLHUP :: int where "EPOLLHUP = 16"

text \<open>\<open>size\<close> is not initialised when \<open>getrlimit\<close> fails or gives no limit.\<close>

record 'k epoll =
  epfd :: int
  ep_events :: "(int, int) smap"
  ep_size :: "int option"
  ep_res :: "int option"
  ep_result :: "(int, int) smap"
  ep_active :: "int list"
  ep_kernel :: 'k

text \<open>The constructor; \<open>limit\<close> is \<open>rlim_cur\<close> unless it is infinite or the call failed.\<close>

definition epoll_new :: "heap_env \<Rightarrow> int option \<Rightarrow> int \<Rightarrow> 'k \<Rightarrow> 'k epoll res" where
  "epoll_new e limit created k =
     (case limit of
        None \<Rightarrow> Inl Uninitialised
      | Some n \<Rightarrow>
          if 0 \<le> to_int n \<and> can_alloc e (to_int n * 12)
          then Inr \<lparr>epfd = created, ep_events = [], ep_size = Some (to_int n), ep_res = None, ep_result = [],
                    ep_active = [], ep_kernel = k\<rparr>
          else Inl BadAlloc)"

definition epoll_is_readset :: "int \<Rightarrow> 'k epoll \<Rightarrow> bool res" where
  "epoll_is_readset fd s =
     (if smap_count fd (ep_events s) then bind_res (smap_at fd (ep_events s)) (\<lambda>m. Inr (has_rd m)) else Inr False)"

definition epoll_is_writeset :: "int \<Rightarrow> 'k epoll \<Rightarrow> bool res" where
  "epoll_is_writeset fd s =
     (if smap_count fd (ep_events s) then bind_res (smap_at fd (ep_events s)) (\<lambda>m. Inr (has_wr m)) else Inr False)"

definition epoll_is_readable :: "int \<Rightarrow> 'k epoll \<Rightarrow> bool res" where
  "epoll_is_readable fd s =
     (if smap_count fd (ep_result s) then bind_res (smap_at fd (ep_result s)) (\<lambda>m. Inr (has_rd m)) else Inr False)"

definition epoll_is_writeable :: "int \<Rightarrow> 'k epoll \<Rightarrow> bool res" where
  "epoll_is_writeable fd s =
     (if smap_count fd (ep_result s) then bind_res (smap_at fd (ep_result s)) (\<lambda>m. Inr (has_wr m)) else Inr False)"

text \<open>\<open>if (event & RD) epev.events |= EPOLLIN; if (event & WR) epev.events |= EPOLLOUT;\<close>\<close>

definition to_epoll :: "int \<Rightarrow> int" where
  "to_epoll event = (if has_rd event then EPOLLIN else 0) OR (if has_wr event then EPOLLOUT else 0)"

type_synonym 'k epoll_ctl = "int \<Rightarrow> ctl_op \<Rightarrow> int \<Rightarrow> int \<Rightarrow> 'k \<Rightarrow> int \<times> 'k"

definition epoll_add :: "'k epoll_ctl \<Rightarrow> int \<Rightarrow> int \<Rightarrow> 'k epoll \<Rightarrow> int \<times> 'k epoll" where
  "epoll_add ctl fd type s =
     (if fd < 0 \<or> type \<le> 0 then (-1, s)
      else
        case smap_index 0 fd (ep_events s) of (old, ev) \<Rightarrow>
          let s1 = s\<lparr>ep_events := ev\<rparr> in
          if old = RDWR \<or> old = type then (1, s1)
          else
            let op = (if 0 < old then EPOLL_CTL_MOD else EPOLL_CTL_ADD);
                event = old OR type in
            case ctl (epfd s) op fd (to_epoll event) (ep_kernel s) of (r, k) \<Rightarrow>
              if r = -1 then (-1, s1\<lparr>ep_kernel := k\<rparr>)
              else (0, s1\<lparr>ep_kernel := k, ep_events := smap_set fd (event AND RDWR) ev\<rparr>))"

definition epoll_remove :: "'k epoll_ctl \<Rightarrow> int \<Rightarrow> int \<Rightarrow> 'k epoll \<Rightarrow> int \<times> 'k epoll" where
  "epoll_remove ctl fd type s =
     (if fd < 0 \<or> type \<le> 0 \<or> \<not> smap_count fd (ep_events s) then (-1, s)
      else
        case smap_index 0 fd (ep_events s) of (old, ev) \<Rightarrow>
          let s1 = s\<lparr>ep_events := ev\<rparr> in
          if type AND old = 0 then (1, s1)
          else
            let ty = type AND RDWR;
                op = (if old = RDWR \<and> ty \<noteq> RDWR then EPOLL_CTL_MOD else EPOLL_CTL_DEL);
                event = (if old = RDWR \<and> ty \<noteq> RDWR then (if ty = RD then WR else RD) else old) in
            case ctl (epfd s) op fd (to_epoll event) (ep_kernel s) of (r, k) \<Rightarrow>
              if r = -1 then (-1, s1\<lparr>ep_kernel := k\<rparr>)
              else (0, s1\<lparr>ep_kernel := k,
                          ep_events := (if op = EPOLL_CTL_MOD then smap_set fd event ev else smap_erase fd ev)\<rparr>))"

text \<open>One entry of \<open>epevents\<close>: hang-up and error count as readable and writeable.\<close>

definition from_epoll :: "int \<Rightarrow> int" where
  "from_epoll what =
     (let w = (if what AND (EPOLLHUP OR EPOLLERR) \<noteq> 0 then what OR (EPOLLIN OR EPOLLOUT) else what) in
      (if w AND EPOLLIN \<noteq> 0 then RD else 0) OR (if w AND EPOLLOUT \<noteq> 0 then WR else 0))"

fun epoll_collect :: "(int \<times> int) list \<Rightarrow> 'k epoll \<Rightarrow> 'k epoll" where
  "epoll_collect [] s = s"
| "epoll_collect ((fd, what) # evs) s =
     epoll_collect evs (s\<lparr>ep_result := smap_set fd (from_epoll what) (ep_result s),
                          ep_active := ep_active s @ [fd]\<rparr>)"

text \<open>
  \<open>listen\<close>; \<open>answer\<close> is what \<open>epoll_wait\<close> stored in \<open>epevents\<close>, \<open>None\<close> when it returned -1. On an
  error the previous \<open>result\<close> and \<open>activeFd\<close> stay.
\<close>

definition epoll_listen :: "(int \<times> int) list option \<Rightarrow> 'k epoll \<Rightarrow> int \<times> 'k epoll" where
  "epoll_listen answer s =
     (case answer of
        None \<Rightarrow> (-1, s\<lparr>ep_res := Some (-1)\<rparr>)
      | Some evs \<Rightarrow>
          (int (length evs),
           epoll_collect evs (s\<lparr>ep_res := Some (int (length evs)), ep_result := [], ep_active := []\<rparr>)))"

text \<open>
  The kernel as \<open>epoll_ctl(2)\<close> describes it: adding a descriptor that is present, and changing or
  deleting one that is not, are errors; an error changes nothing.
\<close>

definition ctl_contract :: "'k epoll_ctl \<Rightarrow> ('k \<Rightarrow> int \<Rightarrow> int option) \<Rightarrow> bool" where
  "ctl_contract ctl interest =
     (\<forall>ep op fd m k r k'. ctl ep op fd m k = (r, k') \<longrightarrow>
        r = -1 \<and> interest k' = interest k
        \<or> r = 0 \<and> (case op of
             EPOLL_CTL_ADD \<Rightarrow> interest k fd = None \<and> interest k' = (interest k)(fd \<mapsto> m)
           | EPOLL_CTL_MOD \<Rightarrow> interest k fd \<noteq> None \<and> interest k' = (interest k)(fd \<mapsto> m)
           | EPOLL_CTL_DEL \<Rightarrow> interest k fd \<noteq> None \<and> interest k' = (interest k)(fd := None)))"

text \<open>Every reported descriptor is registered, at most once, with at least one of the four events.\<close>

definition wait_answer :: "('k \<Rightarrow> int \<Rightarrow> int option) \<Rightarrow> 'k epoll \<Rightarrow> (int \<times> int) list option \<Rightarrow> bool" where
  "wait_answer interest s answer =
     (case answer of None \<Rightarrow> True
      | Some evs \<Rightarrow> distinct (map fst evs) \<and>
          (\<forall>(fd, what) \<in> set evs. interest (ep_kernel s) fd \<noteq> None \<and> from_epoll what \<noteq> 0))"

text \<open>The invariant: the map mirrors the kernel; an entry 0 is left behind by a failed \<open>add\<close>.\<close>

fun entry_view :: "int option \<Rightarrow> int option" where
  "entry_view None = None"
| "entry_view (Some m) = (if m = 0 then None else Some (to_epoll m))"

definition epoll_ok :: "('k \<Rightarrow> int \<Rightarrow> int option) \<Rightarrow> 'k epoll \<Rightarrow> bool" where
  "epoll_ok interest s =
     (smap_ok (ep_events s) \<and> smap_ok (ep_result s) \<and>
      (\<forall>fd m. smap_find fd (ep_events s) = Some m \<longrightarrow> m AND RDWR = m) \<and>
      (\<forall>fd. interest (ep_kernel s) fd = entry_view (smap_find fd (ep_events s))))"

definition epoll_rd :: "int \<Rightarrow> 'k epoll \<Rightarrow> bool" where
  "epoll_rd fd s = (case smap_find fd (ep_events s) of None \<Rightarrow> False | Some m \<Rightarrow> has_rd m)"

definition epoll_wr :: "int \<Rightarrow> 'k epoll \<Rightarrow> bool" where
  "epoll_wr fd s = (case smap_find fd (ep_events s) of None \<Rightarrow> False | Some m \<Rightarrow> has_wr m)"

section \<open>The mirror invariant\<close>

lemma epoll_queries:
  "epoll_is_readset fd s = Inr (epoll_rd fd s)" "epoll_is_writeset fd s = Inr (epoll_wr fd s)"
  by (auto simp: epoll_is_readset_def epoll_is_writeset_def epoll_rd_def epoll_wr_def smap_count_def smap_at_def
      split: option.splits)

lemma epoll_index:
  assumes "epoll_ok interest s" and "smap_index 0 fd (ep_events s) = (old, ev)"
  shows "smap_ok ev" "smap_find fd ev = Some old" "\<And>j. j \<noteq> fd \<Longrightarrow> smap_find j ev = smap_find j (ep_events s)"
    "old = rdwr_mask (epoll_rd fd s) (epoll_wr fd s)"
    "interest (ep_kernel s) fd = entry_view (Some old)"
proof -
  have ok: "smap_ok (ep_events s)" "smap_find fd (ep_events s) = Some m \<Longrightarrow> m AND RDWR = m"
    "interest (ep_kernel s) fd = entry_view (smap_find fd (ep_events s))" for m
    using assms(1) by (auto simp: epoll_ok_def)
  show "smap_ok ev" "smap_find fd ev = Some old" "\<And>j. j \<noteq> fd \<Longrightarrow> smap_find j ev = smap_find j (ep_events s)"
    "interest (ep_kernel s) fd = entry_view (Some old)"
    using ok assms(2) by (auto simp: smap_index_def smap_find_set split: option.splits)
  show "old = rdwr_mask (epoll_rd fd s) (epoll_wr fd s)"
  proof (cases "smap_find fd (ep_events s)")
    case None
    then show ?thesis using assms(2) by (simp add: smap_index_def epoll_rd_def epoll_wr_def rdwr_mask_def)
  next
    case (Some m)
    then show ?thesis using assms(2) mask_members [OF ok(2) [OF Some]] by (simp add: smap_index_def epoll_rd_def epoll_wr_def)
  qed
qed

text \<open>Storing a new event set for one descriptor, in the map and in the kernel.\<close>

lemma epoll_ok_store:
  assumes ok: "epoll_ok interest s" and ev: "smap_ok ev" "\<And>j. j \<noteq> fd \<Longrightarrow> smap_find j ev = smap_find j (ep_events s)"
    and m: "smap_find fd ev = Some (rdwr_mask r w) \<or> smap_find fd ev = None \<and> \<not> r \<and> \<not> w"
    and k: "interest k = (interest (ep_kernel s))(fd := entry_view (Some (rdwr_mask r w)))"
  shows "epoll_ok interest (s\<lparr>ep_events := ev, ep_kernel := k\<rparr>) \<and>
    (\<forall>j. epoll_rd j (s\<lparr>ep_events := ev, ep_kernel := k\<rparr>) = (if j = fd then r else epoll_rd j s)
       \<and> epoll_wr j (s\<lparr>ep_events := ev, ep_kernel := k\<rparr>) = (if j = fd then w else epoll_wr j s))"
proof -
  have old: "smap_ok (ep_result s)" "smap_find i (ep_events s) = Some n \<Longrightarrow> n AND RDWR = n"
    "interest (ep_kernel s) i = entry_view (smap_find i (ep_events s))" for i n
    using ok by (auto simp: epoll_ok_def)
  have 1: "n AND RDWR = n" if "smap_find i ev = Some n" for i n
  proof (cases "i = fd")
    case True
    then show ?thesis using that m by (auto simp: and_RDWR)
  next
    case False
    then show ?thesis using that ev(2) old(2) by simp
  qed
  have 2: "interest k i = entry_view (smap_find i ev)" for i
  proof (cases "i = fd")
    case True
    then show ?thesis using m k by (auto simp: mask_zero)
  next
    case False
    then show ?thesis using ev(2) old(3) k by simp
  qed
  have 3: "epoll_rd j (s\<lparr>ep_events := ev, ep_kernel := k\<rparr>) = (if j = fd then r else epoll_rd j s)"
    "epoll_wr j (s\<lparr>ep_events := ev, ep_kernel := k\<rparr>) = (if j = fd then w else epoll_wr j s)" for j
    using m ev(2) by (auto simp: epoll_rd_def epoll_wr_def)
  show ?thesis using 1 2 3 ev(1) old(1) by (simp add: epoll_ok_def)
qed

lemma valid_type: "t \<in> {RD, WR, RDWR} \<Longrightarrow> 0 < t \<and> t = rdwr_mask (has_rd t) (has_wr t) \<and> (has_rd t \<or> has_wr t)"
  by (auto simp: mask_cases) (simp_all add: RD_def WR_def RDWR_3)

lemma mask_or: "rdwr_mask r w OR rdwr_mask r' w' = rdwr_mask (r \<or> r') (w \<or> w')"
  by (cases r; cases w; cases r'; cases w') (simp_all add: rdwr_mask_def RD_def WR_def)

lemma mask_eq [simp]: "(rdwr_mask r w = rdwr_mask r' w') = (r = r' \<and> w = w')"
proof
  assume "rdwr_mask r w = rdwr_mask r' w'"
  then have "has_rd (rdwr_mask r w) = has_rd (rdwr_mask r' w')" "has_wr (rdwr_mask r w) = has_wr (rdwr_mask r' w')" by simp_all
  then show "r = r' \<and> w = w'" by simp
qed simp

lemma mask_all [simp]: "(rdwr_mask r w = RDWR) = (r \<and> w)" "(0 < rdwr_mask r w) = (r \<or> w)"
  by (simp_all add: rdwr_mask_def RDWR_def RD_def WR_def)

lemma mask_and: "rdwr_mask r w AND rdwr_mask r' w' = rdwr_mask (r \<and> r') (w \<and> w')"
  by (cases r; cases w; cases r'; cases w') (simp_all add: rdwr_mask_def RD_def WR_def)

lemma ctl_cases:
  assumes "ctl_contract ctl interest" and "ctl ep op fd m k = (r, k')"
  shows "r = -1 \<and> interest k' = interest k
    \<or> r = 0 \<and> interest k' = (interest k)(fd := (if op = EPOLL_CTL_DEL then None else Some m))"
proof -
  from assms have "r = -1 \<and> interest k' = interest k
        \<or> r = 0 \<and> (case op of
             EPOLL_CTL_ADD \<Rightarrow> interest k fd = None \<and> interest k' = (interest k)(fd \<mapsto> m)
           | EPOLL_CTL_MOD \<Rightarrow> interest k fd \<noteq> None \<and> interest k' = (interest k)(fd \<mapsto> m)
           | EPOLL_CTL_DEL \<Rightarrow> interest k fd \<noteq> None \<and> interest k' = (interest k)(fd := None))"
    unfolding ctl_contract_def by blast
  then show ?thesis by (cases op) auto
qed

text \<open>The state after a call that stored nothing new.\<close>

lemma epoll_keep:
  assumes ok: "epoll_ok interest s" and oe: "smap_index 0 fd (ep_events s) = (old, ev)"
    and k: "interest k = interest (ep_kernel s)"
  shows "epoll_ok interest (s\<lparr>ep_events := ev, ep_kernel := k\<rparr>) \<and>
    (\<forall>j. epoll_rd j (s\<lparr>ep_events := ev, ep_kernel := k\<rparr>) = epoll_rd j s
       \<and> epoll_wr j (s\<lparr>ep_events := ev, ep_kernel := k\<rparr>) = epoll_wr j s)"
proof -
  note ix = epoll_index [OF ok oe]
  have "interest k = (interest (ep_kernel s))(fd := entry_view (Some (rdwr_mask (epoll_rd fd s) (epoll_wr fd s))))"
    using ix(4,5) k by auto
  from epoll_ok_store [OF ok ix(1,3) _ this] ix(2,4) show ?thesis by auto
qed

lemma epoll_add_law:
  assumes c: "ctl_contract ctl interest" and ok: "epoll_ok interest s" and t: "t \<in> {RD, WR, RDWR}"
    and add: "epoll_add ctl fd t s = (x, s')"
  shows "epoll_ok interest s' \<and> (\<forall>j. epoll_rd j s' = (epoll_rd j s \<or> x \<noteq> -1 \<and> j = fd \<and> has_rd t)
                 \<and> epoll_wr j s' = (epoll_wr j s \<or> x \<noteq> -1 \<and> j = fd \<and> has_wr t))"
proof (cases "fd < 0")
  case True
  with add ok show ?thesis by (auto simp: epoll_add_def)
next
  case False
  obtain old ev where oe: "smap_index 0 fd (ep_events s) = (old, ev)" by (metis surj_pair)
  note ix = epoll_index [OF ok oe] and v = valid_type [OF t]
  let ?r = "epoll_rd fd s" and ?w = "epoll_wr fd s"
  let ?m = "rdwr_mask (?r \<or> has_rd t) (?w \<or> has_wr t)"
  have ot: "old OR t = ?m" using ix(4) v mask_or by metis
  let ?op = "if 0 < old then EPOLL_CTL_MOD else EPOLL_CTL_ADD"
  obtain q k where qk: "ctl (epfd s) ?op fd (to_epoll (old OR t)) (ep_kernel s) = (q, k)" by (metis surj_pair)
  have eq: "epoll_add ctl fd t s = (if old = RDWR \<or> old = t then (1, s\<lparr>ep_events := ev, ep_kernel := ep_kernel s\<rparr>)
      else if q = -1 then (-1, s\<lparr>ep_events := ev, ep_kernel := k\<rparr>)
      else (0, s\<lparr>ep_events := smap_set fd ?m ev, ep_kernel := k\<rparr>))"
    unfolding epoll_add_def using False v oe qk ot by (simp add: Let_def and_RDWR)
  consider (have_it) "old = RDWR \<or> old = t" | (fail) "\<not> (old = RDWR \<or> old = t)" "q = -1"
    | (acc) "\<not> (old = RDWR \<or> old = t)" "q \<noteq> -1" by blast
  then show ?thesis
  proof cases
    case have_it
    then have "has_rd t \<longrightarrow> ?r" "has_wr t \<longrightarrow> ?w" using ix(4) by auto
    with epoll_keep [OF ok oe refl] eq add have_it show ?thesis by auto
  next
    case fail
    then have "interest k = interest (ep_kernel s)" using ctl_cases [OF c qk] by auto
    from epoll_keep [OF ok oe this] eq add fail show ?thesis by auto
  next
    case acc
    then have "interest k = (interest (ep_kernel s))(fd := entry_view (Some ?m))"
      using ctl_cases [OF c qk] ot v by (auto simp: mask_zero)
    from epoll_ok_store [OF ok _ _ _ this, of "smap_set fd ?m ev"] ix(1,3) eq add acc show ?thesis
      by (auto simp: smap_find_set)
  qed
qed

lemma epoll_remove_law:
  assumes c: "ctl_contract ctl interest" and ok: "epoll_ok interest s" and t: "t \<in> {RD, WR, RDWR}"
    and rem: "epoll_remove ctl fd t s = (x, s')"
  shows "epoll_ok interest s' \<and> (\<forall>j. epoll_rd j s' = (epoll_rd j s \<and> \<not> (x \<noteq> -1 \<and> j = fd \<and> has_rd t))
                 \<and> epoll_wr j s' = (epoll_wr j s \<and> \<not> (x \<noteq> -1 \<and> j = fd \<and> has_wr t)))"
proof (cases "fd < 0 \<or> \<not> smap_count fd (ep_events s)")
  case True
  with rem ok show ?thesis by (auto simp: epoll_remove_def)
next
  case False
  obtain old ev where oe: "smap_index 0 fd (ep_events s) = (old, ev)" by (metis surj_pair)
  note ix = epoll_index [OF ok oe] and v = valid_type [OF t]
  let ?r = "epoll_rd fd s" and ?w = "epoll_wr fd s"
  let ?r' = "?r \<and> \<not> has_rd t" and ?w' = "?w \<and> \<not> has_wr t"
  let ?none = "(has_rd t \<longrightarrow> \<not> ?r) \<and> (has_wr t \<longrightarrow> \<not> ?w)" and ?mod = "?r' \<or> ?w'"
  have none: "(t AND old = 0) = ?none" using ix(4) v mask_and [of "has_rd t" "has_wr t" ?r ?w] by (auto simp: mask_zero)
  have ty: "t AND RDWR = t" using v and_RDWR by metis
  have tR: "t = RDWR \<longleftrightarrow> has_rd t \<and> has_wr t" "t = RD \<longleftrightarrow> has_rd t \<and> \<not> has_wr t" using t by (auto dest: arg_cong [of _ _ has_rd] arg_cong [of _ _ has_wr])
  have md: "(old = RDWR \<and> t \<noteq> RDWR) = ?mod" if "\<not> ?none" using that ix(4) tR v by auto
  have ev: "(if t = RD then WR else RD) = rdwr_mask ?r' ?w'" if "\<not> ?none" ?mod
    using that md ix(4) tR v by (auto simp: mask_cases)
  let ?event = "if ?mod then rdwr_mask ?r' ?w' else old"
  let ?op = "if ?mod then EPOLL_CTL_MOD else EPOLL_CTL_DEL"
  obtain q k where qk: "ctl (epfd s) ?op fd (to_epoll ?event) (ep_kernel s) = (q, k)" by (metis surj_pair)
  have kc: "q = -1 \<and> interest k = interest (ep_kernel s)
    \<or> q = 0 \<and> interest k = (interest (ep_kernel s))(fd := (if ?op = EPOLL_CTL_DEL then None else Some (to_epoll ?event)))"
    using c qk by (rule ctl_cases)
  have base: "epoll_remove ctl fd t s = (if t AND old = 0 then (1, s\<lparr>ep_events := ev\<rparr>)
          else
            let ty = t AND RDWR;
                op = (if old = RDWR \<and> ty \<noteq> RDWR then EPOLL_CTL_MOD else EPOLL_CTL_DEL);
                event = (if old = RDWR \<and> ty \<noteq> RDWR then (if ty = RD then WR else RD) else old) in
            case ctl (epfd s) op fd (to_epoll event) (ep_kernel s) of (r, k) \<Rightarrow>
              if r = -1 then (-1, s\<lparr>ep_events := ev, ep_kernel := k\<rparr>)
              else (0, s\<lparr>ep_events := ev, ep_kernel := k,
                          ep_events := (if op = EPOLL_CTL_MOD then smap_set fd event ev else smap_erase fd ev)\<rparr>))"
    using False v oe unfolding epoll_remove_def by (simp only: prod.case Let_def) simp
  have eq: "epoll_remove ctl fd t s = (if ?none then (1, s\<lparr>ep_events := ev, ep_kernel := ep_kernel s\<rparr>)
      else if q = -1 then (-1, s\<lparr>ep_events := ev, ep_kernel := k\<rparr>)
      else (0, s\<lparr>ep_events := (if ?mod then smap_set fd (rdwr_mask ?r' ?w') ev else smap_erase fd ev), ep_kernel := k\<rparr>))"
  proof (cases ?none)
    case True
    then show ?thesis using base none by simp
  next
    case some: False
    have m: "(old = RDWR \<and> t \<noteq> RDWR) = ?mod" by (rule md [OF some])
    have "?mod \<Longrightarrow> (if t = RD then WR else RD) = rdwr_mask ?r' ?w'" by (rule ev [OF some])
    then have e: "(if ?mod then if t = RD then WR else RD else old) = ?event" by auto
    have "epoll_remove ctl fd t s = (case ctl (epfd s) ?op fd (to_epoll ?event) (ep_kernel s) of (r, k) \<Rightarrow>
              if r = -1 then (-1, s\<lparr>ep_events := ev, ep_kernel := k\<rparr>)
              else (0, s\<lparr>ep_events := ev, ep_kernel := k,
                          ep_events := (if ?op = EPOLL_CTL_MOD then smap_set fd ?event ev else smap_erase fd ev)\<rparr>))"
      using base some none by (simp only: Let_def ty m e if_False simp_thms)
    with qk some show ?thesis by auto
  qed
  consider (nothing) ?none | (fail) "\<not> ?none" "q = -1" | (acc) "\<not> ?none" "q \<noteq> -1" by blast
  then show ?thesis
  proof cases
    case nothing
    with epoll_keep [OF ok oe refl] eq rem show ?thesis by auto
  next
    case fail
    then have "interest k = interest (ep_kernel s)" using kc by auto
    from epoll_keep [OF ok oe this] eq rem fail show ?thesis by auto
  next
    case acc
    then have k: "interest k = (interest (ep_kernel s))(fd := entry_view (Some (rdwr_mask ?r' ?w')))"
      using kc by (auto simp: mask_zero)
    have "s' = s\<lparr>ep_events := (if ?mod then smap_set fd (rdwr_mask ?r' ?w') ev else smap_erase fd ev), ep_kernel := k\<rparr>" "x = 0"
      using eq rem acc by auto
    with epoll_ok_store [OF ok _ _ _ k, of "if ?mod then smap_set fd (rdwr_mask ?r' ?w') ev else smap_erase fd ev"] ix(1,3)
    show ?thesis by (auto simp: smap_find_set smap_find_erase)
  qed
qed

section \<open>Listening\<close>

lemma epoll_collect_frame:
  "ep_events (epoll_collect evs s) = ep_events s" "ep_kernel (epoll_collect evs s) = ep_kernel s"
  "ep_active (epoll_collect evs s) = ep_active s @ map fst evs" "ep_res (epoll_collect evs s) = ep_res s"
  by (induction evs s rule: epoll_collect.induct) auto

lemma epoll_collect_ok: "smap_ok (ep_result s) \<Longrightarrow> smap_ok (ep_result (epoll_collect evs s))"
  by (induction evs s rule: epoll_collect.induct) auto

lemma epoll_collect_result:
  "distinct (map fst evs) \<Longrightarrow> smap_find fd (ep_result (epoll_collect evs s)) =
     (case map_of evs fd of Some what \<Rightarrow> Some (from_epoll what) | None \<Rightarrow> smap_find fd (ep_result s))"
proof (induction evs s rule: epoll_collect.induct)
  case (2 j what evs s)
  then have "map_of evs j = None" by (auto simp: map_of_eq_None_iff)
  with 2 show ?case by (auto simp: smap_find_set split: option.splits)
qed simp

lemma from_epoll_mask:
  "from_epoll what = rdwr_mask (what AND (EPOLLHUP OR EPOLLERR) \<noteq> 0 \<or> what AND EPOLLIN \<noteq> 0)
     (what AND (EPOLLHUP OR EPOLLERR) \<noteq> 0 \<or> what AND EPOLLOUT \<noteq> 0)"
proof -
  have "(a OR (b OR c)) AND c = c" "(a OR (b OR c)) AND b = b" for a b c :: int
    by (rule bit_eqI; auto simp: bit_and_iff bit_or_iff)+
  from this [of what 1 4] have "(what OR 5) AND 1 = (1::int)" "(what OR 5) AND 4 = 4" by simp_all
  then show ?thesis
    by (simp add: from_epoll_def Let_def rdwr_mask_def EPOLLHUP_def EPOLLERR_def EPOLLIN_def EPOLLOUT_def)
qed

definition epoll_readable :: "int \<Rightarrow> 'k epoll \<Rightarrow> bool" where
  "epoll_readable fd s = (case smap_find fd (ep_result s) of None \<Rightarrow> False | Some m \<Rightarrow> has_rd m)"

definition epoll_writeable :: "int \<Rightarrow> 'k epoll \<Rightarrow> bool" where
  "epoll_writeable fd s = (case smap_find fd (ep_result s) of None \<Rightarrow> False | Some m \<Rightarrow> has_wr m)"

lemma epoll_result_queries:
  "epoll_is_readable fd s = Inr (epoll_readable fd s)" "epoll_is_writeable fd s = Inr (epoll_writeable fd s)"
  by (auto simp: epoll_is_readable_def epoll_is_writeable_def epoll_readable_def epoll_writeable_def smap_count_def
      smap_at_def split: option.splits)

lemma epoll_listen_law:
  assumes ok: "epoll_ok interest s" and ans: "wait_answer interest s i" and l: "epoll_listen i s = (n, s')"
  shows "epoll_ok interest s' \<and> (\<forall>j. epoll_rd j s' = epoll_rd j s \<and> epoll_wr j s' = epoll_wr j s)
      \<and> (0 < n \<longrightarrow> (\<forall>j \<in> set (ep_active s'). (epoll_rd j s \<or> epoll_wr j s) \<and> (epoll_readable j s' \<or> epoll_writeable j s')))"
proof (cases i)
  case None
  with l ok show ?thesis by (auto simp: epoll_listen_def epoll_ok_def epoll_rd_def epoll_wr_def)
next
  case (Some evs)
  let ?s0 = "s\<lparr>ep_res := Some (int (length evs)), ep_result := [], ep_active := []\<rparr>"
  have s': "s' = epoll_collect evs ?s0" using l Some by (auto simp: epoll_listen_def)
  have okk: "epoll_ok interest s'"
    using ok epoll_collect_ok [of ?s0 evs] by (simp add: s' epoll_ok_def epoll_collect_frame)
  have "(epoll_rd j s \<or> epoll_wr j s) \<and> (epoll_readable j s' \<or> epoll_writeable j s')" if j: "j \<in> fst ` set evs" for j
  proof -
    from j obtain what where w: "(j, what) \<in> set evs" by auto
    then have m: "map_of evs j = Some what" and a: "interest (ep_kernel s) j \<noteq> None" "from_epoll what \<noteq> 0" and d: "distinct (map fst evs)"
      using ans Some by (auto simp: wait_answer_def)
    have "smap_find j (ep_result s') = Some (from_epoll what)"
      unfolding s' epoll_collect_result [OF d] using m by simp
    then have "epoll_readable j s' \<or> epoll_writeable j s'"
      using a(2) unfolding epoll_readable_def epoll_writeable_def from_epoll_mask by (simp add: mask_zero)
    moreover obtain x where "smap_find j (ep_events s) = Some x" "x \<noteq> 0" "x AND RDWR = x"
      using ok a(1) unfolding epoll_ok_def by (metis entry_view.elims)
    moreover from this have "has_rd x \<or> has_wr x" using mask_members [of x] mask_zero [of "has_rd x" "has_wr x"] by metis
    ultimately show ?thesis by (auto simp: epoll_rd_def epoll_wr_def)
  qed
  then show ?thesis using okk by (auto simp: s' epoll_collect_frame epoll_rd_def epoll_wr_def)
qed

text \<open>The interface, for every kernel: the contract of \<open>epoll_ctl\<close> is part of the invariant.\<close>

definition epoll_good :: "'k epoll_ctl \<Rightarrow> ('k \<Rightarrow> int \<Rightarrow> int option) \<Rightarrow> 'k epoll \<Rightarrow> bool" where
  "epoll_good ctl interest s = (ctl_contract ctl interest \<and> epoll_ok interest s)"

interpretation ep: io_listener "epoll_good ctl interest" epoll_rd epoll_wr
    "\<lambda>fd t s. Inr (epoll_add ctl fd t s)" "\<lambda>fd t s. Inr (epoll_remove ctl fd t s)"
    "wait_answer interest" "\<lambda>i s. Inr (epoll_listen i s)" ep_active epoll_readable epoll_writeable
  for ctl :: "'k epoll_ctl" and interest :: "'k \<Rightarrow> int \<Rightarrow> int option"
proof (unfold_locales, goal_cases)
  case (1 s t fd x s')
  then show ?case using epoll_add_law [of ctl interest s t fd x s'] by (simp add: epoll_good_def)
next
  case (2 s t fd x s')
  then show ?case using epoll_remove_law [of ctl interest s t fd x s'] by (simp add: epoll_good_def)
next
  case (3 s i n s')
  then show ?case using epoll_listen_law [of interest s i n s'] by (simp add: epoll_good_def)
qed

section \<open>Properties\<close>

text \<open>
  The states the class goes through: the constructor, and \<open>add\<close>, \<open>remove\<close> and \<open>listen\<close> in any
  order, with any descriptors (negative ones too) and the event sets the class defines.
\<close>

inductive epoll_reach :: "'k epoll_ctl \<Rightarrow> ('k \<Rightarrow> int \<Rightarrow> int option) \<Rightarrow> 'k epoll \<Rightarrow> bool"
  for ctl :: "'k epoll_ctl" and interest :: "'k \<Rightarrow> int \<Rightarrow> int option" where
  new: "epoll_new e limit fd k = Inr s \<Longrightarrow> interest k = Map.empty \<Longrightarrow> epoll_reach ctl interest s"
| add: "epoll_reach ctl interest s \<Longrightarrow> t \<in> {RD, WR, RDWR} \<Longrightarrow> epoll_reach ctl interest (snd (epoll_add ctl fd t s))"
| remove: "epoll_reach ctl interest s \<Longrightarrow> t \<in> {RD, WR, RDWR} \<Longrightarrow> epoll_reach ctl interest (snd (epoll_remove ctl fd t s))"
| listen: "epoll_reach ctl interest s \<Longrightarrow> wait_answer interest s i \<Longrightarrow> epoll_reach ctl interest (snd (epoll_listen i s))"

inductive_cases epoll_reachE: "epoll_reach ctl interest s"

lemma epoll_reach_good: "epoll_reach ctl interest s \<Longrightarrow> ctl_contract ctl interest \<Longrightarrow> epoll_good ctl interest s"
proof (induction rule: epoll_reach.induct)
  case (new e limit fd k s)
  then have "ep_events s = []" "ep_result s = []" "ep_kernel s = k"
    by (auto simp: epoll_new_def split: option.splits if_splits)
  with new show ?case by (simp add: epoll_good_def epoll_ok_def)
next
  case (add s t fd)
  then show ?case using ep.add_ok [of ctl interest s t fd] by (metis prod.collapse)
next
  case (remove s t fd)
  then show ?case using ep.remove_ok [of ctl interest s t fd] by (metis prod.collapse)
next
  case (listen s i)
  then show ?case using ep.listen_law [of ctl interest s i] by (metis prod.collapse)
qed

text \<open>C16. The event map of \<open>epoll\<close> mirrors the kernel: after any sequence of calls, failed ones
  included, a descriptor is registered with the kernel exactly when \<open>is_readset\<close> or \<open>is_writeset\<close>
  says so, and then for exactly those events.\<close>

theorem epoll_mirrors_kernel:
  assumes "ctl_contract ctl interest" and "epoll_reach ctl interest s"
  shows "\<exists>r w. epoll_is_readset fd s = Inr r \<and> epoll_is_writeset fd s = Inr w \<and>
    interest (ep_kernel s) fd = (if r \<or> w then Some (to_epoll (rdwr_mask r w)) else None)"
proof -
  from epoll_reach_good [OF assms(2,1)] have ok: "epoll_ok interest s" by (simp add: epoll_good_def)
  obtain old ev where oe: "smap_index 0 fd (ep_events s) = (old, ev)" by (metis surj_pair)
  from epoll_index [OF ok oe] show ?thesis
    by (intro exI [of _ "epoll_rd fd s"] exI [of _ "epoll_wr fd s"]) (auto simp: epoll_queries mask_zero)
qed

text \<open>An interest list as a kernel, to run the class on.\<close>

fun list_ctl :: "((int, int) smap) epoll_ctl" where
  "list_ctl ep EPOLL_CTL_ADD fd m k = (if smap_count fd k then (-1, k) else (0, smap_set fd m k))"
| "list_ctl ep EPOLL_CTL_MOD fd m k = (if smap_count fd k then (0, smap_set fd m k) else (-1, k))"
| "list_ctl ep EPOLL_CTL_DEL fd m k = (if smap_count fd k then (0, filter (\<lambda>kv. fst kv \<noteq> fd) k) else (-1, k))"

lemma smap_find_filter_key: "smap_find j (filter (\<lambda>kv. fst kv \<noteq> fd) k) = (if j = fd then None else smap_find j k)"
  by (induction k) auto

lemma list_ctl_contract: "ctl_contract list_ctl (\<lambda>k fd. smap_find fd k)"
proof -
  have "r = -1 \<and> (\<lambda>fd. smap_find fd k') = (\<lambda>fd. smap_find fd k)
        \<or> r = 0 \<and> (case op of
             EPOLL_CTL_ADD \<Rightarrow> smap_find fd k = None \<and> (\<lambda>fd. smap_find fd k') = (\<lambda>fd. smap_find fd k)(fd \<mapsto> m)
           | EPOLL_CTL_MOD \<Rightarrow> smap_find fd k \<noteq> None \<and> (\<lambda>fd. smap_find fd k') = (\<lambda>fd. smap_find fd k)(fd \<mapsto> m)
           | EPOLL_CTL_DEL \<Rightarrow> smap_find fd k \<noteq> None \<and> (\<lambda>fd. smap_find fd k') = (\<lambda>fd. smap_find fd k)(fd := None))"
    if "list_ctl ep op fd m k = (r, k')" for ep op fd m k r k'
    using that by (cases op) (auto simp: smap_count_def smap_find_set smap_find_filter_key fun_eq_iff split: if_splits)
  then show ?thesis unfolding ctl_contract_def by blast
qed

theorem epoll_mirrors_kernel_witness:
  "let s0 = \<lparr>epfd = 3, ep_events = [], ep_size = Some 1024, ep_res = None, ep_result = [], ep_active = [], ep_kernel = []\<rparr>;
       s = snd (epoll_remove list_ctl 5 RD (snd (epoll_add list_ctl 5 RDWR s0))) in
   \<exists>r w. epoll_is_readset 5 s = Inr r \<and> epoll_is_writeset 5 s = Inr w \<and>
    smap_find 5 (ep_kernel s) = (if r \<or> w then Some (to_epoll (rdwr_mask r w)) else None)"
proof -
  let ?s0 = "\<lparr>epfd = 3, ep_events = [], ep_size = Some 1024, ep_res = None, ep_result = [], ep_active = [], ep_kernel = []\<rparr>
      :: ((int, int) smap) epoll"
  have "epoll_new \<lparr>can_alloc = (\<lambda>_. True), fresh = (\<lambda>_. NUL)\<rparr> (Some 1024) 3 [] = Inr ?s0"
    by (simp add: epoll_new_def to_int_def)
  then have "epoll_reach list_ctl (\<lambda>k fd. smap_find fd k) ?s0" by (rule epoll_reach.new) simp
  then have "epoll_reach list_ctl (\<lambda>k fd. smap_find fd k) (snd (epoll_remove list_ctl 5 RD (snd (epoll_add list_ctl 5 RDWR ?s0))))"
    by (intro epoll_reach.add epoll_reach.remove) simp_all
  from epoll_mirrors_kernel [OF list_ctl_contract this, of 5] show ?thesis by (simp add: Let_def)
qed

text \<open>\<open>listen\<close> of \<open>epoll\<close> reports exactly what the kernel reported: the active descriptors are those of
  the event list in its order, and each counts as readable (writeable) when its events include
  input (output), a hang-up or an error; no descriptor of an earlier round is left. Everything that is
  reported was asked for.\<close>

theorem epoll_listen_reports:
  assumes "ctl_contract ctl interest" and "epoll_reach ctl interest s" and "wait_answer interest s (Some evs)"
    and "epoll_listen (Some evs) s = (n, s')"
  shows "n = int (length evs) \<and> ep_active s' = map fst evs
    \<and> (\<forall>fd. epoll_is_readable fd s' = Inr (\<exists>what. (fd, what) \<in> set evs \<and> has_rd (from_epoll what)))
    \<and> (\<forall>fd. epoll_is_writeable fd s' = Inr (\<exists>what. (fd, what) \<in> set evs \<and> has_wr (from_epoll what)))
    \<and> (\<forall>fd \<in> set (ep_active s'). epoll_rd fd s \<or> epoll_wr fd s)"
proof -
  let ?s0 = "s\<lparr>ep_res := Some (int (length evs)), ep_result := [], ep_active := []\<rparr>"
  have s': "s' = epoll_collect evs ?s0" "n = int (length evs)" using assms(4) by (auto simp: epoll_listen_def)
  have d: "distinct (map fst evs)" using assms(3) by (simp add: wait_answer_def)
  have res: "smap_find fd (ep_result s') = map_option from_epoll (map_of evs fd)" for fd
    unfolding s' epoll_collect_result [OF d] by (simp split: option.splits)
  have q: "epoll_readable fd s' = (\<exists>what. (fd, what) \<in> set evs \<and> has_rd (from_epoll what))"
    "epoll_writeable fd s' = (\<exists>what. (fd, what) \<in> set evs \<and> has_wr (from_epoll what))" for fd
    by (auto simp: epoll_readable_def epoll_writeable_def res split: option.splits simp flip: map_of_eq_Some_iff [OF d])
  have "\<forall>fd \<in> set (ep_active s'). epoll_rd fd s \<or> epoll_wr fd s"
  proof (cases "evs = []")
    case False
    then have "0 < n" by (simp add: s')
    with ep.listen_law [OF epoll_reach_good [OF assms(2,1)] assms(3), of n s'] assms(4) show ?thesis by simp
  qed (simp add: s' epoll_collect_frame)
  with q s' show ?thesis by (simp add: epoll_result_queries epoll_collect_frame)
qed

theorem epoll_listen_reports_witness:
  "let s0 = \<lparr>epfd = 3, ep_events = [], ep_size = Some 1024, ep_res = None, ep_result = [], ep_active = [], ep_kernel = []\<rparr>;
       s = snd (epoll_add list_ctl 5 RDWR s0); s' = snd (epoll_listen (Some [(5, EPOLLIN)]) s) in
   ep_active s' = [5] \<and> epoll_is_readable 5 s' = Inr True \<and> epoll_is_writeable 5 s' = Inr False"
proof -
  let ?s0 = "\<lparr>epfd = 3, ep_events = [], ep_size = Some 1024, ep_res = None, ep_result = [], ep_active = [], ep_kernel = []\<rparr>
      :: ((int, int) smap) epoll"
  let ?added = "snd (epoll_add list_ctl 5 RDWR ?s0)"
  have "epoll_new \<lparr>can_alloc = (\<lambda>_. True), fresh = (\<lambda>_. NUL)\<rparr> (Some 1024) 3 [] = Inr ?s0"
    by (simp add: epoll_new_def to_int_def)
  then have "epoll_reach list_ctl (\<lambda>k fd. smap_find fd k) ?s0" by (rule epoll_reach.new) simp
  then have r: "epoll_reach list_ctl (\<lambda>k fd. smap_find fd k) ?added" by (intro epoll_reach.add) simp_all
  have f: "from_epoll EPOLLIN = RD" by (simp add: from_epoll_def EPOLLIN_def EPOLLOUT_def EPOLLHUP_def EPOLLERR_def Let_def)
  have "ep_kernel ?added = [(5, to_epoll RDWR)]"
    by (simp add: epoll_add_def smap_index_def Let_def RDWR_3 smap_count_def)
  then have w: "wait_answer (\<lambda>k fd. smap_find fd k) ?added (Some [(5, EPOLLIN)])"
    by (simp add: wait_answer_def f) (simp add: RD_def)
  from epoll_listen_reports [OF list_ctl_contract r w, of 1 "snd (epoll_listen (Some [(5, EPOLLIN)]) ?added)"]
  show ?thesis by (simp add: Let_def f epoll_listen_def)
qed

end
