(* ===== verification/Libio_Select.thy ===== *)
theory Libio_Select
  imports Libio_Multiplexer
begin

text \<open>
  The \<open>select\<close> back end of \<open>src/core/select.hh\<close>. An \<open>fd_set\<close> here is a heap object of \<open>size\<close>
  bytes, modelled as the list of its bits (\<open>None\<close> is the null pointer); \<open>FD_SET\<close>, \<open>FD_CLR\<close> and
  \<open>FD_ISSET\<close> touch the 64-bit word of the descriptor and are faults outside the object. \<open>NFDBITS\<close> is
  64, \<open>sizeof(NFDBITS)\<close> 4, \<open>sizeof(fd_mask)\<close> 8 and \<open>sizeof(fd_set)\<close> 128, as on Linux on x86. The
  allocator and the answer of \<open>::select\<close> are arguments.
\<close>

section \<open>Definitions\<close>

type_synonym fd_bits = "bool list"

record select =
  readset_in :: "fd_bits option"
  writeset_in :: "fd_bits option"
  readset_out :: "fd_bits option"
  writeset_out :: "fd_bits option"
  sel_size :: int
  highest_fd :: int
  sel_active :: "int list"

definition MAX_SELECT_FD :: int where
  "MAX_SELECT_FD = 1024"

text \<open>The bit of a fresh byte.\<close>

definition fresh_bit :: "heap_env \<Rightarrow> nat \<Rightarrow> bool" where
  "fresh_bit e i = odd (of_char (fresh e (i div 8)) div (2 ^ (i mod 8) :: nat))"

definition realloc_bits :: "heap_env \<Rightarrow> fd_bits option \<Rightarrow> int \<Rightarrow> fd_bits option" where
  "realloc_bits e p n =
     (let old = (case p of None \<Rightarrow> [] | Some m \<Rightarrow> m) in
      if can_alloc e n
      then Some (take (nat (8 * n)) old @ map (fresh_bit e) [length old..<nat (8 * n)]) else None)"

text \<open>\<open>std::memset(set + size, 0, n - size)\<close>: the pointer moves by \<open>size\<close> objects of 128 bytes.\<close>

definition memset_tail :: "fd_bits option \<Rightarrow> int \<Rightarrow> int \<Rightarrow> fd_bits option res" where
  "memset_tail p sz n =
     (case p of
        None \<Rightarrow> Inl NullDeref
      | Some m \<Rightarrow>
          let at = sz * 128; len = n - sz in
          if 0 \<le> at \<and> 0 \<le> len \<and> 8 * (at + len) \<le> int (length m)
          then Inr (Some (take (nat (8 * at)) m @ replicate (nat (8 * len)) False @ drop (nat (8 * (at + len))) m))
          else Inl BadAccess)"

definition select_resize :: "heap_env \<Rightarrow> int \<Rightarrow> select \<Rightarrow> (int \<times> select) res" where
  "select_resize e n s =
     (case realloc_bits e (readset_in s) n of
        None \<Rightarrow> Inr (-1, s)
      | Some ri \<Rightarrow>
          let s1 = s\<lparr>readset_in := Some ri\<rparr> in
          case realloc_bits e (readset_out s1) n of
            None \<Rightarrow> Inr (-1, s1)
          | Some ro \<Rightarrow>
              let s2 = s1\<lparr>readset_out := Some ro\<rparr> in
              case realloc_bits e (writeset_in s2) n of
                None \<Rightarrow> Inr (-1, s2)
              | Some wi \<Rightarrow>
                  let s3 = s2\<lparr>writeset_in := Some wi\<rparr> in
                  case realloc_bits e (writeset_out s3) n of
                    None \<Rightarrow> Inr (-1, s3)
                  | Some wo \<Rightarrow>
                      let s4 = s3\<lparr>writeset_out := Some wo\<rparr> in
                      bind_res (memset_tail (readset_in s4) (sel_size s4) n) (\<lambda>ri'.
                      bind_res (memset_tail (writeset_in s4) (sel_size s4) n) (\<lambda>wi'.
                        Inr (0, s4\<lparr>readset_in := ri', writeset_in := wi', sel_size := n\<rparr>))))"

text \<open>The constructor ignores the result of \<open>resize\<close>; \<open>n\<close> is 192 bytes.\<close>

definition select_new :: "heap_env \<Rightarrow> select res" where
  "select_new e =
     bind_res (select_resize e (((32 + 64) div 4) * 8)
         \<lparr>readset_in = None, writeset_in = None, readset_out = None, writeset_out = None,
          sel_size = 0, highest_fd = 0, sel_active = []\<rparr>) (\<lambda>(_, s). Inr s)"

text \<open>The word of a descriptor lies inside the object.\<close>

definition fd_in :: "int \<Rightarrow> fd_bits \<Rightarrow> bool" where
  "fd_in fd m = (0 \<le> fd \<and> 64 * (fd div 64) + 64 \<le> int (length m))"

definition FD_ISSET :: "int \<Rightarrow> fd_bits option \<Rightarrow> bool res" where
  "FD_ISSET fd p =
     (case p of None \<Rightarrow> Inl NullDeref | Some m \<Rightarrow> if fd_in fd m then Inr (m ! nat fd) else Inl BadAccess)"

definition FD_PUT :: "bool \<Rightarrow> int \<Rightarrow> fd_bits option \<Rightarrow> fd_bits option res" where
  "FD_PUT v fd p =
     (case p of None \<Rightarrow> Inl NullDeref | Some m \<Rightarrow> if fd_in fd m then Inr (Some (m[nat fd := v])) else Inl BadAccess)"

definition select_is_readset :: "int \<Rightarrow> select \<Rightarrow> bool res" where
  "select_is_readset fd s = FD_ISSET fd (readset_in s)"

definition select_is_writeset :: "int \<Rightarrow> select \<Rightarrow> bool res" where
  "select_is_writeset fd s = FD_ISSET fd (writeset_in s)"

definition select_is_readable :: "int \<Rightarrow> select \<Rightarrow> bool res" where
  "select_is_readable fd s = FD_ISSET fd (readset_out s)"

definition select_is_writeable :: "int \<Rightarrow> select \<Rightarrow> bool res" where
  "select_is_writeable fd s = FD_ISSET fd (writeset_out s)"

text \<open>\<open>while (need < size) need *= 2;\<close>, for a positive \<open>need\<close>.\<close>

function need_loop :: "int \<Rightarrow> int \<Rightarrow> int" where
  "need_loop need sz = (if 0 < need \<and> need < sz then need_loop (need * 2) sz else need)"
  by pat_completeness auto
termination
  by (relation "measure (\<lambda>(need, sz). nat (sz - need))") auto

declare need_loop.simps [simp del]

definition select_put :: "bool \<Rightarrow> int \<Rightarrow> int \<Rightarrow> select \<Rightarrow> select res" where
  "select_put v fd type s =
     bind_res (if has_rd type then FD_PUT v fd (readset_in s) else Inr (readset_in s)) (\<lambda>ri.
     bind_res (if has_wr type then FD_PUT v fd (writeset_in s) else Inr (writeset_in s)) (\<lambda>wi.
       Inr (s\<lparr>readset_in := ri, writeset_in := wi\<rparr>)))"

definition select_add :: "heap_env \<Rightarrow> int \<Rightarrow> int \<Rightarrow> select \<Rightarrow> (int \<times> select) res" where
  "select_add e fd type s =
     (if MAX_SELECT_FD < fd then Inr (-1, s)
      else
        let s1 = (if highest_fd s < fd then s\<lparr>highest_fd := fd\<rparr> else s) in
        bind_res
          (if sel_size s1 - 1 < fd then
             let need = need_loop (((fd + 64) div 64) * 8) (sel_size s1) in
             if need \<noteq> sel_size s1 then bind_res (select_resize e need s1) (\<lambda>(_, s2). Inr s2) else Inr s1
           else Inr s1)
          (\<lambda>s2. bind_res (select_put True fd type s2) (\<lambda>s3. Inr (0, s3))))"

definition select_remove :: "int \<Rightarrow> int \<Rightarrow> select \<Rightarrow> (int \<times> select) res" where
  "select_remove fd type s = bind_res (select_put False fd type s) (\<lambda>s'. Inr (0, s'))"

text \<open>\<open>for (i = 0; i <= highest_fd; i++) if (is_readable(i) || is_writeable(i)) activeFd.push_back(i)\<close>\<close>

fun select_scan :: "select \<Rightarrow> int list \<Rightarrow> int list res" where
  "select_scan s [] = Inr []"
| "select_scan s (i # js) =
     bind_res (select_is_readable i s) (\<lambda>r.
     bind_res (if r then Inr True else select_is_writeable i s) (\<lambda>a.
     bind_res (select_scan s js) (\<lambda>rest. Inr (if a then i # rest else rest))))"

text \<open>\<open>listen\<close>; \<open>answer\<close> is the return value of \<open>::select\<close> and what it left in the two sets.\<close>

definition select_listen :: "int \<times> fd_bits \<times> fd_bits \<Rightarrow> select \<Rightarrow> (int \<times> select) res" where
  "select_listen answer s =
     (case (readset_in s, writeset_in s, readset_out s, writeset_out s, answer) of
        (Some ri, Some wi, Some ro, Some wo, (r, rb, wb)) \<Rightarrow>
          let s1 = s\<lparr>readset_out := Some rb, writeset_out := Some wb, sel_active := []\<rparr> in
          bind_res (select_scan s1 [0..highest_fd s1]) (\<lambda>act. Inr (r, s1\<lparr>sel_active := act\<rparr>))
      | _ \<Rightarrow> Inl NullDeref)"

text \<open>
  The printer \<open>check\<close>, which no other function calls: a line \<open>i:r,w\<close> for every set bit \<open>i\<close> below the
  number of bytes.
\<close>

fun check_lines :: "select \<Rightarrow> int list \<Rightarrow> (int \<times> bool \<times> bool) list res" where
  "check_lines s [] = Inr []"
| "check_lines s (i # js) =
     bind_res (FD_ISSET i (readset_in s)) (\<lambda>r.
     bind_res (FD_ISSET i (writeset_in s)) (\<lambda>w.
     bind_res (check_lines s js) (\<lambda>rest. Inr (if r \<or> w then (i, r, w) # rest else rest))))"

definition select_check :: "select \<Rightarrow> (int \<times> (int \<times> bool \<times> bool) list) res" where
  "select_check s = bind_res (check_lines s [0..sel_size s - 1]) (\<lambda>l. Inr (sel_size s, l))"

text \<open>
  What \<open>select(2)\<close> promises of its return value and sets, which \<open>listen\<close> has filled with copies of
  the interest sets: on success it only clears bits, on an error it leaves the sets as they were.
\<close>

definition select_answer :: "select \<Rightarrow> int \<times> fd_bits \<times> fd_bits \<Rightarrow> bool" where
  "select_answer s answer =
     (case (readset_in s, writeset_in s, answer) of
        (Some ri, Some wi, (r, rb, wb)) \<Rightarrow>
          if r = -1 then rb = ri \<and> wb = wi
          else length rb = length ri \<and> length wb = length wi \<and> list_all2 (\<longrightarrow>) rb ri \<and> list_all2 (\<longrightarrow>) wb wi
      | _ \<Rightarrow> False)"

definition bit_of :: "int \<Rightarrow> fd_bits option \<Rightarrow> bool" where
  "bit_of fd p = (case p of None \<Rightarrow> False | Some m \<Rightarrow> 0 \<le> fd \<and> nat fd < length m \<and> m ! nat fd)"

definition select_rd :: "int \<Rightarrow> select \<Rightarrow> bool" where
  "select_rd fd s = bit_of fd (readset_in s)"

definition select_wr :: "int \<Rightarrow> select \<Rightarrow> bool" where
  "select_wr fd s = bit_of fd (writeset_in s)"

definition has_bits :: "nat \<Rightarrow> fd_bits option \<Rightarrow> bool" where
  "has_bits n p = (case p of None \<Rightarrow> False | Some m \<Rightarrow> length m = n)"

text \<open>The invariant: four objects of 192 bytes, and no interest above the highest descriptor.\<close>

definition select_ok :: "select \<Rightarrow> bool" where
  "select_ok s =
     (sel_size s = 192 \<and> has_bits 1536 (readset_in s) \<and> has_bits 1536 (writeset_in s) \<and>
      has_bits 1536 (readset_out s) \<and> has_bits 1536 (writeset_out s) \<and>
      0 \<le> highest_fd s \<and> highest_fd s \<le> MAX_SELECT_FD \<and>
      (\<forall>fd. select_rd fd s \<or> select_wr fd s \<longrightarrow> fd \<le> highest_fd s))"

section \<open>Bits\<close>

lemma fd_in_1536: "length m = 1536 \<Longrightarrow> fd_in fd m = (0 \<le> fd \<and> fd < 1536)"
  by (auto simp: fd_in_def)

lemma FD_PUT_ok:
  assumes "has_bits 1536 p"
  shows "case FD_PUT v fd p of Inl f \<Rightarrow> f = BadAccess \<and> \<not> (0 \<le> fd \<and> fd < 1536)
    | Inr q \<Rightarrow> 0 \<le> fd \<and> fd < 1536 \<and> has_bits 1536 q \<and> (\<forall>j. bit_of j q = (if j = fd then v else bit_of j p))"
proof -
  from assms obtain m where m: "p = Some m" "length m = 1536" by (auto simp: has_bits_def split: option.splits)
  have "bit_of j (Some (m[nat fd := v])) = (if j = fd then v else bit_of j (Some m))" if "0 \<le> fd" "fd < 1536" for j
  proof (cases "0 \<le> j \<and> j \<noteq> fd")
    case True
    then have "nat fd \<noteq> nat j" using that by (metis eq_nat_nat_iff)
    then show ?thesis using True by (simp add: bit_of_def)
  next
    case False
    have "nat fd < length m" using that m(2) by linarith
    then show ?thesis using False that(1) by (cases "j = fd") (simp_all add: bit_of_def)
  qed
  with m show ?thesis by (auto simp: FD_PUT_def fd_in_1536 has_bits_def)
qed

lemma FD_ISSET_ok:
  assumes "has_bits 1536 p"
  shows "FD_ISSET fd p = (if 0 \<le> fd \<and> fd < 1536 then Inr (bit_of fd p) else Inl BadAccess)"
  using assms by (auto simp: has_bits_def FD_ISSET_def fd_in_1536 bit_of_def split: option.splits)

text \<open>The printer shows the interest in the descriptors below 192 only, as \<open>size\<close> counts bytes.\<close>

lemma select_check_lists:
  assumes "select_ok s"
  shows "select_check s =
    Inr (192, map (\<lambda>i. (i, select_rd i s, select_wr i s)) (filter (\<lambda>i. select_rd i s \<or> select_wr i s) [0..191]))"
proof -
  have b: "has_bits 1536 (readset_in s)" "has_bits 1536 (writeset_in s)" "sel_size s = 192" using assms by (simp_all add: select_ok_def)
  have "check_lines s js = Inr (map (\<lambda>i. (i, select_rd i s, select_wr i s)) (filter (\<lambda>i. select_rd i s \<or> select_wr i s) js))"
    if "\<forall>i \<in> set js. 0 \<le> i \<and> i < 1536" for js
    using that by (induction js) (simp_all add: FD_ISSET_ok [OF b(1)] FD_ISSET_ok [OF b(2)] select_rd_def select_wr_def)
  then show ?thesis by (simp add: select_check_def b(3))
qed

lemma select_put_ok:
  assumes ok: "has_bits 1536 (readset_in s)" "has_bits 1536 (writeset_in s)" and p: "select_put v fd t s = Inr s'"
  shows "\<exists>ri wi. s' = s\<lparr>readset_in := ri, writeset_in := wi\<rparr> \<and> has_bits 1536 ri \<and> has_bits 1536 wi
    \<and> (\<forall>j. select_rd j s' = (if j = fd \<and> has_rd t then v else select_rd j s)
        \<and> select_wr j s' = (if j = fd \<and> has_wr t then v else select_wr j s))"
proof -
  from p obtain ri wi where
    r: "(if has_rd t then FD_PUT v fd (readset_in s) else Inr (readset_in s)) = Inr ri"
    and w: "(if has_wr t then FD_PUT v fd (writeset_in s) else Inr (writeset_in s)) = Inr wi"
    and s': "s' = s\<lparr>readset_in := ri, writeset_in := wi\<rparr>"
    unfolding select_put_def by (auto simp only: bind_res_eq_Inr sum.inject)
  have "has_bits 1536 ri \<and> (\<forall>j. bit_of j ri = (if j = fd \<and> has_rd t then v else bit_of j (readset_in s)))"
    using r FD_PUT_ok [OF ok(1), where v = v and fd = fd] ok(1) by (cases "has_rd t") auto
  moreover have "has_bits 1536 wi \<and> (\<forall>j. bit_of j wi = (if j = fd \<and> has_wr t then v else bit_of j (writeset_in s)))"
    using w FD_PUT_ok [OF ok(2), where v = v and fd = fd] ok(2) by (cases "has_wr t") auto
  ultimately show ?thesis by (auto simp: s' select_rd_def select_wr_def)
qed

lemma select_put_returns:
  assumes ok: "has_bits 1536 (readset_in s)" "has_bits 1536 (writeset_in s)" and fd: "0 \<le> fd" "fd < 1536"
  shows "\<exists>s'. select_put v fd t s = Inr s'"
proof -
  have "\<exists>q. FD_PUT v fd p = Inr q" if "has_bits 1536 p" for p
    using FD_PUT_ok [OF that, where v = v and fd = fd] fd by (cases "FD_PUT v fd p") auto
  then obtain ri wi where "FD_PUT v fd (readset_in s) = Inr ri" "FD_PUT v fd (writeset_in s) = Inr wi" using ok by blast
  then show ?thesis by (cases "has_rd t"; cases "has_wr t") (auto simp: select_put_def)
qed

section \<open>Growing the sets\<close>

lemma realloc_bits_length: "0 \<le> n \<Longrightarrow> realloc_bits e p n = Some m \<Longrightarrow> length m = nat (8 * n)"
  by (auto simp: realloc_bits_def Let_def split: if_splits option.splits)

text \<open>Every enlargement of a set that is in use writes outside it.\<close>

lemma select_resize_faults:
  assumes "0 < sel_size s" and "sel_size s < n" and "can_alloc e n"
  shows "select_resize e n s = Inl BadAccess"
proof -
  have "memset_tail (Some m) (sel_size s) n = Inl BadAccess" if "realloc_bits e p n = Some m" for p m
    using realloc_bits_length [OF _ that] assms by (auto simp: memset_tail_def Let_def)
  moreover have "\<exists>m. realloc_bits e p n = Some m" for p using assms(3) by (simp add: realloc_bits_def Let_def)
  then obtain ri ro wi wo where "realloc_bits e (readset_in s) n = Some ri" "realloc_bits e (readset_out s) n = Some ro"
    "realloc_bits e (writeset_in s) n = Some wi" "realloc_bits e (writeset_out s) n = Some wo" by metis
  ultimately show ?thesis unfolding select_resize_def by (simp add: Let_def)
qed

lemma select_resize_refused: "\<not> can_alloc e n \<Longrightarrow> select_resize e n s = Inr (-1, s)"
  by (simp add: select_resize_def realloc_bits_def Let_def)

definition need_of :: "int \<Rightarrow> int" where
  "need_of fd = need_loop (((fd + 64) div 64) * 8) 192"

text \<open>Which descriptors make \<open>add\<close> enlarge the sets.\<close>

definition resizes :: "int \<Rightarrow> bool" where
  "resizes fd = (192 \<le> fd \<and> fd \<le> MAX_SELECT_FD \<and> \<not> (320 \<le> fd \<and> fd < 384) \<and> \<not> (704 \<le> fd \<and> fd < 768))"

lemma need_of_word:
  "need_loop (4 * 8) 192 = 256" "need_loop (5 * 8) 192 = 320" "need_loop (6 * 8) 192 = 192" "need_loop (7 * 8) 192 = 224"
  "need_loop (8 * 8) 192 = 256" "need_loop (9 * 8) 192 = 288" "need_loop (10 * 8) 192 = 320" "need_loop (11 * 8) 192 = 352"
  "need_loop (12 * 8) 192 = 192" "need_loop (13 * 8) 192 = 208" "need_loop (14 * 8) 192 = 224" "need_loop (15 * 8) 192 = 240"
  "need_loop (16 * 8) 192 = 256" "need_loop (17 * 8) 192 = 272"
  by code_simp+

lemma need_of_cases:
  assumes "192 \<le> fd" and "fd \<le> MAX_SELECT_FD"
  shows "192 \<le> need_of fd" "(need_of fd = 192) = (\<not> resizes fd)"
proof -
  define k where "k = (fd + 64) div 64"
  have k: "4 \<le> k" "k \<le> 17" using assms unfolding k_def MAX_SELECT_FD_def by linarith+
  have n: "need_of fd = need_loop (k * 8) 192" by (simp only: need_of_def k_def)
  have k_cases: "k = 4 \<or> k = 5 \<or> k = 6 \<or> k = 7 \<or> k = 8 \<or> k = 9 \<or> k = 10 \<or> k = 11 \<or> k = 12 \<or> k = 13 \<or> k = 14
    \<or> k = 15 \<or> k = 16 \<or> k = 17" using k by presburger
  have r: "resizes fd = (k \<noteq> 6 \<and> k \<noteq> 12)" using assms unfolding resizes_def k_def MAX_SELECT_FD_def by linarith
  show "192 \<le> need_of fd" unfolding n using k_cases by (elim disjE; hypsubst; subst need_of_word; simp)
  show "(need_of fd = 192) = (\<not> resizes fd)" unfolding n r using k_cases by (elim disjE; hypsubst; subst need_of_word; simp)
qed

lemma select_add_eq:
  assumes ok: "select_ok s" and fd: "fd \<le> MAX_SELECT_FD"
  shows "select_add e fd t s =
    (if resizes fd \<and> can_alloc e (need_of fd) then Inl BadAccess
     else bind_res (select_put True fd t (if highest_fd s < fd then s\<lparr>highest_fd := fd\<rparr> else s)) (\<lambda>s3. Inr (0, s3)))"
proof -
  let ?t = "if highest_fd s < fd then s\<lparr>highest_fd := fd\<rparr> else s"
  have sz: "sel_size ?t = 192" using ok by (simp add: select_ok_def)
  have nf: "\<not> MAX_SELECT_FD < fd" using fd by simp
  show ?thesis
  proof (cases "192 \<le> fd")
    case False
    then have "\<not> resizes fd" "\<not> 192 - 1 < fd" by (auto simp: resizes_def)
    then show ?thesis unfolding select_add_def Let_def sz using nf by simp
  next
    case True
    note nc = need_of_cases [OF True fd]
    have eq: "select_add e fd t s = bind_res (if need_of fd \<noteq> 192 then bind_res (select_resize e (need_of fd) ?t) (\<lambda>(_, s2). Inr s2) else Inr ?t)
          (\<lambda>s2. bind_res (select_put True fd t s2) (\<lambda>s3. Inr (0, s3)))"
      unfolding select_add_def Let_def sz need_of_def using nf True by simp
    show ?thesis
    proof (cases "resizes fd")
      case False
      then show ?thesis using eq nc by simp
    next
      case res: True
      then have "need_of fd \<noteq> 192" "192 < need_of fd" using nc by auto
      then show ?thesis using eq res sz select_resize_faults [of ?t "need_of fd" e] select_resize_refused [of e "need_of fd" ?t]
        by (cases "can_alloc e (need_of fd)") auto
    qed
  qed
qed

lemma select_put_law:
  assumes ok: "select_ok s" and p: "select_put v fd t (if highest_fd s < h then s\<lparr>highest_fd := h\<rparr> else s) = Inr s'"
    and h: "h \<le> MAX_SELECT_FD" "v \<Longrightarrow> fd \<le> h"
  shows "select_ok s' \<and> (\<forall>j. select_rd j s' = (if j = fd \<and> has_rd t then v else select_rd j s)
    \<and> select_wr j s' = (if j = fd \<and> has_wr t then v else select_wr j s))"
proof -
  let ?t = "if highest_fd s < h then s\<lparr>highest_fd := h\<rparr> else s"
  have f: "readset_in ?t = readset_in s" "writeset_in ?t = writeset_in s" "readset_out ?t = readset_out s"
    "writeset_out ?t = writeset_out s" "sel_size ?t = sel_size s" "highest_fd ?t = max (highest_fd s) h" by auto
  have rw: "select_rd j ?t = select_rd j s" "select_wr j ?t = select_wr j s" for j by (simp_all add: select_rd_def select_wr_def)
  have okb: "has_bits 1536 (readset_in ?t)" "has_bits 1536 (writeset_in ?t)" using ok by (auto simp: select_ok_def)
  from select_put_ok [OF okb p] obtain ri wi where
    s': "s' = ?t\<lparr>readset_in := ri, writeset_in := wi\<rparr>" "has_bits 1536 ri" "has_bits 1536 wi"
    and q: "\<forall>j. select_rd j s' = (if j = fd \<and> has_rd t then v else select_rd j s)
        \<and> select_wr j s' = (if j = fd \<and> has_wr t then v else select_wr j s)" unfolding rw by blast
  have "j \<le> max (highest_fd s) h" if "select_rd j s' \<or> select_wr j s'" for j
  proof (cases "j = fd \<and> v")
    case True
    then show ?thesis using h(2) by simp
  next
    case False
    then have "select_rd j s \<or> select_wr j s" using that q by (auto split: if_splits)
    then show ?thesis using ok by (auto simp: select_ok_def)
  qed
  moreover have "highest_fd s' = max (highest_fd s) h" "sel_size s' = sel_size s" "readset_in s' = ri" "writeset_in s' = wi"
    "readset_out s' = readset_out s" "writeset_out s' = writeset_out s" using f by (simp_all add: s'(1))
  ultimately have "select_ok s'" using ok s'(2,3) h(1) by (auto simp: select_ok_def le_max_iff_disj)
  with q show ?thesis by blast
qed

lemma select_add_law:
  assumes ok: "select_ok s" and a: "select_add e fd t s = Inr (x, s')"
  shows "select_ok s' \<and> (\<forall>j. select_rd j s' = (select_rd j s \<or> x \<noteq> -1 \<and> j = fd \<and> has_rd t)
                 \<and> select_wr j s' = (select_wr j s \<or> x \<noteq> -1 \<and> j = fd \<and> has_wr t))"
proof (cases "MAX_SELECT_FD < fd")
  case True
  with a ok show ?thesis by (auto simp: select_add_def)
next
  case False
  then have fd: "fd \<le> MAX_SELECT_FD" by simp
  from a have "x = 0" "select_put True fd t (if highest_fd s < fd then s\<lparr>highest_fd := fd\<rparr> else s) = Inr s'"
    unfolding select_add_eq [OF ok fd] by (auto simp: bind_res_eq_Inr split: if_splits)
  with select_put_law [OF ok _ fd, where v = True and fd = fd and t = t and s' = s'] show ?thesis by auto
qed

lemma select_remove_law:
  assumes ok: "select_ok s" and r: "select_remove fd t s = Inr (x, s')"
  shows "select_ok s' \<and> (\<forall>j. select_rd j s' = (select_rd j s \<and> \<not> (x \<noteq> -1 \<and> j = fd \<and> has_rd t))
                 \<and> select_wr j s' = (select_wr j s \<and> \<not> (x \<noteq> -1 \<and> j = fd \<and> has_wr t)))"
proof -
  have h: "\<not> highest_fd s < 0" "(0::int) \<le> MAX_SELECT_FD" using ok by (auto simp: select_ok_def MAX_SELECT_FD_def)
  from r have "x = 0" "select_put False fd t s = Inr s'" by (auto simp: select_remove_def bind_res_eq_Inr)
  with select_put_law [OF ok _ h(2), where v = False and fd = fd and t = t and s' = s'] h(1) show ?thesis by auto
qed

section \<open>Listening\<close>

definition select_readable :: "int \<Rightarrow> select \<Rightarrow> bool" where
  "select_readable fd s = bit_of fd (readset_out s)"

definition select_writeable :: "int \<Rightarrow> select \<Rightarrow> bool" where
  "select_writeable fd s = bit_of fd (writeset_out s)"

lemma select_scan_filter:
  assumes "has_bits 1536 (readset_out s)" and "has_bits 1536 (writeset_out s)"
  shows "\<forall>j \<in> set js. 0 \<le> j \<and> j < 1536 \<Longrightarrow>
    select_scan s js = Inr (filter (\<lambda>j. select_readable j s \<or> select_writeable j s) js)"
  by (induction js) (auto simp: select_is_readable_def select_is_writeable_def FD_ISSET_ok [OF assms(1)]
      FD_ISSET_ok [OF assms(2)] select_readable_def select_writeable_def)

lemma select_listen_eq:
  assumes ok: "select_ok s" and len: "length rb = 1536" "length wb = 1536"
  shows "select_listen (r, rb, wb) s = Inr (r, s\<lparr>readset_out := Some rb, writeset_out := Some wb,
    sel_active := filter (\<lambda>j. bit_of j (Some rb) \<or> bit_of j (Some wb)) [0..highest_fd s]\<rparr>)"
proof -
  let ?t = "s\<lparr>readset_out := Some rb, writeset_out := Some wb, sel_active := []\<rparr>"
  from ok obtain ri wi ro wo where some: "readset_in s = Some ri" "writeset_in s = Some wi" "readset_out s = Some ro"
    "writeset_out s = Some wo" by (auto simp: select_ok_def has_bits_def split: option.splits)
  have b: "has_bits 1536 (readset_out ?t)" "has_bits 1536 (writeset_out ?t)" using len by (simp_all add: has_bits_def)
  have "\<forall>j \<in> set [0..highest_fd s]. 0 \<le> j \<and> j < 1536" using ok by (auto simp: select_ok_def MAX_SELECT_FD_def)
  from select_scan_filter [OF b this] some show ?thesis
    by (simp add: select_listen_def Let_def select_readable_def select_writeable_def)
qed

lemma list_all2_bits: "list_all2 (\<longrightarrow>) a b \<Longrightarrow> bit_of j (Some a) \<Longrightarrow> bit_of j (Some b)"
  by (auto simp: bit_of_def list_all2_conv_all_nth)

lemma select_listen_law:
  assumes ok: "select_ok s" and ans: "select_answer s i" and l: "select_listen i s = Inr (n, s')"
  shows "select_ok s' \<and> (\<forall>j. select_rd j s' = select_rd j s \<and> select_wr j s' = select_wr j s)
      \<and> (0 < n \<longrightarrow> (\<forall>j \<in> set (sel_active s'). (select_rd j s \<or> select_wr j s) \<and> (select_readable j s' \<or> select_writeable j s')))"
proof -
  obtain r rb wb where i: "i = (r, rb, wb)" by (cases i)
  from ok obtain ri wi where some: "readset_in s = Some ri" "writeset_in s = Some wi" "length ri = 1536" "length wi = 1536"
    by (auto simp: select_ok_def has_bits_def split: option.splits)
  have len: "length rb = 1536" "length wb = 1536" and sub: "list_all2 (\<longrightarrow>) rb ri" "list_all2 (\<longrightarrow>) wb wi"
    using ans some unfolding i select_answer_def by (auto split: if_splits simp: list_all2_refl)
  from l i select_listen_eq [OF ok len, of r] have s': "s' = s\<lparr>readset_out := Some rb, writeset_out := Some wb,
    sel_active := filter (\<lambda>j. bit_of j (Some rb) \<or> bit_of j (Some wb)) [0..highest_fd s]\<rparr>" by simp
  have q: "select_rd j s' = select_rd j s" "select_wr j s' = select_wr j s" for j
    by (simp_all add: s' select_rd_def select_wr_def)
  have okk: "select_ok s'" using ok len by (simp add: select_ok_def q has_bits_def) (simp add: s')
  have "(select_rd j s \<or> select_wr j s) \<and> (select_readable j s' \<or> select_writeable j s')" if "j \<in> set (sel_active s')" for j
    using that list_all2_bits [OF sub(1)] list_all2_bits [OF sub(2)]
    by (auto simp: s' select_rd_def select_wr_def some select_readable_def select_writeable_def)
  with okk q show ?thesis by blast
qed

interpretation sel: io_listener select_ok select_rd select_wr "select_add e" select_remove
    select_answer select_listen sel_active select_readable select_writeable
  for e :: heap_env
proof (unfold_locales, goal_cases)
  case (1 s t fd x s')
  then show ?case by (intro select_add_law)
next
  case (2 s t fd x s')
  then show ?case by (intro select_remove_law)
next
  case (3 s i n s')
  then show ?case by (rule select_listen_law)
qed

lemma select_new_ok:
  assumes "can_alloc e 192"
  shows "\<exists>s. select_new e = Inr s \<and> select_ok s \<and> (\<forall>fd. \<not> select_rd fd s \<and> \<not> select_wr fd s)"
proof -
  let ?m = "map (fresh_bit e) [0..<1536]"
  have r: "realloc_bits e None 192 = Some ?m" using assms by (simp add: realloc_bits_def)
  have m: "memset_tail (Some ?m) 0 192 = Inr (Some (replicate 1536 False))" by (simp add: memset_tail_def)
  let ?s = "\<lparr>readset_in = Some (replicate 1536 False), writeset_in = Some (replicate 1536 False), readset_out = Some ?m,
     writeset_out = Some ?m, sel_size = 192, highest_fd = 0, sel_active = []\<rparr>"
  have "select_new e = Inr ?s" by (simp add: select_new_def select_resize_def r m)
  moreover have "\<not> select_rd fd ?s \<and> \<not> select_wr fd ?s" for fd by (auto simp: select_rd_def select_wr_def bit_of_def)
  moreover from this have "select_ok ?s" by (simp add: select_ok_def has_bits_def MAX_SELECT_FD_def)
  ultimately show ?thesis by blast
qed

section \<open>Properties\<close>

text \<open>Which descriptors \<open>select\<close> can watch: with memory available, \<open>add\<close> of a descriptor up to 1024
  succeeds exactly outside the set \<open>resizes\<close> (192 to 1024 but for 320-383 and 704-767); for a
  descriptor in it, enlarging the sets clears memory far behind them and the program's behaviour is
  undefined, although the sets as allocated have room for 1536 descriptors.\<close>

theorem select_add_bounds:
  assumes ok: "select_ok s" and "\<forall>n. can_alloc e n" and fd: "0 \<le> fd" "fd \<le> MAX_SELECT_FD"
  shows "(select_add e fd t s = Inl BadAccess) = resizes fd
    \<and> (resizes fd \<or> (\<exists>s'. select_add e fd t s = Inr (0, s') \<and> select_ok s'))"
proof (cases "resizes fd")
  case True
  then show ?thesis using select_add_eq [OF ok fd(2), of e t] assms(2) by simp
next
  case False
  let ?t = "if highest_fd s < fd then s\<lparr>highest_fd := fd\<rparr> else s"
  have "has_bits 1536 (readset_in ?t)" "has_bits 1536 (writeset_in ?t)" "fd < 1536"
    using ok fd by (auto simp: select_ok_def MAX_SELECT_FD_def)
  from select_put_returns [OF this(1,2) fd(1) this(3), of True t] obtain s' where "select_put True fd t ?t = Inr s'" by blast
  then have "select_add e fd t s = Inr (0, s')" using select_add_eq [OF ok fd(2), of e t] False by simp
  with False select_add_law [OF ok this] show ?thesis by simp
qed

theorem select_add_bounds_witness:
  "\<exists>s. select_new \<lparr>can_alloc = (\<lambda>_. True), fresh = (\<lambda>_. NUL)\<rparr> = Inr s
    \<and> select_add \<lparr>can_alloc = (\<lambda>_. True), fresh = (\<lambda>_. NUL)\<rparr> 200 RD s = Inl BadAccess
    \<and> (\<exists>s'. select_add \<lparr>can_alloc = (\<lambda>_. True), fresh = (\<lambda>_. NUL)\<rparr> 100 RD s = Inr (0, s'))"
proof -
  let ?e = "\<lparr>can_alloc = (\<lambda>_. True), fresh = (\<lambda>_. NUL)\<rparr>"
  from select_new_ok [of ?e] obtain s where s: "select_new ?e = Inr s" "select_ok s" by auto
  have "resizes 200" "\<not> resizes 100" by (simp_all add: resizes_def MAX_SELECT_FD_def)
  with select_add_bounds [OF s(2), of ?e 200 RD] select_add_bounds [OF s(2), of ?e 100 RD] s(1) show ?thesis
    by (auto simp: MAX_SELECT_FD_def)
qed

text \<open>When \<open>::select\<close> fails, \<open>listen\<close> does not look at its return value: it reports every descriptor that is
  being watched as active, and as ready for exactly the events it is watched for, although nothing
  is known to have happened.\<close>

theorem select_error_reports_all:
  assumes ok: "select_ok s" and ans: "select_answer s (-1, rb, wb)"
  shows "\<exists>s'. select_listen (-1, rb, wb) s = Inr (-1, s')
    \<and> set (sel_active s') = {fd. select_rd fd s \<or> select_wr fd s}
    \<and> (\<forall>fd. select_readable fd s' = select_rd fd s \<and> select_writeable fd s' = select_wr fd s)"
proof -
  from ok obtain ri wi where some: "readset_in s = Some ri" "writeset_in s = Some wi" "length ri = 1536" "length wi = 1536"
    by (auto simp: select_ok_def has_bits_def split: option.splits)
  with ans have rb: "rb = ri" "wb = wi" by (simp_all add: select_answer_def)
  have "0 \<le> fd \<and> fd \<le> highest_fd s" if "select_rd fd s \<or> select_wr fd s" for fd
    using that ok unfolding select_ok_def by (auto simp: select_rd_def select_wr_def bit_of_def split: option.splits)
  with select_listen_eq [OF ok some(3,4), of "-1"] rb some(1,2) show ?thesis
    by (auto simp: select_rd_def select_wr_def select_readable_def select_writeable_def)
qed

theorem select_error_reports_all_witness:
  "\<exists>s s1 s2 rb wb. select_new \<lparr>can_alloc = (\<lambda>_. True), fresh = (\<lambda>_. NUL)\<rparr> = Inr s
    \<and> select_add \<lparr>can_alloc = (\<lambda>_. True), fresh = (\<lambda>_. NUL)\<rparr> 7 RD s = Inr (0, s1)
    \<and> select_listen (-1, rb, wb) s1 = Inr (-1, s2) \<and> set (sel_active s2) = {7}"
proof -
  let ?e = "\<lparr>can_alloc = (\<lambda>_. True), fresh = (\<lambda>_. NUL)\<rparr>"
  from select_new_ok [of ?e] obtain s where s: "select_new ?e = Inr s" "select_ok s" "\<forall>fd. \<not> select_rd fd s \<and> \<not> select_wr fd s" by auto
  let ?t = "if highest_fd s < 7 then s\<lparr>highest_fd := 7\<rparr> else s"
  have "has_bits 1536 (readset_in ?t)" "has_bits 1536 (writeset_in ?t)" using s(2) by (auto simp: select_ok_def)
  from select_put_returns [OF this, of 7 True RD] obtain s1 where "select_put True 7 RD ?t = Inr s1" by auto
  moreover have "\<not> resizes 7" by (simp add: resizes_def)
  ultimately have s1: "select_add ?e 7 RD s = Inr (0, s1)" using select_add_eq [OF s(2), of 7 ?e RD] by (simp add: MAX_SELECT_FD_def)
  from sel.add_law [OF s(2) _ s1] s(3) have ok: "select_ok s1" and w: "{fd. select_rd fd s1 \<or> select_wr fd s1} = {7}" by auto
  from ok obtain ri wi where "readset_in s1 = Some ri" "writeset_in s1 = Some wi"
    by (auto simp: select_ok_def has_bits_def split: option.splits)
  then have "select_answer s1 (-1, ri, wi)" by (simp add: select_answer_def)
  from select_error_reports_all [OF ok this] w s(1) s1 show ?thesis by auto
qed

end
