(* ===== verification/Libio_Poll.thy ===== *)
theory Libio_Poll
  imports Libio_Multiplexer
begin

unbundle bit_operations_syntax

text \<open>
  The \<open>poll\<close> back end of \<open>src/core/poll.hh\<close>: a map from descriptors to heap-allocated \<open>pollfd\<close>
  entries (a null pointer is \<open>None\<close>; \<open>map::at\<close> throws on a missing key), from which \<open>listen\<close>
  builds the array for the system call. The answer of \<open>::poll\<close> is an argument of \<open>listen\<close>.
\<close>

section \<open>Definitions\<close>

definition POLLIN :: int where "POLLIN = 1"

definition POLLOUT :: int where "POLLOUT = 4"

definition POLLERR :: int where "POLLERR = 8"

definition POLLHUP :: int where "POLLHUP = 16"

record pollfd =
  pfd_fd :: int
  pfd_events :: int
  pfd_revents :: int

record poll =
  pollfdMap :: "(int, pollfd option) smap"
  pl_result :: "(int, int) smap"
  pl_active :: "int list"

definition poll_new :: poll where
  "poll_new = \<lparr>pollfdMap = [], pl_result = [], pl_active = []\<rparr>"

definition poll_is_readset :: "int \<Rightarrow> poll \<Rightarrow> bool res" where
  "poll_is_readset fd s =
     bind_res (smap_at fd (pollfdMap s)) (\<lambda>pfd.
       Inr (case pfd of Some p \<Rightarrow> pfd_events p AND POLLIN \<noteq> 0 | None \<Rightarrow> False))"

definition poll_is_writeset :: "int \<Rightarrow> poll \<Rightarrow> bool res" where
  "poll_is_writeset fd s =
     bind_res (smap_at fd (pollfdMap s)) (\<lambda>pfd.
       Inr (case pfd of Some p \<Rightarrow> pfd_events p AND POLLOUT \<noteq> 0 | None \<Rightarrow> False))"

definition poll_is_readable :: "int \<Rightarrow> poll \<Rightarrow> bool res" where
  "poll_is_readable fd s =
     (if smap_count fd (pl_result s) then bind_res (smap_at fd (pl_result s)) (\<lambda>m. Inr (has_rd m)) else Inr False)"

definition poll_is_writeable :: "int \<Rightarrow> poll \<Rightarrow> bool res" where
  "poll_is_writeable fd s =
     (if smap_count fd (pl_result s) then bind_res (smap_at fd (pl_result s)) (\<lambda>m. Inr (has_wr m)) else Inr False)"

definition poll_add :: "int \<Rightarrow> int \<Rightarrow> poll \<Rightarrow> int \<times> poll" where
  "poll_add fd type s =
     (let pfd = (case smap_find fd (pollfdMap s) of
                   Some (Some p) \<Rightarrow> p
                 | _ \<Rightarrow> \<lparr>pfd_fd = fd, pfd_events = 0, pfd_revents = 0\<rparr>);
          p1 = (if has_rd type then pfd\<lparr>pfd_events := pfd_events pfd OR POLLIN\<rparr> else pfd);
          p2 = (if has_wr type then p1\<lparr>pfd_events := pfd_events p1 OR POLLOUT\<rparr> else p1) in
      (0, s\<lparr>pollfdMap := smap_set fd (Some p2) (pollfdMap s)\<rparr>))"

definition poll_remove :: "int \<Rightarrow> int \<Rightarrow> poll \<Rightarrow> (int \<times> poll) res" where
  "poll_remove fd type s =
     bind_res (smap_at fd (pollfdMap s)) (\<lambda>pfd.
       case pfd of
         None \<Rightarrow> Inr (-1, s)
       | Some p \<Rightarrow>
           let p1 = (if has_rd type then p\<lparr>pfd_events := pfd_events p AND NOT POLLIN\<rparr> else p);
               p2 = (if has_wr type then p1\<lparr>pfd_events := pfd_events p1 AND NOT POLLOUT\<rparr> else p1) in
           Inr (0, s\<lparr>pollfdMap :=
                     (if pfd_events p2 AND POLLIN = 0 \<and> pfd_events p2 AND POLLOUT = 0
                      then smap_erase fd (pollfdMap s) else smap_set fd (Some p2) (pollfdMap s))\<rparr>))"

text \<open>\<open>fds[i++] = *kv.second\<close> for every entry.\<close>

fun poll_array :: "(int, pollfd option) smap \<Rightarrow> pollfd list res" where
  "poll_array [] = Inr []"
| "poll_array ((fd, pfd) # m) =
     (case pfd of None \<Rightarrow> Inl NullDeref | Some p \<Rightarrow> bind_res (poll_array m) (\<lambda>ps. Inr (p # ps)))"

definition from_poll :: "int \<Rightarrow> int" where
  "from_poll what =
     (let w = (if what AND (POLLHUP OR POLLERR) \<noteq> 0 then what OR (POLLIN OR POLLOUT) else what) in
      (if w AND POLLIN \<noteq> 0 then RD else 0) OR (if w AND POLLOUT \<noteq> 0 then WR else 0))"

fun poll_collect :: "pollfd list \<Rightarrow> poll \<Rightarrow> poll" where
  "poll_collect [] s = s"
| "poll_collect (p # ps) s =
     (let event = from_poll (pfd_revents p) in
      poll_collect ps
        (if event \<noteq> 0
         then s\<lparr>pl_result := smap_set (pfd_fd p) event (pl_result s), pl_active := pl_active s @ [pfd_fd p]\<rparr>
         else s))"

text \<open>
  \<open>listen\<close>; the answer of \<open>::poll\<close> is its return value and the \<open>revents\<close> it stored. When nothing
  happened (a timeout) or the call failed, the results of the round before stay.
\<close>

definition poll_listen :: "int \<times> int list \<Rightarrow> poll \<Rightarrow> (int \<times> poll) res" where
  "poll_listen answer s =
     bind_res (poll_array (pollfdMap s)) (\<lambda>fds.
       case answer of (r, revs) \<Rightarrow>
         if r = 0 \<or> r = -1 then Inr (r, s)
         else Inr (r, poll_collect (map2 (\<lambda>p v. p\<lparr>pfd_revents := v\<rparr>) fds revs) (s\<lparr>pl_result := [], pl_active := []\<rparr>)))"

text \<open>
  What \<open>poll(2)\<close> promises: one \<open>revents\<close> per entry, and a return value that counts those that
  are not zero.
\<close>

definition poll_answer :: "poll \<Rightarrow> int \<times> int list \<Rightarrow> bool" where
  "poll_answer s answer =
     (case answer of (r, revs) \<Rightarrow> length revs = length (pollfdMap s) \<and> (r = -1 \<or> r = int (length (filter (\<lambda>v. v \<noteq> 0) revs))))"

definition poll_mask :: "bool \<Rightarrow> bool \<Rightarrow> int" where
  "poll_mask r w = (if r then POLLIN else 0) OR (if w then POLLOUT else 0)"

definition poll_rd :: "int \<Rightarrow> poll \<Rightarrow> bool" where
  "poll_rd fd s = (case smap_find fd (pollfdMap s) of Some (Some p) \<Rightarrow> pfd_events p AND POLLIN \<noteq> 0 | _ \<Rightarrow> False)"

definition poll_wr :: "int \<Rightarrow> poll \<Rightarrow> bool" where
  "poll_wr fd s = (case smap_find fd (pollfdMap s) of Some (Some p) \<Rightarrow> pfd_events p AND POLLOUT \<noteq> 0 | _ \<Rightarrow> False)"

text \<open>The invariant: an entry per descriptor of interest, for exactly the events asked for.\<close>

definition poll_entry :: "int \<Rightarrow> bool \<Rightarrow> bool \<Rightarrow> pollfd option option" where
  "poll_entry fd r w =
     (if r \<or> w then Some (Some \<lparr>pfd_fd = fd, pfd_events = poll_mask r w, pfd_revents = 0\<rparr>) else None)"

definition poll_ok :: "poll \<Rightarrow> bool" where
  "poll_ok s =
     (smap_ok (pollfdMap s) \<and> smap_ok (pl_result s) \<and>
      (\<forall>fd. smap_find fd (pollfdMap s) = poll_entry fd (poll_rd fd s) (poll_wr fd s)))"

section \<open>The interest map\<close>

lemma poll_mask_simps [simp]:
  "(poll_mask r w AND POLLIN \<noteq> 0) = r" "(poll_mask r w AND POLLOUT \<noteq> 0) = w"
  "(poll_mask r w AND POLLIN = 0) = (\<not> r)" "(poll_mask r w AND POLLOUT = 0) = (\<not> w)"
  "poll_mask r w OR POLLIN = poll_mask True w" "poll_mask r w OR POLLOUT = poll_mask r True"
  "poll_mask r w AND NOT POLLIN = poll_mask False w" "poll_mask r w AND NOT POLLOUT = poll_mask r False"
  by (cases r; cases w; simp add: poll_mask_def POLLIN_def POLLOUT_def)+

lemma poll_mask_0: "poll_mask False False = 0"
  by (simp add: poll_mask_def)

lemma poll_store:
  assumes ok: "poll_ok s" and m: "smap_ok m" "\<And>j. j \<noteq> fd \<Longrightarrow> smap_find j m = smap_find j (pollfdMap s)"
    and f: "smap_find fd m = poll_entry fd r w"
  shows "poll_ok (s\<lparr>pollfdMap := m\<rparr>) \<and> (\<forall>j. poll_rd j (s\<lparr>pollfdMap := m\<rparr>) = (if j = fd then r else poll_rd j s)
      \<and> poll_wr j (s\<lparr>pollfdMap := m\<rparr>) = (if j = fd then w else poll_wr j s))"
proof -
  have q: "poll_rd j (s\<lparr>pollfdMap := m\<rparr>) = (if j = fd then r else poll_rd j s)"
    "poll_wr j (s\<lparr>pollfdMap := m\<rparr>) = (if j = fd then w else poll_wr j s)" for j
    using m(2) [of j] f by (auto simp: poll_rd_def poll_wr_def poll_entry_def split: if_splits)
  have "smap_find j m = poll_entry j (poll_rd j (s\<lparr>pollfdMap := m\<rparr>)) (poll_wr j (s\<lparr>pollfdMap := m\<rparr>))" for j
    using ok m(2) [of j] f unfolding q by (auto simp: poll_ok_def)
  with ok m(1) q show ?thesis by (simp add: poll_ok_def)
qed

lemma poll_add_law:
  assumes ok: "poll_ok s" and t: "t \<in> {RD, WR, RDWR}" and a: "poll_add fd t s = (x, s')"
  shows "poll_ok s' \<and> (\<forall>j. poll_rd j s' = (poll_rd j s \<or> x \<noteq> -1 \<and> j = fd \<and> has_rd t)
                 \<and> poll_wr j s' = (poll_wr j s \<or> x \<noteq> -1 \<and> j = fd \<and> has_wr t))"
proof -
  let ?r = "poll_rd fd s" and ?w = "poll_wr fd s"
  let ?p = "\<lparr>pfd_fd = fd, pfd_events = poll_mask (?r \<or> has_rd t) (?w \<or> has_wr t), pfd_revents = 0\<rparr>"
  have nz: "has_rd t \<or> has_wr t" using t by auto
  have e: "smap_find fd (pollfdMap s) = poll_entry fd ?r ?w" using ok by (simp add: poll_ok_def)
  have "(case smap_find fd (pollfdMap s) of Some (Some p) \<Rightarrow> p
                 | _ \<Rightarrow> \<lparr>pfd_fd = fd, pfd_events = 0, pfd_revents = 0\<rparr>)
      = \<lparr>pfd_fd = fd, pfd_events = poll_mask ?r ?w, pfd_revents = 0\<rparr>"
    unfolding e by (auto simp: poll_entry_def poll_mask_0)
  then have "poll_add fd t s = (0, s\<lparr>pollfdMap := smap_set fd (Some ?p) (pollfdMap s)\<rparr>)"
    unfolding poll_add_def Let_def by (cases "has_rd t"; cases "has_wr t") auto
  with a have s': "x = 0" "s' = s\<lparr>pollfdMap := smap_set fd (Some ?p) (pollfdMap s)\<rparr>" by auto
  have m: "smap_ok (pollfdMap s)" using ok by (simp add: poll_ok_def)
  have f: "smap_find fd (smap_set fd (Some ?p) (pollfdMap s)) = poll_entry fd (?r \<or> has_rd t) (?w \<or> has_wr t)"
    using nz by (auto simp: smap_find_set poll_entry_def)
  have "smap_find j (smap_set fd (Some ?p) (pollfdMap s)) = smap_find j (pollfdMap s)" if "j \<noteq> fd" for j
    using that by (simp add: smap_find_set)
  from poll_store [OF ok smap_ok_set [OF m] this f] s'(1) show ?thesis unfolding s'(2) by simp
qed

lemma poll_remove_law:
  assumes ok: "poll_ok s" and t: "t \<in> {RD, WR, RDWR}" and a: "poll_remove fd t s = Inr (x, s')"
  shows "poll_ok s' \<and> (\<forall>j. poll_rd j s' = (poll_rd j s \<and> \<not> (x \<noteq> -1 \<and> j = fd \<and> has_rd t))
                 \<and> poll_wr j s' = (poll_wr j s \<and> \<not> (x \<noteq> -1 \<and> j = fd \<and> has_wr t)))"
proof -
  let ?r = "poll_rd fd s" and ?w = "poll_wr fd s"
  let ?r' = "?r \<and> \<not> has_rd t" and ?w' = "?w \<and> \<not> has_wr t"
  let ?p = "\<lparr>pfd_fd = fd, pfd_events = poll_mask ?r' ?w', pfd_revents = 0\<rparr>"
  let ?m = "if ?r' \<or> ?w' then smap_set fd (Some ?p) (pollfdMap s) else smap_erase fd (pollfdMap s)"
  have e: "smap_find fd (pollfdMap s) = poll_entry fd ?r ?w" using ok by (simp add: poll_ok_def)
  have some: "?r \<or> ?w" using a unfolding poll_remove_def smap_at_def e by (auto simp: poll_entry_def split: if_splits)
  have "smap_at fd (pollfdMap s) = Inr (Some \<lparr>pfd_fd = fd, pfd_events = poll_mask ?r ?w, pfd_revents = 0\<rparr>)"
    using some unfolding smap_at_def e by (simp add: poll_entry_def)
  then have "poll_remove fd t s = Inr (0, s\<lparr>pollfdMap := ?m\<rparr>)"
    unfolding poll_remove_def Let_def by (cases "has_rd t"; cases "has_wr t") auto
  with a have s': "x = 0" "s' = s\<lparr>pollfdMap := ?m\<rparr>" by auto
  have m: "smap_ok (pollfdMap s)" using ok by (simp add: poll_ok_def)
  then have m': "smap_ok ?m" by simp
  have f: "smap_find fd ?m = poll_entry fd ?r' ?w'" using m by (simp add: smap_find_set smap_find_erase poll_entry_def)
  have "smap_find j ?m = smap_find j (pollfdMap s)" if "j \<noteq> fd" for j
    using that m by (simp add: smap_find_set smap_find_erase)
  from poll_store [OF ok m' this f] s'(1) show ?thesis unfolding s'(2) by auto
qed

section \<open>Listening\<close>

definition poll_readable :: "int \<Rightarrow> poll \<Rightarrow> bool" where
  "poll_readable fd s = (case smap_find fd (pl_result s) of None \<Rightarrow> False | Some m \<Rightarrow> has_rd m)"

definition poll_writeable :: "int \<Rightarrow> poll \<Rightarrow> bool" where
  "poll_writeable fd s = (case smap_find fd (pl_result s) of None \<Rightarrow> False | Some m \<Rightarrow> has_wr m)"

lemma poll_queries:
  "poll_is_readable fd s = Inr (poll_readable fd s)" "poll_is_writeable fd s = Inr (poll_writeable fd s)"
  by (auto simp: poll_is_readable_def poll_is_writeable_def poll_readable_def poll_writeable_def smap_count_def
      smap_at_def split: option.splits)

lemma from_poll_mask:
  "from_poll what = rdwr_mask (what AND (POLLHUP OR POLLERR) \<noteq> 0 \<or> what AND POLLIN \<noteq> 0)
     (what AND (POLLHUP OR POLLERR) \<noteq> 0 \<or> what AND POLLOUT \<noteq> 0)"
proof -
  have "(a OR (b OR c)) AND c = c" "(a OR (b OR c)) AND b = b" for a b c :: int
    by (rule bit_eqI; auto simp: bit_and_iff bit_or_iff)+
  from this [of what 1 4] have "(what OR 5) AND 1 = (1::int)" "(what OR 5) AND 4 = 4" by simp_all
  then show ?thesis
    by (simp add: from_poll_def Let_def rdwr_mask_def POLLHUP_def POLLERR_def POLLIN_def POLLOUT_def)
qed

lemma poll_array_ok:
  "\<forall>fd v. (fd, v) \<in> set m \<longrightarrow> (\<exists>p. v = Some p \<and> pfd_fd p = fd) \<Longrightarrow>
   poll_array m = Inr (map (the \<circ> snd) m) \<and> map pfd_fd (map (the \<circ> snd) m) = map fst m"
  by (induction m rule: poll_array.induct) fastforce+

lemma poll_ok_entries:
  assumes "poll_ok s" and "(fd, v) \<in> set (pollfdMap s)"
  shows "\<exists>p. v = Some p \<and> pfd_fd p = fd" "poll_rd fd s \<or> poll_wr fd s"
proof -
  have "smap_find fd (pollfdMap s) = Some v" using assms smap_find_iff [of "pollfdMap s" fd v] unfolding poll_ok_def by blast
  with assms(1) have "poll_entry fd (poll_rd fd s) (poll_wr fd s) = Some v" by (simp add: poll_ok_def)
  then show "\<exists>p. v = Some p \<and> pfd_fd p = fd" "poll_rd fd s \<or> poll_wr fd s" by (auto simp: poll_entry_def split: if_splits)
qed

lemma poll_collect_frame:
  "pollfdMap (poll_collect ps s) = pollfdMap s"
  "pl_active (poll_collect ps s) = pl_active s @ map pfd_fd (filter (\<lambda>p. from_poll (pfd_revents p) \<noteq> 0) ps)"
  "smap_ok (pl_result s) \<Longrightarrow> smap_ok (pl_result (poll_collect ps s))"
  by (induction ps s rule: poll_collect.induct) (auto simp: Let_def)

lemma poll_collect_result:
  "distinct (map pfd_fd ps) \<Longrightarrow> p \<in> set ps \<Longrightarrow> from_poll (pfd_revents p) \<noteq> 0 \<Longrightarrow>
   smap_find (pfd_fd p) (pl_result (poll_collect ps s)) = Some (from_poll (pfd_revents p))"
proof (induction ps s rule: poll_collect.induct)
  case (2 q ps s)
  have other: "fd \<notin> pfd_fd ` set ps \<Longrightarrow> smap_find fd (pl_result (poll_collect ps t)) = smap_find fd (pl_result t)" for fd t
    by (induction ps t rule: poll_collect.induct) (auto simp: Let_def smap_find_set)
  show ?case
  proof (cases "p = q")
    case True
    with 2 other [of "pfd_fd q"] show ?thesis by (auto simp: Let_def smap_find_set)
  next
    case False
    with 2 show ?thesis by (auto simp: Let_def)
  qed
qed simp

lemma poll_listen_eq:
  assumes ok: "poll_ok s" and r: "r \<noteq> 0" "r \<noteq> -1" and l: "poll_listen (r, revs) s = Inr (n, s')" "length revs = length (pollfdMap s)"
  shows "\<exists>ps. s' = poll_collect ps (s\<lparr>pl_result := [], pl_active := []\<rparr>) \<and> map pfd_fd ps = map fst (pollfdMap s)
    \<and> map pfd_revents ps = revs \<and> n = r"
proof -
  let ?ps = "map2 (\<lambda>p v. p\<lparr>pfd_revents := v\<rparr>) (map (the \<circ> snd) (pollfdMap s)) revs"
  have a: "poll_array (pollfdMap s) = Inr (map (the \<circ> snd) (pollfdMap s))"
    "map pfd_fd (map (the \<circ> snd) (pollfdMap s)) = map fst (pollfdMap s)"
    using poll_array_ok [of "pollfdMap s"] poll_ok_entries(1) [OF ok] by blast+
  have "map pfd_fd ?ps = map fst (pollfdMap s)"
    unfolding a(2) [symmetric] by (rule nth_equalityI) (auto simp: l(2))
  moreover have "map pfd_revents ?ps = revs" by (rule nth_equalityI) (auto simp: l(2))
  ultimately show ?thesis using l(1) r a(1) by (intro exI [of _ ?ps]) (auto simp: poll_listen_def)
qed

lemma poll_listen_law:
  assumes ok: "poll_ok s" and ans: "poll_answer s i" and l: "poll_listen i s = Inr (n, s')"
  shows "poll_ok s' \<and> (\<forall>j. poll_rd j s' = poll_rd j s \<and> poll_wr j s' = poll_wr j s)
      \<and> (0 < n \<longrightarrow> (\<forall>j \<in> set (pl_active s'). (poll_rd j s \<or> poll_wr j s) \<and> (poll_readable j s' \<or> poll_writeable j s')))"
proof -
  obtain r revs where i: "i = (r, revs)" by (cases i)
  show ?thesis
  proof (cases "r = 0 \<or> r = -1")
    case True
    with l i have "s' = s \<and> n = r" by (auto simp: poll_listen_def bind_res_eq_Inr)
    with True ok show ?thesis by auto
  next
    case False
    with poll_listen_eq [OF ok, of r revs n s'] l i ans obtain ps where
      ps: "s' = poll_collect ps (s\<lparr>pl_result := [], pl_active := []\<rparr>)" "map pfd_fd ps = map fst (pollfdMap s)"
      by (auto simp: poll_answer_def)
    have fr: "pollfdMap s' = pollfdMap s" "smap_ok (pl_result s')" by (simp_all add: ps(1) poll_collect_frame)
    have q: "poll_rd j s' = poll_rd j s" "poll_wr j s' = poll_wr j s" for j by (simp_all add: poll_rd_def poll_wr_def fr)
    have okk: "poll_ok s'" using ok fr q by (simp add: poll_ok_def)
    have d: "distinct (map pfd_fd ps)" using ok unfolding ps(2) poll_ok_def smap_ok_def
      by (metis strict_sorted_iff)
    have "(poll_rd j s \<or> poll_wr j s) \<and> (poll_readable j s' \<or> poll_writeable j s')" if "j \<in> set (pl_active s')" for j
    proof -
      from that obtain p where p: "p \<in> set ps" "j = pfd_fd p" "from_poll (pfd_revents p) \<noteq> 0"
        by (auto simp: ps(1) poll_collect_frame)
      from poll_collect_result [OF d p(1,3)] p have "poll_readable j s' \<or> poll_writeable j s'"
        unfolding poll_readable_def poll_writeable_def ps(1) from_poll_mask by (simp add: mask_zero)
      moreover have "j \<in> fst ` set (pollfdMap s)" using p ps(2) by (metis image_eqI set_map)
      then obtain v where "(j, v) \<in> set (pollfdMap s)" by auto
      then have "poll_rd j s \<or> poll_wr j s" by (rule poll_ok_entries(2) [OF ok])
      ultimately show ?thesis by blast
    qed
    with okk q show ?thesis by blast
  qed
qed

interpretation pl: io_listener poll_ok poll_rd poll_wr "\<lambda>fd t s. Inr (poll_add fd t s)" poll_remove
    poll_answer poll_listen pl_active poll_readable poll_writeable
proof (unfold_locales, goal_cases)
  case (1 s t fd x s')
  then show ?case using poll_add_law [of s t fd x s'] by simp
next
  case (2 s t fd x s')
  then show ?case by (rule poll_remove_law)
next
  case (3 s i n s')
  then show ?case by (rule poll_listen_law)
qed

section \<open>Properties\<close>

text \<open>A history of calls of \<open>add\<close> (\<open>True\<close>) and \<open>remove\<close> (\<open>False\<close>) and the interest it leaves.\<close>

fun poll_run :: "(bool \<times> int \<times> int) list \<Rightarrow> poll \<Rightarrow> poll res" where
  "poll_run [] s = Inr s"
| "poll_run ((a, fd, t) # ops) s =
     bind_res (if a then Inr (poll_add fd t s) else poll_remove fd t s) (\<lambda>(x, s'). poll_run ops s')"

fun interest_after :: "(int \<Rightarrow> bool) \<Rightarrow> (bool \<times> int \<times> int) list \<Rightarrow> (int \<Rightarrow> bool) \<Rightarrow> (int \<Rightarrow> bool)" where
  "interest_after has [] f = f"
| "interest_after has ((a, fd, t) # ops) f = interest_after has ops (if has t then f(fd := a) else f)"

lemma poll_remove_value: "poll_ok s \<Longrightarrow> poll_remove fd t s = Inr (x, s') \<Longrightarrow> x = 0"
  using poll_ok_entries(1) [of s fd] smap_find_in [of fd "pollfdMap s"]
  by (fastforce simp: poll_remove_def smap_at_def bind_res_eq_Inr Let_def split: option.splits)

lemma poll_run_interest:
  "poll_ok s \<Longrightarrow> \<forall>(a, fd, t) \<in> set ops. t \<in> {RD, WR, RDWR} \<Longrightarrow> poll_run ops s = Inr s' \<Longrightarrow>
   poll_ok s' \<and> (\<lambda>fd. poll_rd fd s') = interest_after has_rd ops (\<lambda>fd. poll_rd fd s)
     \<and> (\<lambda>fd. poll_wr fd s') = interest_after has_wr ops (\<lambda>fd. poll_wr fd s)"
proof (induction ops arbitrary: s)
  case (Cons op ops)
  obtain a fd t where op: "op = (a, fd, t)" by (cases op)
  from Cons.prems(3) op obtain x s1 where s1: "(if a then Inr (poll_add fd t s) else poll_remove fd t s) = Inr (x, s1)"
    "poll_run ops s1 = Inr s'" by (auto simp: bind_res_eq_Inr)
  have t: "t \<in> {RD, WR, RDWR}" "\<forall>(a, fd, t) \<in> set ops. t \<in> {RD, WR, RDWR}" using Cons.prems(2) op by auto
  have x: "x \<noteq> -1" using s1(1) poll_remove_value [OF Cons.prems(1), of fd t x s1] by (cases a) (auto simp: poll_add_def Let_def)
  have law: "poll_ok s1" "(\<lambda>fd. poll_rd fd s1) = (if has_rd t then (\<lambda>fd. poll_rd fd s)(fd := a) else (\<lambda>fd. poll_rd fd s))"
    "(\<lambda>fd. poll_wr fd s1) = (if has_wr t then (\<lambda>fd. poll_wr fd s)(fd := a) else (\<lambda>fd. poll_wr fd s))"
    using s1(1) pl.add_law [OF Cons.prems(1) t(1), of fd x s1] pl.remove_law [OF Cons.prems(1) t(1), of fd x s1] x
    by (cases a; auto simp: fun_eq_iff)+
  from Cons.IH [OF law(1) t(2) s1(2)] show ?case unfolding op interest_after.simps law(2,3) .
qed simp

text \<open>C28. The interest sets of \<open>poll\<close> are what the calls made say: after any sequence of \<open>add\<close> and
  \<open>remove\<close> that does not throw, a descriptor is watched for an event exactly when the last call
  naming that descriptor and event was an \<open>add\<close>; and a descriptor watched for nothing has no entry.\<close>

theorem poll_tracks_interest:
  assumes "list_all (\<lambda>(a, fd, t). t \<in> {RD, WR, RDWR}) ops" and "poll_run ops poll_new = Inr s"
  shows "(\<lambda>fd. poll_rd fd s) = interest_after has_rd ops (\<lambda>_. False)
    \<and> (\<lambda>fd. poll_wr fd s) = interest_after has_wr ops (\<lambda>_. False)
    \<and> (\<forall>fd. smap_count fd (pollfdMap s) = (poll_rd fd s \<or> poll_wr fd s))"
proof -
  have new: "poll_ok poll_new" "(\<lambda>fd. poll_rd fd poll_new) = (\<lambda>_. False)" "(\<lambda>fd. poll_wr fd poll_new) = (\<lambda>_. False)"
    by (auto simp: poll_ok_def poll_new_def poll_rd_def poll_wr_def poll_entry_def)
  have "\<forall>(a, fd, t) \<in> set ops. t \<in> {RD, WR, RDWR}" using assms(1) by (simp only: list_all_iff)
  from poll_run_interest [OF new(1) this assms(2)] new(2,3)
  have r: "poll_ok s" "(\<lambda>fd. poll_rd fd s) = interest_after has_rd ops (\<lambda>_. False)"
    "(\<lambda>fd. poll_wr fd s) = interest_after has_wr ops (\<lambda>_. False)" by simp_all
  have "smap_count fd (pollfdMap s) = (poll_rd fd s \<or> poll_wr fd s)" for fd
  proof -
    have "smap_find fd (pollfdMap s) = poll_entry fd (poll_rd fd s) (poll_wr fd s)" using r(1) by (simp add: poll_ok_def)
    then show ?thesis by (simp add: smap_count_def poll_entry_def)
  qed
  with r(2,3) show ?thesis by blast
qed

theorem poll_tracks_interest_witness:
  "\<exists>s. poll_run [(True, 4, RDWR), (True, 7, RD), (False, 4, RD)] poll_new = Inr s
    \<and> \<not> poll_rd 4 s \<and> poll_wr 4 s \<and> poll_rd 7 s \<and> \<not> smap_count 9 (pollfdMap s)"
proof -
  let ?ops = "[(True, 4, RDWR), (True, 7, RD), (False, 4, RD)]"
  have "case poll_run ?ops poll_new of Inr _ \<Rightarrow> True | Inl _ \<Rightarrow> False" by code_simp
  then obtain s where s: "poll_run ?ops poll_new = Inr s" by (auto split: sum.splits)
  have "list_all (\<lambda>(a, fd, t). t \<in> {RD, WR, RDWR}) ?ops" by simp
  note r = poll_tracks_interest [OF this s]
  have "poll_rd fd s = interest_after has_rd ?ops (\<lambda>_. False) fd"
    "poll_wr fd s = interest_after has_wr ?ops (\<lambda>_. False) fd" "smap_count fd (pollfdMap s) = (poll_rd fd s \<or> poll_wr fd s)" for fd
    using fun_cong [OF conjunct1 [OF r], of fd] fun_cong [OF conjunct1 [OF conjunct2 [OF r]], of fd] conjunct2 [OF conjunct2 [OF r]]
    by blast+
  then show ?thesis using s by (intro exI [of _ s]) simp
qed

text \<open>When \<open>::poll\<close> times out (or fails), \<open>listen\<close> of \<open>poll\<close> leaves the results of the round before in
  place: descriptors that were ready then are still reported as active and readable or
  writeable, whatever has happened to them since, even if they were removed in between.\<close>

theorem poll_timeout_reports_stale:
  assumes "poll_ok s" and "r = 0 \<or> r = -1"
  shows "poll_listen (r, revs) s = Inr (r, s)"
proof -
  have "poll_array (pollfdMap s) = Inr (map (the \<circ> snd) (pollfdMap s))"
    using poll_array_ok [of "pollfdMap s"] poll_ok_entries(1) [OF assms(1)] by blast
  with assms(2) show ?thesis by (auto simp: poll_listen_def)
qed

theorem poll_timeout_reports_stale_witness:
  "\<exists>s1 s2 s3. poll_listen (1, [POLLIN]) (snd (poll_add 5 RD poll_new)) = Inr (1, s1)
    \<and> poll_remove 5 RD s1 = Inr (0, s2) \<and> poll_listen (0, []) s2 = Inr (0, s3)
    \<and> 5 \<in> set (pl_active s3) \<and> poll_is_readable 5 s3 = Inr True \<and> \<not> poll_rd 5 s3"
proof -
  let ?p = "\<lparr>pfd_fd = 5, pfd_events = POLLIN, pfd_revents = 0\<rparr>"
  let ?a = "\<lparr>pollfdMap = [(5, Some ?p)], pl_result = [(5, RD)], pl_active = [5]\<rparr>"
  let ?b = "\<lparr>pollfdMap = [], pl_result = [(5, RD)], pl_active = [5]\<rparr>"
  have "from_poll POLLIN = RD" by (simp add: from_poll_def POLLIN_def POLLOUT_def POLLHUP_def POLLERR_def Let_def)
  moreover have "RD \<noteq> 0" by (simp add: RD_def)
  ultimately have 1: "poll_listen (1, [POLLIN]) (snd (poll_add 5 RD poll_new)) = Inr (1, ?a)"
    by (simp add: poll_listen_def poll_add_def poll_new_def Let_def)
  have "POLLIN AND NOT POLLIN = 0" by simp
  then have 2: "poll_remove 5 RD ?a = Inr (0, ?b)" by (simp add: poll_remove_def smap_at_def Let_def)
  have "poll_ok ?b" by (simp add: poll_ok_def poll_entry_def poll_rd_def poll_wr_def)
  from poll_timeout_reports_stale [OF this, of 0 "[]"] 1 2 show ?thesis
    by (intro exI [of _ ?a] exI [of _ ?b] conjI) (simp_all add: poll_queries poll_readable_def poll_rd_def)
qed

end
