(* ===== verification/Libio_Reactor.thy ===== *)
theory Libio_Reactor
  imports Libio_Time Libio_Socket Libio_Epoll Libio_Select Libio_Poll
begin

text \<open>
  The event loop of \<open>src/model/reactor.hh\<close>. The template argument is the record \<open>io_ops\<close> of the
  operations the class calls; \<open>epoll_ops\<close>, \<open>poll_ops\<close> and \<open>select_ops\<close> are the three instances. A
  channel is held by \<open>unique_ptr\<close>: the entry \<open>None\<close> is the null pointer that \<open>channels[fd]\<close> inserts for
  a missing key. What a callback does is the argument \<open>exec\<close>: it may change the world and the reactor.
\<close>

section \<open>Definitions\<close>

record ('io, 'i) io_ops =
  io_add :: "int \<Rightarrow> int \<Rightarrow> 'io \<Rightarrow> (int \<times> 'io) res"
  io_remove :: "int \<Rightarrow> int \<Rightarrow> 'io \<Rightarrow> (int \<times> 'io) res"
  io_listen :: "'i \<Rightarrow> 'io \<Rightarrow> (int \<times> 'io) res"
  io_active :: "'io \<Rightarrow> int list"
  io_readable :: "int \<Rightarrow> 'io \<Rightarrow> bool res"
  io_writeable :: "int \<Rightarrow> 'io \<Rightarrow> bool res"

definition epoll_ops :: "'k epoll_ctl \<Rightarrow> ('k epoll, (int \<times> int) list option) io_ops" where
  "epoll_ops ctl = \<lparr>io_add = (\<lambda>fd t s. Inr (epoll_add ctl fd t s)), io_remove = (\<lambda>fd t s. Inr (epoll_remove ctl fd t s)),
     io_listen = (\<lambda>i s. Inr (epoll_listen i s)), io_active = ep_active, io_readable = epoll_is_readable, io_writeable = epoll_is_writeable\<rparr>"

definition poll_ops :: "(poll, int \<times> int list) io_ops" where
  "poll_ops = \<lparr>io_add = (\<lambda>fd t s. Inr (poll_add fd t s)), io_remove = poll_remove,
     io_listen = poll_listen, io_active = pl_active, io_readable = poll_is_readable, io_writeable = poll_is_writeable\<rparr>"

definition select_ops :: "heap_env \<Rightarrow> (select, int \<times> fd_bits \<times> fd_bits) io_ops" where
  "select_ops e = \<lparr>io_add = select_add e, io_remove = select_remove,
     io_listen = select_listen, io_active = sel_active, io_readable = select_is_readable, io_writeable = select_is_writeable\<rparr>"

record 'cb channel =
  ch_fd :: int
  readcb :: "'cb option"
  writecb :: "'cb option"
  errorcb :: "'cb option"

record ('io, 'cb, 'k) reactor =
  re_time :: "'cb tmgr"
  re_io :: 'io
  channels :: "(int, 'cb channel option) smap"
  needclean :: "int list"
  terminated :: bool
  re_kernel :: 'k

definition reactor_new :: "'io \<Rightarrow> 'k \<Rightarrow> ('io, 'cb, 'k) reactor" where
  "reactor_new io k = \<lparr>re_time = time_new, re_io = io, channels = [], needclean = [], terminated = False, re_kernel = k\<rparr>"

definition reactor_empty :: "('io, 'cb, 'k) reactor \<Rightarrow> bool" where
  "reactor_empty r = (channels r = [])"

definition reactor_size :: "('io, 'cb, 'k) reactor \<Rightarrow> int" where
  "reactor_size r = to_int (int (length (channels r)))"

definition reactor_clear :: "('io, 'cb, 'k) reactor \<Rightarrow> ('io, 'cb, 'k) reactor" where
  "reactor_clear r = r\<lparr>channels := []\<rparr>"

definition set_terminated :: "('io, 'cb, 'k) reactor \<Rightarrow> ('io, 'cb, 'k) reactor" where
  "set_terminated r = r\<lparr>terminated := True\<rparr>"

definition reactor_set_timer ::
  "time_env \<Rightarrow> timeval \<Rightarrow> int \<Rightarrow> 'cb \<Rightarrow> ('io, 'cb, 'k) reactor \<Rightarrow> (int \<times> ('io, 'cb, 'k) reactor) res" where
  "reactor_set_timer env now sec f r =
     bind_res (set_timer_sec env now sec f (re_time r)) (\<lambda>(i, t). Inr (i, r\<lparr>re_time := t\<rparr>))"

text \<open>\<open>init_channel\<close>; what \<open>set_nonblock\<close> returns is ignored.\<close>

definition init_channel :: "('k, 'a) sys \<Rightarrow> int \<Rightarrow> ('io, 'cb, 'k) reactor \<Rightarrow> ('io, 'cb, 'k) reactor res" where
  "init_channel y fd r =
     (if fd < 0 then Inl (ExitCalled (-1))
      else
        Inr (r\<lparr>channels :=
                 (if smap_count fd (channels r) then channels r
                  else smap_set fd (Some \<lparr>ch_fd = fd, readcb = None, writecb = None, errorcb = None\<rparr>) (channels r)),
               re_kernel := snd (set_nonblock y fd (re_kernel r))\<rparr>))"

text \<open>\<open>channels[fd]->m\<close>: the lookup inserts a null pointer for a missing key, the arrow follows it.\<close>

definition channel_at :: "int \<Rightarrow> ('io, 'cb, 'k) reactor \<Rightarrow> 'cb channel res" where
  "channel_at fd r = (case fst (smap_index None fd (channels r)) of None \<Rightarrow> Inl NullDeref | Some c \<Rightarrow> Inr c)"

definition put_channel :: "int \<Rightarrow> 'cb channel \<Rightarrow> ('io, 'cb, 'k) reactor \<Rightarrow> ('io, 'cb, 'k) reactor" where
  "put_channel fd c r = r\<lparr>channels := smap_set fd (Some c) (channels r)\<rparr>"

text \<open>\<open>add_read\<close>, \<open>add_write\<close>, \<open>remove_read\<close>, \<open>remove_write\<close>, which drop what the multiplexer returns.\<close>

definition io_call :: "('io \<Rightarrow> (int \<times> 'io) res) \<Rightarrow> ('io, 'cb, 'k) reactor \<Rightarrow> ('io, 'cb, 'k) reactor res" where
  "io_call f r = bind_res (f (re_io r)) (\<lambda>(_, s). Inr (r\<lparr>re_io := s\<rparr>))"

definition add_read :: "('io, 'i) io_ops \<Rightarrow> int \<Rightarrow> ('io, 'cb, 'k) reactor \<Rightarrow> ('io, 'cb, 'k) reactor res" where
  "add_read ops fd r = io_call (io_add ops fd RD) r"

definition add_write :: "('io, 'i) io_ops \<Rightarrow> int \<Rightarrow> ('io, 'cb, 'k) reactor \<Rightarrow> ('io, 'cb, 'k) reactor res" where
  "add_write ops fd r = io_call (io_add ops fd WR) r"

definition remove_read :: "('io, 'i) io_ops \<Rightarrow> int \<Rightarrow> ('io, 'cb, 'k) reactor \<Rightarrow> ('io, 'cb, 'k) reactor res" where
  "remove_read ops fd r = io_call (io_remove ops fd RD) r"

definition remove_write :: "('io, 'i) io_ops \<Rightarrow> int \<Rightarrow> ('io, 'cb, 'k) reactor \<Rightarrow> ('io, 'cb, 'k) reactor res" where
  "remove_write ops fd r = io_call (io_remove ops fd WR) r"

definition set_read_handler ::
  "('io, 'i) io_ops \<Rightarrow> ('k, 'a) sys \<Rightarrow> int \<Rightarrow> 'cb \<Rightarrow> ('io, 'cb, 'k) reactor \<Rightarrow> ('io, 'cb, 'k) reactor res" where
  "set_read_handler ops y fd f r =
     bind_res (init_channel y fd r) (\<lambda>r1.
     bind_res (add_read ops fd r1) (\<lambda>r2.
     bind_res (channel_at fd r2) (\<lambda>c. Inr (put_channel fd (c\<lparr>readcb := Some f\<rparr>) r2))))"

definition set_write_handler ::
  "('io, 'i) io_ops \<Rightarrow> ('k, 'a) sys \<Rightarrow> int \<Rightarrow> 'cb \<Rightarrow> ('io, 'cb, 'k) reactor \<Rightarrow> ('io, 'cb, 'k) reactor res" where
  "set_write_handler ops y fd f r =
     bind_res (init_channel y fd r) (\<lambda>r1.
     bind_res (add_write ops fd r1) (\<lambda>r2.
     bind_res (channel_at fd r2) (\<lambda>c. Inr (put_channel fd (c\<lparr>writecb := Some f\<rparr>) r2))))"

definition set_error_handler ::
  "('k, 'a) sys \<Rightarrow> int \<Rightarrow> 'cb \<Rightarrow> ('io, 'cb, 'k) reactor \<Rightarrow> ('io, 'cb, 'k) reactor res" where
  "set_error_handler y fd f r =
     bind_res (init_channel y fd r) (\<lambda>r1.
     bind_res (channel_at fd r1) (\<lambda>c. Inr (put_channel fd (c\<lparr>errorcb := Some f\<rparr>) r1)))"

definition remove_read_handler ::
  "('io, 'i) io_ops \<Rightarrow> int \<Rightarrow> ('io, 'cb, 'k) reactor \<Rightarrow> ('io, 'cb, 'k) reactor res" where
  "remove_read_handler ops fd r =
     (if \<not> smap_count fd (channels r) then Inr r
      else
        bind_res (channel_at fd r) (\<lambda>c.
          let r1 = put_channel fd (c\<lparr>readcb := None\<rparr>) r;
              r2 = (if writecb c = None then r1\<lparr>needclean := needclean r1 @ [fd]\<rparr> else r1) in
          remove_read ops fd r2))"

definition remove_write_handler ::
  "('io, 'i) io_ops \<Rightarrow> int \<Rightarrow> ('io, 'cb, 'k) reactor \<Rightarrow> ('io, 'cb, 'k) reactor res" where
  "remove_write_handler ops fd r =
     (if \<not> smap_count fd (channels r) then Inr r
      else
        bind_res (channel_at fd r) (\<lambda>c.
          let r1 = put_channel fd (c\<lparr>writecb := None\<rparr>) r;
              r2 = (if readcb c = None then r1\<lparr>needclean := needclean r1 @ [fd]\<rparr> else r1) in
          remove_write ops fd r2))"

definition reactor_erase :: "int \<Rightarrow> ('io, 'cb, 'k) reactor \<Rightarrow> ('io, 'cb, 'k) reactor" where
  "reactor_erase fd r = r\<lparr>channels := smap_erase fd (channels r)\<rparr>"

type_synonym ('io, 'cb, 'k, 'w) rexec =
  "'cb \<Rightarrow> 'w \<times> ('io, 'cb, 'k) reactor \<Rightarrow> ('w \<times> ('io, 'cb, 'k) reactor) res"

text \<open>The callback of a timer sees the whole reactor, the timer manager included.\<close>

definition timer_exec :: "('io, 'cb, 'k, 'w) rexec \<Rightarrow> ('cb, 'w \<times> ('io, 'cb, 'k) reactor) exec" where
  "timer_exec exec cb ws =
     (case ws of ((w, r), t) \<Rightarrow>
        bind_res (exec cb (w, r\<lparr>re_time := t\<rparr>)) (\<lambda>(w', r'). Inr ((w', r'), re_time r')))"

definition with_timers ::
  "('w \<times> ('io, 'cb, 'k) reactor) \<times> 'cb tmgr \<Rightarrow> 'w \<times> ('io, 'cb, 'k) reactor" where
  "with_timers x = (case x of ((w, r), t) \<Rightarrow> (w, r\<lparr>re_time := t\<rparr>))"

text \<open>One line of the dispatch: \<open>if (io->is_readable(fd) && channels[fd]->readcb) channels[fd]->readcb();\<close>\<close>

definition run_handler ::
  "(int \<Rightarrow> 'io \<Rightarrow> bool res) \<Rightarrow> ('cb channel \<Rightarrow> 'cb option) \<Rightarrow> ('io, 'cb, 'k, 'w) rexec \<Rightarrow> int \<Rightarrow>
   'w \<times> ('io, 'cb, 'k) reactor \<Rightarrow> ('w \<times> ('io, 'cb, 'k) reactor) res" where
  "run_handler ready cbof exec fd wr =
     bind_res (ready fd (re_io (snd wr))) (\<lambda>b.
       if \<not> b then Inr wr
       else bind_res (channel_at fd (snd wr)) (\<lambda>c.
         case cbof c of None \<Rightarrow> Inr wr | Some cb \<Rightarrow> exec cb wr))"

fun dispatch ::
  "('io, 'i) io_ops \<Rightarrow> ('io, 'cb, 'k, 'w) rexec \<Rightarrow> int list \<Rightarrow> 'w \<times> ('io, 'cb, 'k) reactor \<Rightarrow>
   ('w \<times> ('io, 'cb, 'k) reactor) res" where
  "dispatch ops exec [] wr = Inr wr"
| "dispatch ops exec (fd # fds) wr =
     bind_res (run_handler (io_readable ops) readcb exec fd wr) (\<lambda>wr1.
     bind_res (run_handler (io_writeable ops) writecb exec fd wr1) (\<lambda>wr2.
       dispatch ops exec fds wr2))"

definition clean_channels :: "('io, 'cb, 'k) reactor \<Rightarrow> ('io, 'cb, 'k) reactor" where
  "clean_channels r = (fold reactor_erase (needclean r) r)\<lparr>needclean := []\<rparr>"

text \<open>
  What one round of the loop takes from outside: the clock readings of \<open>shortest_time\<close> and
  \<open>process\<close>, the answer of the system call behind \<open>listen\<close> to the timeout it is given, and the fuel
  for the timers.
\<close>

record 'i round_in =
  clock1 :: timeval
  clock2 :: timeval
  clock3 :: timeval
  answer :: "int \<Rightarrow> 'i"
  timer_fuel :: nat

definition choose_timeout ::
  "('io, 'cb, 'k, 'w) rexec \<Rightarrow> bool \<Rightarrow> 'i round_in \<Rightarrow> 'w \<times> ('io, 'cb, 'k) reactor \<Rightarrow>
   (int \<times> 'w \<times> ('io, 'cb, 'k) reactor) res" where
  "choose_timeout exec nonblock i wr =
     (if nonblock then Inr (0, wr)
      else if \<not> time_empty (re_time (snd wr)) then
        bind_res (shortest_time (timer_fuel i) (timer_exec exec) (clock1 i) (clock2 i) (wr, re_time (snd wr)))
          (\<lambda>(timeout, x). Inr (timeout, with_timers x))
      else Inr (-1, wr))"

definition run_timers ::
  "('io, 'cb, 'k, 'w) rexec \<Rightarrow> 'i round_in \<Rightarrow> 'w \<times> ('io, 'cb, 'k) reactor \<Rightarrow> ('w \<times> ('io, 'cb, 'k) reactor) res" where
  "run_timers exec i wr =
     bind_res (time_process (timer_fuel i) (timer_exec exec) (clock3 i) (wr, re_time (snd wr))) (\<lambda>x. Inr (with_timers x))"

definition reactor_round ::
  "('io, 'i) io_ops \<Rightarrow> ('io, 'cb, 'k, 'w) rexec \<Rightarrow> bool \<Rightarrow> 'i round_in \<Rightarrow> 'w \<times> ('io, 'cb, 'k) reactor \<Rightarrow>
   ('w \<times> ('io, 'cb, 'k) reactor) res" where
  "reactor_round ops exec nonblock i wr =
     bind_res (choose_timeout exec nonblock i wr) (\<lambda>(timeout, wr1).
     bind_res (io_listen ops (answer i timeout) (re_io (snd wr1))) (\<lambda>(res, s).
     bind_res (run_timers exec i (fst wr1, (snd wr1)\<lparr>re_io := s\<rparr>)) (\<lambda>wr2.
     bind_res (dispatch ops exec (io_active ops (re_io (snd wr2))) wr2) (\<lambda>(w3, r3).
       Inr (w3, clean_channels r3)))))"

text \<open>\<open>loop(nonblock, once)\<close>, on a list of rounds: when it is used up the loop has not returned.\<close>

fun reactor_loop ::
  "('io, 'i) io_ops \<Rightarrow> ('io, 'cb, 'k, 'w) rexec \<Rightarrow> bool \<Rightarrow> bool \<Rightarrow> 'i round_in list \<Rightarrow> 'w \<times> ('io, 'cb, 'k) reactor \<Rightarrow>
   ('w \<times> ('io, 'cb, 'k) reactor) res" where
  "reactor_loop ops exec nonblock once ins wr =
     (if reactor_empty (snd wr) \<and> time_empty (re_time (snd wr)) then Inr wr
      else case ins of [] \<Rightarrow> Inl NoReturn
        | i # is \<Rightarrow>
            bind_res (reactor_round ops exec nonblock i wr) (\<lambda>wr1.
              if once \<or> terminated (snd wr1) then Inr wr1 else reactor_loop ops exec nonblock once is wr1))"

declare reactor_loop.simps [simp del]

text \<open>
  The calls by which callbacks change the channels (when no channel is null), and the reactors that a callback can leave
  behind when it uses only these: it may set and remove handlers and change the timers, but not
  call \<open>erase\<close> or \<open>clear\<close>, and it does not set a handler on a descriptor that waits to be cleaned.
\<close>

datatype 'cb hcall =
    SetRead int 'cb | SetWrite int 'cb | SetError int 'cb | RemoveRead int | RemoveWrite int

fun run_call ::
  "('io, 'i) io_ops \<Rightarrow> ('k, 'a) sys \<Rightarrow> 'cb hcall \<Rightarrow> ('io, 'cb, 'k) reactor \<Rightarrow> ('io, 'cb, 'k) reactor res" where
  "run_call ops y (SetRead fd f) r = set_read_handler ops y fd f r"
| "run_call ops y (SetWrite fd f) r = set_write_handler ops y fd f r"
| "run_call ops y (SetError fd f) r = set_error_handler y fd f r"
| "run_call ops y (RemoveRead fd) r = remove_read_handler ops fd r"
| "run_call ops y (RemoveWrite fd) r = remove_write_handler ops fd r"

fun call_ok :: "'cb hcall \<Rightarrow> ('io, 'cb, 'k) reactor \<Rightarrow> bool" where
  "call_ok (SetRead fd f) r = (fd \<notin> set (needclean r))"
| "call_ok (SetWrite fd f) r = (fd \<notin> set (needclean r))"
| "call_ok _ r = True"

inductive handler_run ::
  "('io, 'i) io_ops \<Rightarrow> ('k, 'a) sys \<Rightarrow> ('io, 'cb, 'k) reactor \<Rightarrow> ('io, 'cb, 'k) reactor \<Rightarrow> bool"
  for ops y r where
  run_nothing: "handler_run ops y r r"
| run_one: "handler_run ops y r r1 \<Longrightarrow> call_ok c r1 \<Longrightarrow> run_call ops y c r1 = Inr r2 \<Longrightarrow> handler_run ops y r r2"
| run_time: "handler_run ops y r r1 \<Longrightarrow> handler_run ops y r (r1\<lparr>re_time := t\<rparr>)"

definition handler_exec :: "('io, 'i) io_ops \<Rightarrow> ('k, 'a) sys \<Rightarrow> ('io, 'cb, 'k, 'w) rexec \<Rightarrow> bool" where
  "handler_exec ops y exec =
     (\<forall>cb w r. (\<forall>fd. smap_find fd (channels r) \<noteq> Some None) \<longrightarrow> outcome (- {NullDeref}) (\<lambda>wr. handler_run ops y r (snd wr)) (exec cb (w, r)))"

text \<open>
  The invariant: no channel is null, a descriptor of interest has the channel with the handler
  for it, and no descriptor that waits to be cleaned is of interest.
\<close>

definition reactor_inv ::
  "('io \<Rightarrow> bool) \<Rightarrow> (int \<Rightarrow> 'io \<Rightarrow> bool) \<Rightarrow> (int \<Rightarrow> 'io \<Rightarrow> bool) \<Rightarrow> ('io, 'cb, 'k) reactor \<Rightarrow> bool" where
  "reactor_inv ok rd wr r =
     (ok (re_io r) \<and> smap_ok (channels r) \<and> (\<forall>fd. smap_find fd (channels r) \<noteq> Some None) \<and>
      (\<forall>fd. smap_count fd (channels r) \<longrightarrow> 0 \<le> fd) \<and>
      (\<forall>fd. rd fd (re_io r) \<longrightarrow> (\<exists>c. smap_find fd (channels r) = Some (Some c) \<and> readcb c \<noteq> None)) \<and>
      (\<forall>fd. wr fd (re_io r) \<longrightarrow> (\<exists>c. smap_find fd (channels r) = Some (Some c) \<and> writecb c \<noteq> None)) \<and>
      (\<forall>fd \<in> set (needclean r). \<not> rd fd (re_io r) \<and> \<not> wr fd (re_io r)))"

definition keeps_channels :: "('io, 'cb, 'k) reactor \<Rightarrow> ('io, 'cb, 'k) reactor \<Rightarrow> bool" where
  "keeps_channels r r' = (\<forall>fd. smap_count fd (channels r) \<longrightarrow> smap_count fd (channels r'))"

section \<open>Channels\<close>

lemma keeps_refl [simp]: "keeps_channels r r" and keeps_trans: "keeps_channels r r1 \<Longrightarrow> keeps_channels r1 r2 \<Longrightarrow> keeps_channels r r2"
  by (simp_all add: keeps_channels_def)

lemma keeps_update [simp]:
  "keeps_channels r (r'\<lparr>re_time := t\<rparr>) = keeps_channels r r'" "keeps_channels r (r'\<lparr>re_io := s\<rparr>) = keeps_channels r r'"
  "keeps_channels (r\<lparr>re_time := t\<rparr>) r' = keeps_channels r r'" "keeps_channels (r\<lparr>re_io := s\<rparr>) r' = keeps_channels r r'"
  by (simp_all add: keeps_channels_def)

lemma inv_time [simp]: "reactor_inv ok rd wr (r\<lparr>re_time := t\<rparr>) = reactor_inv ok rd wr r"
  by (simp add: reactor_inv_def)

lemma channel_at_live:
  "reactor_inv ok rd wr r \<Longrightarrow> smap_count fd (channels r) \<Longrightarrow> \<exists>c. channel_at fd r = Inr c \<and> smap_find fd (channels r) = Some (Some c)"
proof -
  assume i: "reactor_inv ok rd wr r" and "smap_count fd (channels r)"
  then obtain x where x: "smap_find fd (channels r) = Some x" by (auto simp: smap_count_def)
  moreover have "smap_find fd (channels r) \<noteq> Some None" using i unfolding reactor_inv_def by metis
  then have "x \<noteq> None" using x by auto
  ultimately show ?thesis by (auto simp: channel_at_def smap_index_def)
qed

lemma fold_erase:
  "smap_ok (channels r) \<Longrightarrow> smap_ok (channels (fold reactor_erase l r)) \<and> re_io (fold reactor_erase l r) = re_io r \<and>
     smap_find fd (channels (fold reactor_erase l r)) = (if fd \<in> set l then None else smap_find fd (channels r))"
  by (induction l arbitrary: r) (auto simp: reactor_erase_def smap_find_erase)

lemma clean_channels_find:
  assumes "smap_ok (channels r)"
  shows "smap_find fd (channels (clean_channels r)) = (if fd \<in> set (needclean r) then None else smap_find fd (channels r))"
    "smap_ok (channels (clean_channels r))" "re_io (clean_channels r) = re_io r" "needclean (clean_channels r) = []"
  using fold_erase [OF assms, of "needclean r"] by (simp_all add: clean_channels_def)

lemma needclean_clean: "needclean (clean_channels r) = []"
  by (simp add: clean_channels_def)

lemma clean_channels_inv: "reactor_inv ok rd wr r \<Longrightarrow> reactor_inv ok rd wr (clean_channels r)"
  using clean_channels_find [of r] by (auto simp: reactor_inv_def smap_count_def)

section \<open>The reactor over an abstract multiplexer\<close>

text \<open>
  What the reactor needs beyond the contract of the multiplexer: \<open>remove\<close> refuses only what is not
  of interest, neither touches the descriptors of the last \<open>listen\<close>, and no operation follows a null
  pointer.
\<close>

locale reactor_io = io_listener ok rd_set wr_set add remove answers listen active readable writeable
  for ok :: "'s \<Rightarrow> bool" and rd_set wr_set add remove answers and listen :: "'i \<Rightarrow> 's \<Rightarrow> (int \<times> 's) res"
    and active readable writeable +
  fixes ops :: "('s, 'i) io_ops"
  assumes ops_eq: "io_add ops = add" "io_remove ops = remove" "io_listen ops = listen" "io_active ops = active"
    and remove_refuses: "ok s \<Longrightarrow> 0 \<le> fd \<Longrightarrow> t \<in> {RD, WR} \<Longrightarrow> remove fd t s = Inr (-1, s') \<Longrightarrow>
      \<not> (has_rd t \<and> rd_set fd s) \<and> \<not> (has_wr t \<and> wr_set fd s)"
    and frame: "add fd t s = Inr (x, s') \<Longrightarrow> active s' = active s" "remove fd t s = Inr (x, s') \<Longrightarrow> active s' = active s"
    and no_null: "ok s \<Longrightarrow> add fd t s \<noteq> Inl NullDeref" "ok s \<Longrightarrow> remove fd t s \<noteq> Inl NullDeref"
      "ok s \<Longrightarrow> answers s i \<Longrightarrow> listen i s \<noteq> Inl NullDeref"
      "ok s \<Longrightarrow> io_readable ops fd s \<noteq> Inl NullDeref" "ok s \<Longrightarrow> io_writeable ops fd s \<noteq> Inl NullDeref"
begin

lemma add_handler:
  assumes i: "reactor_inv ok rd_set wr_set r" and fd: "0 \<le> fd" "fd \<notin> set (needclean r)" and a: "add fd t (re_io r) = Inr (x, s')"
    and t: "t \<in> {RD, WR}" and c: "smap_find fd (channels r) = Some (Some c)"
    and c': "has_rd t \<longrightarrow> readcb c' \<noteq> None" "has_wr t \<longrightarrow> writecb c' \<noteq> None"
      "\<not> has_rd t \<longrightarrow> readcb c' = readcb c" "\<not> has_wr t \<longrightarrow> writecb c' = writecb c"
  shows "reactor_inv ok rd_set wr_set (put_channel fd c' (r\<lparr>re_io := s'\<rparr>)) \<and> keeps_channels r (put_channel fd c' (r\<lparr>re_io := s'\<rparr>))"
proof -
  have l: "ok s'" "\<And>j. rd_set j s' = (rd_set j (re_io r) \<or> x \<noteq> -1 \<and> j = fd \<and> has_rd t)"
    "\<And>j. wr_set j s' = (wr_set j (re_io r) \<or> x \<noteq> -1 \<and> j = fd \<and> has_wr t)"
    using add_law [of "re_io r" t fd x s'] i t a by (auto simp: reactor_inv_def)
  have "\<exists>c. smap_find j (smap_set fd (Some c') (channels r)) = Some (Some c) \<and> readcb c \<noteq> None" if "rd_set j s'" for j
    using that l(2) [of j] i c c' by (cases "j = fd") (auto simp: reactor_inv_def smap_find_set)
  moreover have "\<exists>c. smap_find j (smap_set fd (Some c') (channels r)) = Some (Some c) \<and> writecb c \<noteq> None" if "wr_set j s'" for j
    using that l(3) [of j] i c c' by (cases "j = fd") (auto simp: reactor_inv_def smap_find_set)
  moreover have "\<forall>j \<in> set (needclean r). \<not> rd_set j s' \<and> \<not> wr_set j s'" using i l fd(2) by (auto simp: reactor_inv_def)
  ultimately show ?thesis using i l(1) fd(1) by (auto simp: reactor_inv_def put_channel_def smap_find_set keeps_channels_def)
qed

lemma init_channel_inv:
  assumes i: "reactor_inv ok rd_set wr_set r"
  shows "outcome (- {NullDeref}) (\<lambda>r'. reactor_inv ok rd_set wr_set r' \<and> keeps_channels r r' \<and> smap_count fd (channels r') \<and> 0 \<le> fd
     \<and> needclean r' = needclean r \<and> re_io r' = re_io r) (init_channel y fd r)"
proof (cases "smap_count fd (channels r)")
  case False
  then have n: "smap_find fd (channels r) = None" by (simp add: smap_count_def)
  from i n show ?thesis
    by (auto simp: init_channel_def reactor_inv_def keeps_channels_def smap_count_def smap_find_set)
qed (use i in \<open>auto simp: init_channel_def reactor_inv_def keeps_channels_def\<close>)

lemma set_handler_inv:
  assumes i: "reactor_inv ok rd_set wr_set r" and fd: "fd \<notin> set (needclean r)" and t: "t \<in> {RD, WR}"
    and up: "\<And>c. (has_rd t \<longrightarrow> readcb (upd c) \<noteq> None) \<and> (has_wr t \<longrightarrow> writecb (upd c) \<noteq> None) \<and>
      (\<not> has_rd t \<longrightarrow> readcb (upd c) = readcb c) \<and> (\<not> has_wr t \<longrightarrow> writecb (upd c) = writecb c)"
  shows "outcome (- {NullDeref}) (\<lambda>r'. reactor_inv ok rd_set wr_set r' \<and> keeps_channels r r')
    (bind_res (init_channel y fd r) (\<lambda>r1. bind_res (io_call (io_add ops fd t) r1) (\<lambda>r2.
       bind_res (channel_at fd r2) (\<lambda>c. Inr (put_channel fd (upd c) r2)))))"
proof (rule safe_bind [OF init_channel_inv [OF i]])
  fix r1
  assume r1: "reactor_inv ok rd_set wr_set r1 \<and> keeps_channels r r1 \<and> smap_count fd (channels r1) \<and> 0 \<le> fd
     \<and> needclean r1 = needclean r \<and> re_io r1 = re_io r"
  then obtain c where c: "channel_at fd r1 = Inr c" "smap_find fd (channels r1) = Some (Some c)" using channel_at_live by blast
  have ok: "ok (re_io r1)" using r1 unfolding reactor_inv_def by metis
  show "outcome (- {NullDeref}) (\<lambda>r'. reactor_inv ok rd_set wr_set r' \<and> keeps_channels r r')
    (bind_res (io_call (io_add ops fd t) r1) (\<lambda>r2. bind_res (channel_at fd r2) (\<lambda>c. Inr (put_channel fd (upd c) r2))))"
  proof (cases "add fd t (re_io r1)")
    case (Inl f)
    then show ?thesis using no_null(1) [OF ok, of fd t] by (auto simp: io_call_def ops_eq)
  next
    case (Inr xs)
    obtain x s' where xs: "xs = (x, s')" by (cases xs)
    have c2: "channel_at fd (r1\<lparr>re_io := s'\<rparr>) = Inr c" using c(1) by (simp add: channel_at_def)
    have "reactor_inv ok rd_set wr_set (put_channel fd (upd c) (r1\<lparr>re_io := s'\<rparr>)) \<and> keeps_channels r1 (put_channel fd (upd c) (r1\<lparr>re_io := s'\<rparr>))"
      by (rule add_handler [OF _ _ _ Inr [unfolded xs] t c(2)]) (use r1 fd up in auto)
    then show ?thesis using r1 Inr xs c2 keeps_trans by (auto simp: io_call_def ops_eq)
  qed
qed

lemma remove_handler_inv:
  assumes i: "reactor_inv ok rd_set wr_set r" and t: "t \<in> {RD, WR}" and c: "smap_find fd (channels r) = Some (Some c)"
    and c': "\<not> has_rd t \<longrightarrow> readcb c' = readcb c" "\<not> has_wr t \<longrightarrow> writecb c' = writecb c"
    and l: "l = needclean r \<or> l = needclean r @ [fd] \<and> (has_rd t \<longrightarrow> writecb c = None) \<and> (has_wr t \<longrightarrow> readcb c = None)"
  shows "outcome (- {NullDeref}) (\<lambda>r'. reactor_inv ok rd_set wr_set r' \<and> keeps_channels r r')
    (io_call (io_remove ops fd t) ((put_channel fd c' r)\<lparr>needclean := l\<rparr>))"
proof -
  have ok: "ok (re_io r)" using i by (simp add: reactor_inv_def)
  have keys: "smap_count j (channels r) \<Longrightarrow> 0 \<le> j" for j using i unfolding reactor_inv_def by metis
  have fd: "0 \<le> fd" using keys [of fd] c by (simp add: smap_count_def)
  show ?thesis
  proof (cases "remove fd t (re_io r)")
    case (Inl f)
    then show ?thesis using no_null(2) [OF ok, of fd t] by (auto simp: io_call_def ops_eq put_channel_def)
  next
    case (Inr xs)
    obtain x s' where xs: "xs = (x, s')" by (cases xs)
    note rm = remove_law [OF ok _ Inr [unfolded xs]] and rf = remove_refuses [OF ok fd t, of s']
    have s': "ok s'" "\<And>j. rd_set j s' = (rd_set j (re_io r) \<and> \<not> (j = fd \<and> has_rd t))"
      "\<And>j. wr_set j s' = (wr_set j (re_io r) \<and> \<not> (j = fd \<and> has_wr t))"
      using rm rf Inr xs t by (cases "x = -1"; auto)+
    let ?r = "(put_channel fd c' r)\<lparr>needclean := l, re_io := s'\<rparr>"
    have f: "smap_find j (channels ?r) = (if j = fd then Some (Some c') else smap_find j (channels r))" for j
      by (simp add: put_channel_def smap_find_set)
    have rd: "\<exists>d. smap_find j (channels ?r) = Some (Some d) \<and> readcb d \<noteq> None" if "rd_set j s'" for j
      using that s'(2) [of j] i c c'(1) f [of j] by (cases "j = fd") (auto simp: reactor_inv_def)
    have wr: "\<exists>d. smap_find j (channels ?r) = Some (Some d) \<and> writecb d \<noteq> None" if "wr_set j s'" for j
      using that s'(3) [of j] i c c'(2) f [of j] by (cases "j = fd") (auto simp: reactor_inv_def)
    have rd0: "rd_set fd (re_io r) \<Longrightarrow> readcb c \<noteq> None" and wr0: "wr_set fd (re_io r) \<Longrightarrow> writecb c \<noteq> None"
      using i c unfolding reactor_inv_def by force+
    have nc: "\<not> rd_set j s' \<and> \<not> wr_set j s'" if j: "j \<in> set l" for j
    proof (cases "j \<in> set (needclean r)")
      case True
      then show ?thesis using i s'(2,3) [of j] by (simp add: reactor_inv_def)
    next
      case False
      with j l have "j = fd" "has_rd t \<longrightarrow> writecb c = None" "has_wr t \<longrightarrow> readcb c = None" by auto
      with rd0 wr0 s'(2,3) [of j] t show ?thesis by auto
    qed
    have nn: "smap_find j (channels ?r) \<noteq> Some None" for j using i f [of j] by (simp add: reactor_inv_def)
    have so: "smap_ok (channels ?r)" using i by (simp add: reactor_inv_def put_channel_def)
    have ks: "0 \<le> j" if "smap_count j (channels ?r)" for j using that fd keys [of j] by (auto simp: put_channel_def)
    have "reactor_inv ok rd_set wr_set ?r" unfolding reactor_inv_def
      by (intro conjI allI impI ballI) (use s'(1) so nn ks rd wr nc in \<open>simp_all del: not_None_eq\<close>)
    moreover have "keeps_channels r ?r" by (simp add: keeps_channels_def put_channel_def)
    ultimately show ?thesis using Inr xs by (simp add: io_call_def ops_eq put_channel_def)
  qed
qed

lemma run_call_inv:
  assumes i: "reactor_inv ok rd_set wr_set r" and c: "call_ok c r"
  shows "outcome (- {NullDeref}) (\<lambda>r'. reactor_inv ok rd_set wr_set r' \<and> keeps_channels r r') (run_call ops y c r)"
proof (cases c)
  case (SetRead fd f)
  show ?thesis using set_handler_inv [OF i, of fd RD "\<lambda>c. c\<lparr>readcb := Some f\<rparr>" y] c SetRead
    by (simp add: set_read_handler_def add_read_def)
next
  case (SetWrite fd f)
  show ?thesis using set_handler_inv [OF i, of fd WR "\<lambda>c. c\<lparr>writecb := Some f\<rparr>" y] c SetWrite
    by (simp add: set_write_handler_def add_write_def)
next
  case (SetError fd f)
  show ?thesis unfolding SetError run_call.simps set_error_handler_def
  proof (rule safe_bind [OF init_channel_inv [OF i]])
    fix r1
    assume r1: "reactor_inv ok rd_set wr_set r1 \<and> keeps_channels r r1 \<and> smap_count fd (channels r1) \<and> 0 \<le> fd
      \<and> needclean r1 = needclean r \<and> re_io r1 = re_io r"
    then obtain d where d: "channel_at fd r1 = Inr d" "smap_find fd (channels r1) = Some (Some d)" using channel_at_live by blast
    let ?r = "put_channel fd (d\<lparr>errorcb := Some f\<rparr>) r1"
    have fi: "smap_find j (channels ?r) = (if j = fd then Some (Some (d\<lparr>errorcb := Some f\<rparr>)) else smap_find j (channels r1))" for j
      by (simp add: put_channel_def smap_find_set)
    have rd: "\<exists>e. smap_find j (channels ?r) = Some (Some e) \<and> readcb e \<noteq> None" if "rd_set j (re_io r1)" for j
      using that r1 d(2) fi [of j] by (cases "j = fd") (auto simp: reactor_inv_def)
    have wr: "\<exists>e. smap_find j (channels ?r) = Some (Some e) \<and> writecb e \<noteq> None" if "wr_set j (re_io r1)" for j
      using that r1 d(2) fi [of j] by (cases "j = fd") (auto simp: reactor_inv_def)
    have io: "re_io ?r = re_io r1" "needclean ?r = needclean r1" by (simp_all add: put_channel_def)
    have nn: "smap_find j (channels ?r) \<noteq> Some None" for j using r1 fi [of j] by (auto simp: reactor_inv_def)
    have "ok (re_io r1)" "smap_ok (channels ?r)" "\<forall>j \<in> set (needclean r1). \<not> rd_set j (re_io r1) \<and> \<not> wr_set j (re_io r1)"
      using r1 unfolding reactor_inv_def put_channel_def by (simp_all, metis+)
    moreover have "\<forall>j. smap_count j (channels ?r) \<longrightarrow> 0 \<le> j" using r1 by (auto simp: put_channel_def reactor_inv_def)
    ultimately have "reactor_inv ok rd_set wr_set ?r" unfolding reactor_inv_def io using rd wr nn by blast
    moreover have "keeps_channels r ?r" using r1 by (auto simp: keeps_channels_def put_channel_def)
    ultimately show "outcome (- {NullDeref}) (\<lambda>r'. reactor_inv ok rd_set wr_set r' \<and> keeps_channels r r')
      (bind_res (channel_at fd r1) (\<lambda>c. Inr (put_channel fd (c\<lparr>errorcb := Some f\<rparr>) r1)))" using d(1) by simp
  qed
next
  case (RemoveRead fd)
  show ?thesis
  proof (cases "smap_count fd (channels r)")
    case True
    then obtain d where d: "channel_at fd r = Inr d" "smap_find fd (channels r) = Some (Some d)" using channel_at_live [OF i] by blast
    have "remove_read_handler ops fd r = io_call (io_remove ops fd RD) ((put_channel fd (d\<lparr>readcb := None\<rparr>) r)
        \<lparr>needclean := if writecb d = None then needclean r @ [fd] else needclean r\<rparr>)"
      using True d(1) by (simp add: remove_read_handler_def remove_read_def Let_def put_channel_def)
    then show ?thesis using remove_handler_inv [OF i _ d(2), of RD "d\<lparr>readcb := None\<rparr>"] RemoveRead by simp
  qed (use RemoveRead i in \<open>simp add: remove_read_handler_def\<close>)
next
  case (RemoveWrite fd)
  show ?thesis
  proof (cases "smap_count fd (channels r)")
    case True
    then obtain d where d: "channel_at fd r = Inr d" "smap_find fd (channels r) = Some (Some d)" using channel_at_live [OF i] by blast
    have "remove_write_handler ops fd r = io_call (io_remove ops fd WR) ((put_channel fd (d\<lparr>writecb := None\<rparr>) r)
        \<lparr>needclean := if readcb d = None then needclean r @ [fd] else needclean r\<rparr>)"
      using True d(1) by (simp add: remove_write_handler_def remove_write_def Let_def put_channel_def)
    then show ?thesis using remove_handler_inv [OF i _ d(2), of WR "d\<lparr>writecb := None\<rparr>"] RemoveWrite by simp
  qed (use RemoveWrite i in \<open>simp add: remove_write_handler_def\<close>)
qed

lemma handler_run_inv:
  "handler_run ops y r r' \<Longrightarrow> reactor_inv ok rd_set wr_set r \<Longrightarrow> reactor_inv ok rd_set wr_set r' \<and> keeps_channels r r'"
proof (induction rule: handler_run.induct)
  case (run_one r1 c r2)
  then have r1: "reactor_inv ok rd_set wr_set r1" "keeps_channels r r1" by simp_all
  have "reactor_inv ok rd_set wr_set r2 \<and> keeps_channels r1 r2"
    using safe_Inr_D [OF run_call_inv [OF r1(1) run_one.hyps(2)] run_one.hyps(3)] .
  with r1(2) keeps_trans show ?case by blast
qed simp_all

lemma run_call_active: "run_call ops y c r = Inr r' \<Longrightarrow> active (re_io r') = active (re_io r)"
  by (cases c)
    (auto simp: set_read_handler_def set_write_handler_def set_error_handler_def remove_read_handler_def remove_write_handler_def
      add_read_def add_write_def remove_read_def remove_write_def io_call_def put_channel_def init_channel_def Let_def bind_res_eq_Inr ops_eq
      dest: frame split: if_splits)

lemma handler_run_active: "handler_run ops y r r' \<Longrightarrow> active (re_io r') = active (re_io r)"
  by (induction rule: handler_run.induct) (simp_all add: run_call_active)

definition good where
  "good r0 wr = (reactor_inv ok rd_set wr_set (snd wr) \<and> keeps_channels r0 (snd wr) \<and> active (re_io (snd wr)) = active (re_io r0))"

lemma good_time [simp]: "good r0 (w, r\<lparr>re_time := t\<rparr>) = good r0 (w', r)"
  by (simp add: good_def)

lemma exec_good:
  assumes "handler_exec ops y (exec :: ('s, 'cb, 'k, 'w) rexec)" and g: "good r0 wr"
  shows "outcome (- {NullDeref}) (good r0) (exec cb wr)"
proof -
  obtain w r where wr: "wr = (w, r)" by (cases wr)
  have "\<forall>fd. smap_find fd (channels r) \<noteq> Some None" using g wr unfolding good_def reactor_inv_def by simp
  then have "outcome (- {NullDeref}) (\<lambda>wr. handler_run ops y r (snd wr)) (exec cb wr)" using assms(1) wr by (simp add: handler_exec_def)
  then show ?thesis
  proof (rule safe_mono)
    fix x :: "'w \<times> ('s, 'cb, 'k) reactor"
    assume h: "handler_run ops y r (snd x)"
    have "reactor_inv ok rd_set wr_set (snd x) \<and> keeps_channels r (snd x)"
      using handler_run_inv [OF h] g wr by (simp add: good_def)
    with handler_run_active [OF h] g wr show "good r0 x" by (auto simp: good_def intro: keeps_trans)
  qed simp
qed

lemma run_handler_good:
  assumes e: "handler_exec ops y (exec :: ('s, 'cb, 'k, 'w) rexec)" and g: "good r0 wr" and fd: "smap_count fd (channels r0)"
    and rdy: "\<And>s. ok s \<Longrightarrow> ready fd s \<noteq> Inl NullDeref"
  shows "outcome (- {NullDeref}) (good r0) (run_handler ready cbof exec fd wr)"
proof -
  have i: "reactor_inv ok rd_set wr_set (snd wr)" "smap_count fd (channels (snd wr))"
    using g fd by (auto simp: good_def keeps_channels_def)
  then obtain c where c: "channel_at fd (snd wr) = Inr c" using channel_at_live by blast
  have "ok (re_io (snd wr))" using i(1) unfolding reactor_inv_def by metis
  from rdy [OF this] show ?thesis using c g exec_good [OF e g]
    by (cases "ready fd (re_io (snd wr))") (auto simp: run_handler_def split: option.splits)
qed

lemma dispatch_good:
  assumes e: "handler_exec ops y (exec :: ('s, 'cb, 'k, 'w) rexec)"
  shows "good r0 wr \<Longrightarrow> \<forall>fd \<in> set fds. smap_count fd (channels r0) \<Longrightarrow> outcome (- {NullDeref}) (good r0) (dispatch ops exec fds wr)"
proof (induction fds arbitrary: wr)
  case (Cons fd fds)
  have fd: "smap_count fd (channels r0)" using Cons.prems(2) by simp
  show ?case unfolding dispatch.simps
    by (rule safe_bind [OF run_handler_good [OF e Cons.prems(1) fd no_null(4)]], assumption)
      (rule safe_bind [OF run_handler_good [OF e _ fd no_null(5)]], assumption+, use Cons in simp)
qed simp

lemma timer_exec_good:
  assumes "handler_exec ops y (exec :: ('s, 'cb, 'k, 'w) rexec)"
  shows "exec_keeps (- {NullDeref}) (good r0) (timer_exec exec)"
  unfolding exec_keeps_def timer_exec_def
proof (intro allI impI)
  fix cb :: 'cb and w :: "'w \<times> ('s, 'cb, 'k) reactor" and t
  assume g: "good r0 w"
  obtain v r where w: "w = (v, r)" by (cases w)
  have "good r0 (v, r\<lparr>re_time := t\<rparr>)" using g w by (simp add: good_def)
  then show "outcome (- {NullDeref}) (\<lambda>ws. good r0 (fst ws)) (case (w, t) of ((w, r), t) \<Rightarrow>
      bind_res (exec cb (w, r\<lparr>re_time := t\<rparr>)) (\<lambda>(w', r'). Inr ((w', r'), re_time r')))"
    unfolding w prod.case by (rule safe_bind [OF exec_good [OF assms]]) (auto simp: good_def split: prod.splits)
qed

lemma run_timers_good:
  assumes e: "handler_exec ops y (exec :: ('s, 'cb, 'k, 'w) rexec)" and g: "good r0 wr"
  shows "outcome (- {NullDeref}) (good r0) (run_timers exec i wr)"
  unfolding run_timers_def
  by (rule safe_bind [OF time_process_world [OF timer_exec_good [OF e]]]) (use g in \<open>auto simp: with_timers_def good_def\<close>)

lemma choose_timeout_good:
  assumes e: "handler_exec ops y (exec :: ('s, 'cb, 'k, 'w) rexec)" and g: "good r0 wr"
  shows "outcome (- {NullDeref}) (\<lambda>(t, wr'). good r0 wr') (choose_timeout exec nonblock i wr)"
proof -
  have "outcome (- {NullDeref}) (\<lambda>(t, wr'). good r0 wr')
    (bind_res (shortest_time (timer_fuel i) (timer_exec exec) (clock1 i) (clock2 i) (wr, re_time (snd wr)))
          (\<lambda>(timeout, x). Inr (timeout, with_timers x)))"
    by (rule safe_bind [OF shortest_time_world [OF timer_exec_good [OF e]]]) (use g in \<open>auto simp: with_timers_def good_def\<close>)
  then show ?thesis using g by (simp add: choose_timeout_def)
qed

text \<open>The round: what was reported has a channel, and no handler run before it takes it away.\<close>

lemma round_safe:
  assumes e: "handler_exec ops y (exec :: ('s, 'cb, 'k, 'w) rexec)" and i: "reactor_inv ok rd_set wr_set r"
    and ans: "\<And>t wr1. choose_timeout exec nonblock i (w, r) = Inr (t, wr1) \<Longrightarrow> answers (re_io (snd wr1)) (answer i t)"
    and fresh: "\<And>t s n s'. listen (answer i t) s = Inr (n, s') \<Longrightarrow> 0 < n \<or> active s' = []"
  shows "outcome (- {NullDeref}) (\<lambda>wr'. reactor_inv ok rd_set wr_set (snd wr') \<and> needclean (snd wr') = []) (reactor_round ops exec nonblock i (w, r))"
proof (cases "choose_timeout exec nonblock i (w, r)")
  case (Inl f)
  then show ?thesis using choose_timeout_good [OF e, of r "(w, r)" nonblock i] i by (simp add: good_def reactor_round_def)
next
  case (Inr x)
  obtain t w1 r1 where x: "x = (t, w1, r1)" by (cases x)
  have r1: "reactor_inv ok rd_set wr_set r1"
    using choose_timeout_good [OF e, of r "(w, r)" nonblock i] i Inr x by (simp add: good_def)
  then have ok1: "ok (re_io r1)" unfolding reactor_inv_def by metis
  have an: "answers (re_io r1) (answer i t)" using ans [of t "(w1, r1)"] Inr x by simp
  show ?thesis
  proof (cases "listen (answer i t) (re_io r1)")
    case (Inl f)
    then show ?thesis using no_null(3) [OF ok1 an] Inr x by (auto simp: reactor_round_def ops_eq)
  next
    case (Inr y)
    obtain n s where y: "y = (n, s)" by (cases y)
    let ?r2 = "r1\<lparr>re_io := s\<rparr>"
    note ll = listen_law [OF ok1 an Inr [unfolded y]]
    have r2: "reactor_inv ok rd_set wr_set ?r2" using r1 ll by (simp add: reactor_inv_def)
    have live: "\<forall>fd \<in> set (active s). smap_count fd (channels ?r2)"
      using ll fresh [OF Inr [unfolded y]] r1 by (fastforce simp: reactor_inv_def smap_count_def)
    have g: "good ?r2 (w1, ?r2)" using r2 by (simp add: good_def)
    show ?thesis unfolding reactor_round_def \<open>choose_timeout exec nonblock i (w, r) = Inr x\<close> x bind_res.simps prod.case fst_conv snd_conv
        ops_eq Inr y
    proof (rule safe_bind [OF run_timers_good [OF e g]])
      fix wr2 :: "'w \<times> ('s, 'cb, 'k) reactor"
      assume g2: "good ?r2 wr2"
      then have "\<forall>fd \<in> set (active (re_io (snd wr2))). smap_count fd (channels ?r2)" using live by (simp add: good_def)
      from dispatch_good [OF e g2 this]
      show "outcome (- {NullDeref}) (\<lambda>wr'. reactor_inv ok rd_set wr_set (snd wr') \<and> needclean (snd wr') = [])
        (bind_res (dispatch ops exec (active (re_io (snd wr2))) wr2) (\<lambda>(w3, r3). Inr (w3, clean_channels r3)))"
        by (rule safe_bind) (auto simp: good_def clean_channels_inv needclean_clean)
    qed
  qed
qed

end

section \<open>The three multiplexers\<close>

text \<open>A kernel that carries out every change of a registered descriptor, as \<open>epoll_ctl(2)\<close> documents.\<close>

definition ctl_total :: "'k epoll_ctl \<Rightarrow> ('k \<Rightarrow> int \<Rightarrow> int option) \<Rightarrow> bool" where
  "ctl_total ctl interest =
     (\<forall>ep op fd m k. interest k fd \<noteq> None \<longrightarrow> op \<noteq> EPOLL_CTL_ADD \<longrightarrow> fst (ctl ep op fd m k) = 0)"

definition epoll_fine :: "'k epoll_ctl \<Rightarrow> ('k \<Rightarrow> int \<Rightarrow> int option) \<Rightarrow> 'k epoll \<Rightarrow> bool" where
  "epoll_fine ctl interest s = (epoll_good ctl interest s \<and> ctl_total ctl interest)"

lemma epoll_remove_refuses:
  assumes g: "epoll_fine ctl interest s" and fd: "0 \<le> fd" and t: "t \<in> {RD, WR}" and r: "epoll_remove ctl fd t s = (-1, s')"
  shows "\<not> (has_rd t \<and> epoll_rd fd s) \<and> \<not> (has_wr t \<and> epoll_wr fd s)"
proof (cases "smap_find fd (ep_events s)")
  case None
  then show ?thesis by (simp add: epoll_rd_def epoll_wr_def)
next
  case (Some m)
  show ?thesis
  proof (rule ccontr)
    assume n: "\<not> (\<not> (has_rd t \<and> epoll_rd fd s) \<and> \<not> (has_wr t \<and> epoll_wr fd s))"
    then have m: "m \<noteq> 0" "t AND m \<noteq> 0"
      using Some t by (auto simp: epoll_rd_def epoll_wr_def has_rd_def has_wr_def RD_def WR_def and.commute)
    have "interest (ep_kernel s) fd \<noteq> None" using g Some m(1) by (simp add: epoll_fine_def epoll_good_def epoll_ok_def)
    then have "fst (ctl (epfd s) op fd e (ep_kernel s)) = 0" if "op \<noteq> EPOLL_CTL_ADD" for op e
      using g that by (simp add: epoll_fine_def ctl_total_def)
    then have c: "ctl (epfd s) EPOLL_CTL_DEL fd e (ep_kernel s) \<noteq> (-1, k)" "ctl (epfd s) EPOLL_CTL_MOD fd e (ep_kernel s) \<noteq> (-1, k)" for e k
      by (metis ctl_op.distinct(3) fst_conv neg_equal_0_iff_equal zero_neq_one, metis ctl_op.distinct(1) fst_conv neg_equal_0_iff_equal zero_neq_one)
    show False using r fd t m(2) Some c
      by (auto simp: epoll_remove_def smap_count_def smap_index_def Let_def RD_def WR_def split: if_splits prod.splits)
  qed
qed

interpretation er: reactor_io "epoll_fine ctl interest" epoll_rd epoll_wr
    "\<lambda>fd t s. Inr (epoll_add ctl fd t s)" "\<lambda>fd t s. Inr (epoll_remove ctl fd t s)"
    "wait_answer interest" "\<lambda>i s. Inr (epoll_listen i s)" ep_active epoll_readable epoll_writeable "epoll_ops ctl"
  for ctl :: "'k epoll_ctl" and interest :: "'k \<Rightarrow> int \<Rightarrow> int option"
proof (unfold_locales, goal_cases)
  case (1 s t fd x s')
  then show ?case using ep.add_law [of ctl interest s t fd x s'] by (simp add: epoll_fine_def)
next
  case (2 s t fd x s')
  then show ?case using ep.remove_law [of ctl interest s t fd x s'] by (simp add: epoll_fine_def)
next
  case (3 s i n s')
  then show ?case using ep.listen_law [of ctl interest s i n s'] by (simp add: epoll_fine_def)
next
  case (8 s fd t s')
  then show ?case using epoll_remove_refuses [of ctl interest s fd t s'] by simp
qed (auto simp: epoll_ops_def epoll_result_queries epoll_add_def epoll_remove_def Let_def split: if_splits prod.splits)

lemma poll_remove_refuses:
  "poll_remove fd t s = Inr (-1, s') \<Longrightarrow> \<not> poll_rd fd s \<and> \<not> poll_wr fd s"
  by (auto simp: poll_remove_def smap_at_def poll_rd_def poll_wr_def Let_def bind_res_eq_Inr split: option.splits)

interpretation pr: reactor_io poll_ok poll_rd poll_wr "\<lambda>fd t s. Inr (poll_add fd t s)" poll_remove
    poll_answer poll_listen pl_active poll_readable poll_writeable poll_ops
proof (unfold_locales, goal_cases)
  case (5 s fd t s')
  then show ?case using poll_remove_refuses by blast
next
  case (6 fd t s x s')
  then show ?case by (auto simp: poll_add_def Let_def)
next
  case (7 fd t s x s')
  then show ?case by (auto simp: poll_remove_def smap_at_def Let_def bind_res_eq_Inr split: option.splits)
next
  case (9 s fd t)
  then show ?case by (auto simp: poll_remove_def smap_at_def Let_def bind_res_eq_Inl split: option.splits)
next
  case (10 s i)
  then have "poll_array (pollfdMap s) = Inr (map (the \<circ> snd) (pollfdMap s))"
    using poll_array_ok [of "pollfdMap s"] poll_ok_entries [of s] by fastforce
  then show ?case by (auto simp: poll_listen_def split: prod.splits)
qed (auto simp: poll_ops_def poll_queries)

section \<open>Properties\<close>

text \<open>C6.
  A round of the reactor over \<open>epoll\<close> in which \<open>epoll_wait\<close> does not fail never follows a null channel, whatever registered
  descriptors and events the kernel reports, as
  long as the callbacks of handlers and timers change the reactor only by setting and removing
  handlers and do not set one on a descriptor that waits to be cleaned (what happens then is \<open>rearm_lost\<close>): a removed channel stays
  until the end of the round, so that a descriptor reported in this round still has its channel
  when its turn comes. After the round every descriptor of interest has a channel with the handler
  for it, and nothing waits to be cleaned.
\<close>
theorem reactor_round_safe:
  fixes r :: "('k epoll, 'cb, 'q) reactor" and exec :: "('k epoll, 'cb, 'q, 'w) rexec"
  assumes "handler_exec (epoll_ops ctl) y exec" and "reactor_inv (epoll_fine ctl interest) epoll_rd epoll_wr r"
    and "\<And>t wr1. choose_timeout exec nonblock i (w, r) = Inr (t, wr1) \<Longrightarrow> wait_answer interest (re_io (snd wr1)) (answer i t)"
    and "\<And>t. answer i t \<noteq> None"
  shows "case reactor_round (epoll_ops ctl) exec nonblock i (w, r) of Inl f \<Rightarrow> f \<noteq> NullDeref
    | Inr (w', r') \<Rightarrow> reactor_inv (epoll_fine ctl interest) epoll_rd epoll_wr r' \<and> needclean r' = []"
proof -
  have fresh: "0 < n \<or> ep_active s' = []" if l: "Inr (epoll_listen (answer i t) s) = Inr (n, s')" for t n and s s' :: "'k epoll"
  proof -
    obtain evs where "answer i t = Some evs" using assms(4) [of t] by auto
    with l show ?thesis by (cases evs) (auto simp: epoll_listen_def)
  qed
  have "outcome (- {NullDeref}) (\<lambda>wr'. reactor_inv (epoll_fine ctl interest) epoll_rd epoll_wr (snd wr') \<and> needclean (snd wr') = [])
      (reactor_round (epoll_ops ctl) exec nonblock i (w, r))"
    by (rule er.round_safe [OF assms(1,2)]) (rule assms(3), assumption, rule fresh, assumption)
  then show ?thesis by (auto simp: outcome_def split: sum.splits)
qed

text \<open>
  A handler that is set on a descriptor while the descriptor waits to be cleaned is lost with its
  channel at the end of the round, although the multiplexer goes on watching the descriptor: when
  it is reported next, the loop follows a null pointer.
\<close>
theorem rearm_lost:
  fixes r :: "('io, 'cb, 'k) reactor"
  assumes "fd \<in> set (needclean r)" and "smap_ok (channels r)" and "set_read_handler ops y fd f r = Inr r1"
    and "re_io r2 = s" and "channels r2 = channels (clean_channels r1)" and "io_readable ops fd s = Inr True"
  shows "\<not> smap_count fd (channels (clean_channels r1)) \<and> dispatch ops exec (fd # fds) (w, r2) = Inl NullDeref"
proof -
  from assms(3) obtain ri ra c where s: "init_channel y fd r = Inr ri" "io_call (io_add ops fd RD) ri = Inr ra"
    "r1 = put_channel fd (c\<lparr>readcb := Some f\<rparr>) ra"
    by (auto simp: set_read_handler_def add_read_def bind_res_eq_Inr)
  have "needclean ri = needclean r" "smap_ok (channels ri)" using s(1) assms(2) by (auto simp: init_channel_def split: if_splits)
  moreover have "needclean ra = needclean ri" "channels ra = channels ri" using s(2) by (auto simp: io_call_def bind_res_eq_Inr)
  ultimately have "fd \<in> set (needclean r1)" "smap_ok (channels r1)" using s(3) assms(1) by (simp_all add: put_channel_def)
  then have n: "smap_find fd (channels (clean_channels r1)) = None" using clean_channels_find(1) [of r1 fd] by simp
  then have "channel_at fd r2 = Inl NullDeref" using assms(5) by (simp add: channel_at_def smap_index_def)
  then have "run_handler (io_readable ops) readcb exec fd (w, r2) = Inl NullDeref" using assms(4,6) by (simp add: run_handler_def)
  with n show ?thesis by (simp add: smap_count_def)
qed

text \<open>
  \<open>loop\<close> returns only for a reason: it was asked for one round, a callback has called
  \<open>set_terminated\<close>, or neither channels nor timers are left.
\<close>

lemma loop_returns:
  "reactor_loop ops exec nonblock once ins wr = Inr wr' \<Longrightarrow>
   once \<or> terminated (snd wr') \<or> reactor_empty (snd wr') \<and> time_empty (re_time (snd wr'))"
proof (induction ins arbitrary: wr)
  case Nil
  then show ?case by (auto simp: reactor_loop.simps [of _ _ _ _ "[]"] split: if_splits)
next
  case (Cons i ins)
  then show ?case by (auto simp: reactor_loop.simps [of _ _ _ _ "i # ins"] bind_res_eq_Inr split: if_splits)
qed

section \<open>An example\<close>

text \<open>Descriptor 5 with a handler that removes itself, and a kernel that reports input on 5.\<close>

definition ex_io :: "((int, int) smap) epoll" where
  "ex_io = \<lparr>epfd = 3, ep_events = [(5, RD)], ep_size = Some 1024, ep_res = None, ep_result = [], ep_active = [], ep_kernel = [(5, EPOLLIN)]\<rparr>"

definition ex_reactor :: "((int, int) smap epoll, nat, int list \<times> nat list) reactor" where
  "ex_reactor = (reactor_new ex_io ([], []))\<lparr>channels := [(5, Some \<lparr>ch_fd = 5, readcb = Some 1, writecb = None, errorcb = None\<rparr>)]\<rparr>"

definition ex_exec :: "((int, int) smap epoll, nat, int list \<times> nat list, nat list) rexec" where
  "ex_exec cb wr = bind_res (run_call (epoll_ops list_ctl) ex_sys (RemoveRead 5) (snd wr)) (\<lambda>r. Inr (cb # fst wr, r))"

definition ex_round :: "(int \<times> int) list option round_in" where
  "ex_round = \<lparr>clock1 = (0, 0), clock2 = (0, 0), clock3 = (0, 0), answer = (\<lambda>_. Some [(5, EPOLLIN)]), timer_fuel = 1\<rparr>"

lemma channel_at_faults: "channel_at fd r = Inl f \<Longrightarrow> f = NullDeref"
  by (auto simp: channel_at_def split: option.splits)

lemma ex_ctl_total: "ctl_total list_ctl (\<lambda>k fd. smap_find fd k)"
proof -
  have "fst (list_ctl ep op fd m k) = 0" if "smap_find fd k \<noteq> None" "op \<noteq> EPOLL_CTL_ADD" for ep op fd m k
    using that by (cases op) (simp_all add: smap_count_def)
  then show ?thesis by (simp add: ctl_total_def)
qed

lemma ex_inv: "reactor_inv (epoll_fine list_ctl (\<lambda>k fd. smap_find fd k)) epoll_rd epoll_wr ex_reactor"
proof -
  have "epoll_ok (\<lambda>k fd. smap_find fd k) ex_io" by (simp add: epoll_ok_def ex_io_def RDWR_3 RD_def to_epoll_def has_rd_def has_wr_def WR_def)
  then have "epoll_fine list_ctl (\<lambda>k fd. smap_find fd k) ex_io" by (simp add: epoll_fine_def epoll_good_def list_ctl_contract ex_ctl_total)
  then show ?thesis
    by (auto simp: reactor_inv_def ex_reactor_def reactor_new_def ex_io_def epoll_rd_def epoll_wr_def smap_count_def split: if_splits)
qed

theorem reactor_round_safe_witness:
  "case reactor_round (epoll_ops list_ctl) ex_exec False ex_round ([], ex_reactor) of Inl f \<Rightarrow> f \<noteq> NullDeref | Inr (w, r) \<Rightarrow> needclean r = []"
proof -
  have "outcome (- {NullDeref}) (\<lambda>wr. handler_run (epoll_ops list_ctl) ex_sys r (snd wr)) (ex_exec cb (w, r))"
    if nn: "\<forall>fd. smap_find fd (channels r) \<noteq> Some None" for cb w r
  proof -
    have "smap_find 5 (channels r) = None \<or> (\<exists>c. smap_find 5 (channels r) = Some (Some c))"
      using spec [OF nn, of 5] by (metis option.exhaust)
    then have "\<exists>r'. run_call (epoll_ops list_ctl) ex_sys (RemoveRead 5) r = Inr r'"
      by (auto simp: remove_read_handler_def smap_count_def channel_at_def smap_index_def Let_def remove_read_def io_call_def
          epoll_ops_def split: prod.splits option.splits)
    then obtain r' where r': "run_call (epoll_ops list_ctl) ex_sys (RemoveRead 5) r = Inr r'" by blast
    then have "handler_run (epoll_ops list_ctl) ex_sys r r'" by (intro run_one [OF run_nothing, of "RemoveRead 5"]) simp_all
    with r' show ?thesis by (simp add: ex_exec_def)
  qed
  then have h: "handler_exec (epoll_ops list_ctl) ex_sys ex_exec" by (simp add: handler_exec_def)
  have w: "wait_answer (\<lambda>k fd. smap_find fd k) ex_io (Some [(5, EPOLLIN)])"
    by (simp add: wait_answer_def ex_io_def from_epoll_def EPOLLIN_def EPOLLOUT_def EPOLLHUP_def EPOLLERR_def Let_def RD_def)
  have "choose_timeout ex_exec False ex_round ([], ex_reactor) = Inr (-1, [], ex_reactor)"
    by (simp add: choose_timeout_def ex_reactor_def reactor_new_def time_new_def time_empty_def)
  with reactor_round_safe [OF h ex_inv, of False ex_round "[]"] w show ?thesis
    by (auto simp: ex_round_def ex_reactor_def reactor_new_def split: sum.splits)
qed

theorem rearm_lost_witness:
  "\<exists>r1. set_read_handler (epoll_ops list_ctl) ex_sys 5 2 (ex_reactor\<lparr>needclean := [5]\<rparr>) = Inr r1
    \<and> dispatch (epoll_ops list_ctl) ex_exec [5] ([], (clean_channels r1)\<lparr>re_io := snd (epoll_listen (Some [(5, EPOLLIN)]) (re_io r1))\<rparr>) = Inl NullDeref"
proof -
  let ?r = "ex_reactor\<lparr>needclean := [5]\<rparr>"
  have "epoll_add list_ctl 5 RD ex_io = (1, ex_io)" by (simp add: epoll_add_def ex_io_def smap_index_def RD_def)
  then obtain r1 where r1: "set_read_handler (epoll_ops list_ctl) ex_sys 5 2 ?r = Inr r1"
    by (simp add: set_read_handler_def init_channel_def ex_reactor_def reactor_new_def add_read_def io_call_def epoll_ops_def
        smap_count_def channel_at_def smap_index_def split: prod.splits)
  let ?s = "snd (epoll_listen (Some [(5, EPOLLIN)]) (re_io r1))"
  have f: "from_epoll EPOLLIN = RD" by (simp add: from_epoll_def EPOLLIN_def EPOLLOUT_def EPOLLHUP_def EPOLLERR_def Let_def)
  have "io_readable (epoll_ops list_ctl) 5 ?s = Inr True"
    by (simp add: epoll_ops_def epoll_listen_def epoll_is_readable_def smap_count_def smap_at_def f)
  with rearm_lost [OF _ _ r1, of "(clean_channels r1)\<lparr>re_io := ?s\<rparr>" ?s ex_exec "[]" "[]"] r1 show ?thesis
    by (simp add: ex_reactor_def reactor_new_def)
qed

end
