(* ===== verification/Libio_Lock.thy ===== *)
theory Libio_Lock
  imports Libio_Prelude
begin

text \<open>
  The locked containers of \<open>src/core/lock.hh\<close>. Every method holds the mutex of the container from
  its first to its last statement, so a concurrent run is a sequence of whole method calls. The
  locale \<open>fifo\<close> is what the thread pool and the servers rely on; \<open>lock_queue\<close> is its
  interpretation. \<open>lock_list::insert\<close> calls \<open>std::list::insert\<close> without a position, which no list
  has; no code instantiates it, and it has no counterpart here.
\<close>

section \<open>Definitions\<close>

text \<open>\<open>lock_queue\<close>; \<open>lq_pop v\<close> leaves the variable \<open>v\<close> alone when the queue is empty.\<close>

definition lq_push :: "'a \<Rightarrow> 'a list \<Rightarrow> bool \<times> 'a list" where
  "lq_push v q = (True, q @ [v])"

definition lq_pop :: "'a \<Rightarrow> 'a list \<Rightarrow> bool \<times> 'a \<times> 'a list" where
  "lq_pop v q = (case q of [] \<Rightarrow> (False, v, q) | x # xs \<Rightarrow> (True, x, xs))"

definition lq_empty :: "'a list \<Rightarrow> bool" where
  "lq_empty q = (q = [])"

definition lq_size :: "'a list \<Rightarrow> int" where
  "lq_size q = to_int (int (length q))"

text \<open>\<open>lock_list\<close>\<close>

definition ll_push_back :: "'a \<Rightarrow> 'a list \<Rightarrow> 'a list" where
  "ll_push_back v l = l @ [v]"

definition ll_remove :: "'a \<Rightarrow> 'a list \<Rightarrow> 'a list" where
  "ll_remove v l = filter (\<lambda>x. x \<noteq> v) l"

definition ll_remove_if :: "('a \<Rightarrow> bool) \<Rightarrow> 'a list \<Rightarrow> 'a list" where
  "ll_remove_if pred l = filter (\<lambda>x. \<not> pred x) l"

definition ll_clear :: "'a list \<Rightarrow> 'a list" where
  "ll_clear l = []"

definition ll_empty :: "'a list \<Rightarrow> bool" where
  "ll_empty l = (l = [])"

definition ll_size :: "'a list \<Rightarrow> int" where
  "ll_size l = to_int (int (length l))"

text \<open>The calls that threads make on one queue, in the order in which they get the mutex; \<open>QPop v\<close> passes
  a variable whose value is \<open>v\<close>.\<close>

datatype 'a qcall = QPush 'a | QPop 'a

fun run_calls :: "'a qcall list \<Rightarrow> 'a list \<Rightarrow> 'a list \<times> 'a list" where
  "run_calls [] q = ([], q)"
| "run_calls (QPush v # cs) q = run_calls cs (snd (lq_push v q))"
| "run_calls (QPop v # cs) q =
     (case lq_pop v q of (ok, x, q1) \<Rightarrow>
        case run_calls cs q1 of (got, q2) \<Rightarrow> (if ok then x # got else got, q2))"

fun pushed :: "'a qcall list \<Rightarrow> 'a list" where
  "pushed [] = []"
| "pushed (QPush v # cs) = v # pushed cs"
| "pushed (QPop v # cs) = pushed cs"

section \<open>First in, first out\<close>

locale fifo =
  fixes push :: "'a \<Rightarrow> 'q \<Rightarrow> bool \<times> 'q"
    and pop :: "'a \<Rightarrow> 'q \<Rightarrow> bool \<times> 'a \<times> 'q"
    and content :: "'q \<Rightarrow> 'a list"
  assumes push_content: "content (snd (push v q)) = content q @ [v]"
    and push_true: "fst (push v q)"
    and pop_empty: "content q = [] \<Longrightarrow> pop v q = (False, v, q)"
    and pop_front: "content q = x # xs \<Longrightarrow> \<exists>q'. pop v q = (True, x, q') \<and> content q' = xs"
begin

lemma pop_result: "fst (pop v q) = (content q \<noteq> [])"
proof (cases "content q")
  case (Cons x xs)
  with pop_front [OF Cons, of v] show ?thesis by auto
qed (simp add: pop_empty)

lemma pop_cases:
  obtains (empty) "content q = []" "pop v q = (False, v, q)"
    | (front) x q' where "pop v q = (True, x, q')" "content q = x # content q'"
proof (cases "content q")
  case (Cons x xs)
  with pop_front [OF Cons, of v] front show ?thesis by auto
qed (simp add: pop_empty empty)

lemma push_pop_other: "content q = x # xs \<Longrightarrow> content (snd (snd (pop v (snd (push w q))))) = xs @ [w]"
  using pop_front [of "snd (push w q)" x "xs @ [w]" v] by (auto simp: push_content)

end

interpretation lq: fifo lq_push lq_pop "\<lambda>q. q"
  by unfold_locales (simp_all add: lq_push_def lq_pop_def)

lemma run_calls_fifo: "run_calls cs q = (got, q') \<Longrightarrow> got @ q' = q @ pushed cs"
proof (induction cs q arbitrary: got rule: run_calls.induct)
  case (2 v cs q)
  then show ?case by (simp add: lq.push_content)
next
  case (3 v cs q)
  show ?case
  proof (cases rule: lq.pop_cases [of q v])
    case empty
    with "3.prems" "3.IH" [of False "(v, q)" v q] show ?thesis by (auto split: prod.splits)
  next
    case (front x q1)
    with "3.prems" obtain rest where "run_calls cs q1 = (rest, q')" "got = x # rest" by (auto split: prod.splits)
    with "3.IH" [of True "(x, q1)" x q1] front show ?thesis by simp
  qed
qed simp

section \<open>Properties\<close>

text \<open>
  However the calls of any number of threads on one queue interleave, the values popped so far
  followed by what is still queued are the values pushed, in the order of the pushes: nothing is
  lost, duplicated or reordered, and \<open>size\<close> is the difference of the two counts.
\<close>
theorem lock_queue_fifo:
  assumes "length (pushed cs) \<le> nat INT_MAX"
  shows "fst (run_calls cs []) @ snd (run_calls cs []) = pushed cs
    \<and> lq_size (snd (run_calls cs [])) = int (length (pushed cs)) - int (length (fst (run_calls cs [])))
    \<and> lq_empty (snd (run_calls cs [])) = (fst (run_calls cs []) = pushed cs)"
proof -
  obtain got q where r: "run_calls cs [] = (got, q)" by (cases "run_calls cs []")
  have eq: "pushed cs = got @ q" using run_calls_fifo [OF r] by simp
  then have "int (length q) \<le> INT_MAX" using assms by (simp add: INT_MAX_def)
  then have "lq_size q = int (length q)" by (simp add: lq_size_def INT_MIN_def)
  with r eq show ?thesis by (simp add: lq_empty_def)
qed

theorem lock_queue_fifo_witness:
  "fst (run_calls [QPush 1, QPop 0, QPush 2, QPush (3::nat), QPop 0] []) @ snd (run_calls [QPush 1, QPop 0, QPush 2, QPush 3, QPop 0] []) = [1, 2, 3]"
  using lock_queue_fifo [of "[QPush 1, QPop 0, QPush 2, QPush (3::nat), QPop 0]"] by (simp add: INT_MAX_def)

end
