(* ===== verification/Libio_Thread.thy ===== *)
theory Libio_Thread
  imports Libio_Lock
begin

text \<open>
  The thread pool of \<open>src/core/thread.hh\<close> as a step relation. A worker thread is a program counter;
  one step is a stretch of the code with one access to shared data. The workers that were ever
  started stay in the list \<open>workers\<close>, also the ones that \<open>resize\<close> detached; the vector \<open>threads\<close>
  holds their numbers. A worker keeps the index \<open>i\<close> its lambda captured, and reads \<open>flags[i]\<close> in the
  vector as it is at that moment: outside it the access is a fault. \<open>pending\<close> counts the calls of
  \<open>push\<close> between the push into the task queue and \<open>notify_one\<close>, \<open>owner\<close> is the worker that holds the
  mutex between its look at the queue and its decision to sleep or to leave.
\<close>

section \<open>Definitions\<close>

text \<open>
  Where a worker is: about to pop for the first time or after a task (\<open>Polling\<close>), in a task, behind
  it, at the lock with no task found, awake again inside \<open>cv.wait\<close>, behind the failed pop of the
  predicate with the mutex held, asleep, gone.
\<close>

datatype 't wstate =
    Polling | Running 't | Finished | Locking | Woken | Checked | Asleep | Exited

record 't tpool =
  workers :: "(nat \<times> 't wstate) list"
  threads :: "nat list"
  flags :: "bool list"
  taskQue :: "'t list"
  nWaiting :: int
  isStop :: bool
  isDone :: bool
  pending :: nat
  owner :: "nat option"

definition set_pc :: "nat \<Rightarrow> 't wstate \<Rightarrow> 't tpool \<Rightarrow> 't tpool" where
  "set_pc k pc s = s\<lparr>workers := (workers s)[k := (fst (workers s ! k), pc)]\<rparr>"

definition pc_of :: "'t tpool \<Rightarrow> nat \<Rightarrow> 't wstate" where
  "pc_of s k = snd (workers s ! k)"

text \<open>\<open>*flags[i]\<close>\<close>

definition read_flag :: "nat \<Rightarrow> 't tpool \<Rightarrow> bool res" where
  "read_flag i s = (if i < length (flags s) then Inr (flags s ! i) else Inl BadAccess)"

text \<open>
  One step of worker \<open>k\<close>. A worker at the lock or woken up needs the mutex; the pop of the predicate
  belongs to the same step. A worker asleep or gone has no step of its own.
\<close>

definition worker_enabled :: "nat \<Rightarrow> 't tpool \<Rightarrow> bool" where
  "worker_enabled k s =
     (k < length (workers s) \<and>
      (case pc_of s k of Asleep \<Rightarrow> False | Exited \<Rightarrow> False | Locking \<Rightarrow> owner s = None | Woken \<Rightarrow> owner s = None | _ \<Rightarrow> True))"

definition worker_step :: "nat \<Rightarrow> 't tpool \<Rightarrow> 't tpool res" where
  "worker_step k s =
     (let i = fst (workers s ! k) in
      case pc_of s k of
        Polling \<Rightarrow>
          Inr (case taskQue s of [] \<Rightarrow> set_pc k Locking s | t # ts \<Rightarrow> set_pc k (Running t) (s\<lparr>taskQue := ts\<rparr>))
      | Running t \<Rightarrow> Inr (set_pc k Finished s)
      | Finished \<Rightarrow> bind_res (read_flag i s) (\<lambda>b. Inr (set_pc k (if b then Exited else Polling) s))
      | Locking \<Rightarrow>
          Inr (case taskQue s of
                 [] \<Rightarrow> set_pc k Checked (s\<lparr>nWaiting := nWaiting s + 1, owner := Some k\<rparr>)
               | t # ts \<Rightarrow> set_pc k (Running t) (s\<lparr>taskQue := ts\<rparr>))
      | Woken \<Rightarrow>
          Inr (case taskQue s of
                 [] \<Rightarrow> set_pc k Checked (s\<lparr>owner := Some k\<rparr>)
               | t # ts \<Rightarrow> set_pc k (Running t) (s\<lparr>taskQue := ts, nWaiting := nWaiting s - 1\<rparr>))
      | Checked \<Rightarrow>
          bind_res (if isDone s then Inr True else read_flag i s) (\<lambda>b.
            Inr (if b then set_pc k Exited (s\<lparr>nWaiting := nWaiting s - 1, owner := None\<rparr>)
                 else set_pc k Asleep (s\<lparr>owner := None\<rparr>)))
      | _ \<Rightarrow> Inr s)"

text \<open>\<open>push\<close>: the task enters the queue, then the mutex is taken and one sleeper is notified.\<close>

definition pool_push :: "'t \<Rightarrow> 't tpool \<Rightarrow> 't tpool" where
  "pool_push t s = s\<lparr>taskQue := snd (lq_push t (taskQue s)), pending := pending s + 1\<rparr>"

definition wake :: "nat \<times> 't wstate \<Rightarrow> nat \<times> 't wstate" where
  "wake w = (case w of (i, Asleep) \<Rightarrow> (i, Woken) | _ \<Rightarrow> w)"

definition sleeping :: "nat \<Rightarrow> 't tpool \<Rightarrow> bool" where
  "sleeping k s = (k < length (workers s) \<and> pc_of s k = Asleep)"

definition notify_all :: "'t tpool \<Rightarrow> 't tpool" where
  "notify_all s = s\<lparr>workers := map wake (workers s)\<rparr>"

definition notify_one :: "nat option \<Rightarrow> 't tpool \<Rightarrow> 't tpool" where
  "notify_one k s = (case k of None \<Rightarrow> s | Some j \<Rightarrow> set_pc j Woken s)\<lparr>pending := pending s - 1\<rparr>"

text \<open>\<open>pop\<close> hands a task to the caller, \<open>clear_task_queue\<close> pops until the queue is empty.\<close>

definition pool_pop :: "'t tpool \<Rightarrow> 't option \<times> 't tpool" where
  "pool_pop s = (case taskQue s of [] \<Rightarrow> (None, s) | t # ts \<Rightarrow> (Some t, s\<lparr>taskQue := ts\<rparr>))"

fun drain :: "'t list \<Rightarrow> 't list" where
  "drain q = (case q of [] \<Rightarrow> [] | t # ts \<Rightarrow> drain ts)"

definition clear_task_queue :: "'t tpool \<Rightarrow> 't tpool" where
  "clear_task_queue s = s\<lparr>taskQue := drain (taskQue s)\<rparr>"

text \<open>\<open>set_thread\<close> starts a worker with index \<open>i\<close>.\<close>

definition set_thread :: "nat \<Rightarrow> 't tpool \<Rightarrow> 't tpool" where
  "set_thread i s =
     s\<lparr>workers := workers s @ [(i, Polling)], threads := threads s @ [length (workers s)], flags := flags s @ [False]\<rparr>"

text \<open>
  \<open>resize\<close>. To shrink, the flags of the surplus threads are set and the threads detached, the
  sleepers notified under the mutex, and then both vectors cut.
\<close>

definition resize_grow :: "nat \<Rightarrow> 't tpool \<Rightarrow> 't tpool" where
  "resize_grow n s = fold set_thread [length (threads s)..<n] s"

definition resize_mark :: "nat \<Rightarrow> 't tpool \<Rightarrow> 't tpool" where
  "resize_mark n s = s\<lparr>flags := take n (flags s) @ map (\<lambda>_. True) (drop n (flags s))\<rparr>"

definition resize_cut :: "nat \<Rightarrow> 't tpool \<Rightarrow> 't tpool" where
  "resize_cut n s = s\<lparr>threads := take n (threads s), flags := take n (flags s)\<rparr>"

definition pool_resize :: "nat \<Rightarrow> 't tpool \<Rightarrow> 't tpool" where
  "pool_resize n s =
     (if \<not> isStop s \<and> \<not> isDone s then
        if length (threads s) \<le> n then resize_grow n s else resize_cut n (notify_all (resize_mark n s))
      else s)"

definition pool_new :: "nat \<Rightarrow> 't tpool" where
  "pool_new n = pool_resize n
     \<lparr>workers = [], threads = [], flags = [], taskQue = [], nWaiting = 0, isStop = False, isDone = False, pending = 0, owner = None\<rparr>"

text \<open>
  \<open>stop\<close> in three parts: the flags, with the early return, the notification under the mutex, and,
  once every thread of the vector has been joined, the cleaning up.
\<close>

definition stop_begin :: "bool \<Rightarrow> 't tpool \<Rightarrow> 't tpool option" where
  "stop_begin isWait s =
     (if \<not> isWait then
        if isStop s then None
        else Some (clear_task_queue (s\<lparr>isStop := True, flags := map (\<lambda>_. True) (flags s)\<rparr>))
      else if isDone s \<or> isStop s then None else Some (s\<lparr>isDone := True\<rparr>))"

definition stop_joined :: "'t tpool \<Rightarrow> bool" where
  "stop_joined s = (\<forall>k \<in> set (threads s). pc_of s k = Exited)"

definition stop_end :: "'t tpool \<Rightarrow> 't tpool" where
  "stop_end s = (clear_task_queue s)\<lparr>threads := [], flags := []\<rparr>"

definition idle_size :: "'t tpool \<Rightarrow> int" where
  "idle_size s = nWaiting s"

text \<open>
  The steps of the whole pool. \<open>notify_one\<close> wakes some sleeper if there is one; a sleeper may also
  wake up spuriously. The parts of \<open>resize\<close> and \<open>stop\<close> are separate steps, in any order.
\<close>

inductive pool_step :: "'t tpool \<Rightarrow> 't tpool res \<Rightarrow> bool" where
  step_worker: "worker_enabled k s \<Longrightarrow> pool_step s (worker_step k s)"
| step_push: "pool_step s (Inr (pool_push t s))"
| step_notify: "0 < pending s \<Longrightarrow> owner s = None \<Longrightarrow> sleeping j s \<Longrightarrow> pool_step s (Inr (notify_one (Some j) s))"
| step_notify_none: "0 < pending s \<Longrightarrow> owner s = None \<Longrightarrow> (\<And>j. \<not> sleeping j s) \<Longrightarrow> pool_step s (Inr (notify_one None s))"
| step_spurious: "sleeping j s \<Longrightarrow> pool_step s (Inr (set_pc j Woken s))"
| step_pop: "pool_step s (Inr (snd (pool_pop s)))"
| step_clear: "pool_step s (Inr (clear_task_queue s))"
| step_grow: "pool_step s (Inr (resize_grow n s))"
| step_mark: "pool_step s (Inr (resize_mark n s))"
| step_cut: "pool_step s (Inr (resize_cut n s))"
| step_notify_all: "owner s = None \<Longrightarrow> pool_step s (Inr (notify_all s))"
| step_stop: "stop_begin w s = Some s' \<Longrightarrow> pool_step s (Inr s')"
| step_stop_end: "stop_joined s \<Longrightarrow> pool_step s (Inr (stop_end s))"

inductive pool_reach :: "'t tpool \<Rightarrow> bool" where
  reach_init: "pool_reach (pool_new n)"
| reach_step: "pool_reach s \<Longrightarrow> pool_step s (Inr s') \<Longrightarrow> pool_reach s'"

text \<open>The number of workers whose program counter satisfies \<open>P\<close>, and the invariant.\<close>

definition cnt :: "('t wstate \<Rightarrow> bool) \<Rightarrow> 't tpool \<Rightarrow> int" where
  "cnt P s = int (length (filter (\<lambda>w. P (snd w)) (workers s)))"

definition in_wait :: "'t wstate \<Rightarrow> bool" where
  "in_wait pc = (pc = Woken \<or> pc = Checked \<or> pc = Asleep)"

definition pool_ok :: "'t tpool \<Rightarrow> bool" where
  "pool_ok s =
     (nWaiting s = cnt in_wait s \<and>
      cnt (\<lambda>pc. pc = Checked) s = (if owner s = None then 0 else 1) \<and>
      (0 < cnt (\<lambda>pc. pc = Asleep \<or> pc = Checked) s \<longrightarrow> int (length (taskQue s)) \<le> int (pending s) + cnt (\<lambda>pc. pc = Woken) s))"

section \<open>The invariant\<close>

lemma cnt_set_pc:
  assumes "k < length (workers s)"
  shows "cnt P (set_pc k pc s) = cnt P s - of_bool (P (pc_of s k)) + of_bool (P pc)"
proof -
  let ?ws = "workers s" and ?f = "\<lambda>w. P (snd w)"
  have "?ws = take k ?ws @ ?ws ! k # drop (Suc k) ?ws" using assms by (rule id_take_nth_drop)
  then have "filter ?f ?ws = filter ?f (take k ?ws) @ filter ?f [?ws ! k] @ filter ?f (drop (Suc k) ?ws)"
    by (metis append_Cons append_Nil filter_append)
  then show ?thesis using assms by (simp add: cnt_def set_pc_def pc_of_def upd_conv_take_nth_drop)
qed

lemma cnt_other [simp]:
  "cnt P (s\<lparr>taskQue := q\<rparr>) = cnt P s" "cnt P (s\<lparr>nWaiting := n\<rparr>) = cnt P s" "cnt P (s\<lparr>owner := w\<rparr>) = cnt P s"
  "cnt P (s\<lparr>pending := m\<rparr>) = cnt P s" "cnt P (s\<lparr>flags := fl\<rparr>) = cnt P s" "cnt P (s\<lparr>threads := ts\<rparr>) = cnt P s"
  "cnt P (s\<lparr>isStop := b\<rparr>) = cnt P s" "cnt P (s\<lparr>isDone := b\<rparr>) = cnt P s"
  by (simp_all add: cnt_def)

lemma set_pc_other [simp]:
  "workers (s\<lparr>taskQue := q\<rparr>) = workers s" "pc_of (s\<lparr>taskQue := q\<rparr>) = pc_of s" "pc_of (s\<lparr>nWaiting := n\<rparr>) = pc_of s"
  "pc_of (s\<lparr>owner := w\<rparr>) = pc_of s"
  "taskQue (set_pc k pc s) = taskQue s" "nWaiting (set_pc k pc s) = nWaiting s" "owner (set_pc k pc s) = owner s"
  "pending (set_pc k pc s) = pending s" "flags (set_pc k pc s) = flags s"
  by (simp_all add: pc_of_def set_pc_def fun_eq_iff)

lemma cnt_pc:
  assumes k: "k < length (workers s)"
  shows "cnt P (set_pc k pc s) = cnt P s - of_bool (P (pc_of s k)) + of_bool (P pc)"
    "cnt P (set_pc k pc (s\<lparr>taskQue := q\<rparr>)) = cnt P s - of_bool (P (pc_of s k)) + of_bool (P pc)"
    "cnt P (set_pc k pc (s\<lparr>owner := w\<rparr>)) = cnt P s - of_bool (P (pc_of s k)) + of_bool (P pc)"
    "cnt P (set_pc k pc (s\<lparr>nWaiting := n, owner := w\<rparr>)) = cnt P s - of_bool (P (pc_of s k)) + of_bool (P pc)"
    "cnt P (set_pc k pc (s\<lparr>taskQue := q, nWaiting := n\<rparr>)) = cnt P s - of_bool (P (pc_of s k)) + of_bool (P pc)"
  using k by (simp_all add: cnt_set_pc)

lemma drain_empty [simp]: "drain q = []"
  by (induction q rule: drain.induct) (auto split: list.splits)

declare drain.simps [simp del]

lemma cnt_nonneg: "0 \<le> cnt P s"
  by (simp add: cnt_def)

lemma worker_step_ok:
  assumes ok: "pool_ok s" and en: "worker_enabled k s" and r: "worker_step k s = Inr s'"
  shows "pool_ok s'"
proof -
  have k: "k < length (workers s)" using en by (simp add: worker_enabled_def)
  show ?thesis
  proof (cases "pc_of s k")
    case Polling
    with r have "s' = (case taskQue s of [] \<Rightarrow> set_pc k Locking s | t # ts \<Rightarrow> set_pc k (Running t) (s\<lparr>taskQue := ts\<rparr>))"
      by (simp add: worker_step_def Let_def)
    with ok Polling show ?thesis by (auto simp: pool_ok_def cnt_pc [OF k] in_wait_def split: list.splits if_splits)
  next
    case (Running t)
    with r have "s' = set_pc k Finished s" by (simp add: worker_step_def Let_def)
    with ok Running show ?thesis by (auto simp: pool_ok_def cnt_pc [OF k] in_wait_def split: if_splits)
  next
    case Finished
    with r obtain b where "s' = set_pc k (if b then Exited else Polling) s" by (auto simp: worker_step_def Let_def bind_res_eq_Inr)
    with ok Finished show ?thesis by (cases b) (auto simp: pool_ok_def cnt_pc [OF k] in_wait_def split: if_splits)
  next
    case Locking
    with r en have "owner s = None" "s' = (case taskQue s of
          [] \<Rightarrow> set_pc k Checked (s\<lparr>nWaiting := nWaiting s + 1, owner := Some k\<rparr>)
        | t # ts \<Rightarrow> set_pc k (Running t) (s\<lparr>taskQue := ts\<rparr>))" by (simp_all add: worker_step_def Let_def worker_enabled_def)
    with ok Locking cnt_nonneg [of "\<lambda>pc. pc = Woken" s] show ?thesis by (auto simp: pool_ok_def cnt_pc [OF k] in_wait_def split: list.splits if_splits)
  next
    case Woken
    with r en have "owner s = None" "s' = (case taskQue s of
          [] \<Rightarrow> set_pc k Checked (s\<lparr>owner := Some k\<rparr>)
        | t # ts \<Rightarrow> set_pc k (Running t) (s\<lparr>taskQue := ts, nWaiting := nWaiting s - 1\<rparr>))"
      by (simp_all add: worker_step_def Let_def worker_enabled_def)
    with ok Woken cnt_nonneg [of "\<lambda>pc. pc = Woken" "set_pc k Checked s"] show ?thesis by (auto simp: pool_ok_def cnt_pc [OF k] in_wait_def split: list.splits if_splits)
  next
    case Checked
    with r consider "s' = set_pc k Exited (s\<lparr>nWaiting := nWaiting s - 1, owner := None\<rparr>)" | "s' = set_pc k Asleep (s\<lparr>owner := None\<rparr>)"
      by (auto simp: worker_step_def Let_def bind_res_eq_Inr split: if_splits)
    moreover have "0 < cnt (\<lambda>pc. pc = Checked) s"
      using cnt_nonneg [of "\<lambda>pc. pc = Checked" "set_pc k Exited s"] Checked by (simp add: cnt_pc [OF k])
    then have "owner s \<noteq> None" using ok by (auto simp: pool_ok_def split: if_splits)
    ultimately show ?thesis using ok Checked by cases (auto simp: pool_ok_def cnt_pc [OF k] in_wait_def split: if_splits)
  qed (use r ok in \<open>simp_all add: worker_step_def Let_def\<close>)
qed

lemma cnt_0: "(cnt P s = 0) = (\<forall>k < length (workers s). \<not> P (pc_of s k))"
  by (simp add: cnt_def filter_empty_conv pc_of_def all_set_conv_all_nth)

lemma notify_one_ok:
  assumes ok: "pool_ok s" and "0 < pending s" "owner s = None" "case j of None \<Rightarrow> \<forall>i. \<not> sleeping i s | Some i \<Rightarrow> sleeping i s"
  shows "pool_ok (notify_one j s)"
proof (cases j)
  case None
  have "cnt (\<lambda>pc. pc = Checked) s = 0" using ok assms(3) by (simp add: pool_ok_def)
  then have "cnt (\<lambda>pc. pc = Asleep \<or> pc = Checked) s = 0"
    using None assms(4) by (auto simp: cnt_0 sleeping_def)
  then show ?thesis using ok None by (simp add: pool_ok_def notify_one_def)
next
  case (Some i)
  then have i: "i < length (workers s)" "pc_of s i = Asleep" using assms(4) by (auto simp: sleeping_def)
  with ok Some assms(2) show ?thesis by (auto simp: pool_ok_def notify_one_def cnt_set_pc in_wait_def split: if_splits)
qed

lemma spurious_ok: "pool_ok s \<Longrightarrow> sleeping j s \<Longrightarrow> pool_ok (set_pc j Woken s)"
  by (auto simp: pool_ok_def sleeping_def cnt_set_pc in_wait_def split: if_splits)

lemma cnt_notify_all:
  "cnt P (notify_all s) = int (length (filter (\<lambda>w. P (if snd w = Asleep then Woken else snd w)) (workers s)))"
proof -
  have "snd (wake w) = (if snd w = Asleep then Woken else snd w)" for w :: "nat \<times> 'a wstate"
    by (cases w; cases "snd w") (simp_all add: wake_def)
  then show ?thesis by (simp add: cnt_def notify_all_def filter_map o_def)
qed

lemma notify_all_ok: "pool_ok s \<Longrightarrow> owner s = None \<Longrightarrow> pool_ok (notify_all s)"
proof -
  assume ok: "pool_ok s" "owner s = None"
  have "cnt in_wait (notify_all s) = cnt in_wait s" "cnt (\<lambda>pc. pc = Checked) (notify_all s) = cnt (\<lambda>pc. pc = Checked) s"
    unfolding cnt_notify_all by (auto simp: cnt_def in_wait_def intro!: arg_cong [of _ _ length] filter_cong)
  moreover have "cnt (\<lambda>pc. pc = Asleep \<or> pc = Checked) (notify_all s) = cnt (\<lambda>pc. pc = Checked) s"
    unfolding cnt_notify_all by (auto simp: cnt_def intro!: arg_cong [of _ _ length] filter_cong)
  ultimately show ?thesis using ok by (simp add: pool_ok_def) (simp add: notify_all_def)
qed

lemma shrink_queue_ok: "pool_ok s \<Longrightarrow> length q \<le> length (taskQue s) \<Longrightarrow> pool_ok (s\<lparr>taskQue := q\<rparr>)"
  by (auto simp: pool_ok_def)

lemma neutral_ok [simp]:
  "pool_ok (s\<lparr>flags := fl\<rparr>) = pool_ok s" "pool_ok (s\<lparr>threads := ts\<rparr>) = pool_ok s"
  "pool_ok (s\<lparr>isStop := b\<rparr>) = pool_ok s" "pool_ok (s\<lparr>isDone := b\<rparr>) = pool_ok s"
  by (simp_all add: pool_ok_def)

lemma set_thread_ok: "pool_ok s \<Longrightarrow> pool_ok (set_thread i s)"
  by (simp add: pool_ok_def set_thread_def in_wait_def cnt_def)

lemma resize_grow_ok: "pool_ok s \<Longrightarrow> pool_ok (resize_grow n s)"
proof -
  have "pool_ok s \<Longrightarrow> pool_ok (fold set_thread l s)" for l
    by (induction l arbitrary: s) (simp_all add: set_thread_ok)
  then show "pool_ok s \<Longrightarrow> pool_ok (resize_grow n s)" by (simp add: resize_grow_def)
qed

lemma pool_new_ok: "pool_ok (pool_new n)"
proof -
  have "pool_ok \<lparr>workers = [], threads = [], flags = [], taskQue = [], nWaiting = 0, isStop = False, isDone = False, pending = 0, owner = None\<rparr>"
    by (simp add: pool_ok_def cnt_def)
  then have "pool_ok (resize_grow n \<lparr>workers = [], threads = [], flags = [], taskQue = [], nWaiting = 0, isStop = False, isDone = False, pending = 0, owner = None\<rparr>)"
    by (rule resize_grow_ok)
  then show ?thesis by (simp add: pool_new_def pool_resize_def)
qed

lemma pool_push_ok: "pool_ok s \<Longrightarrow> pool_ok (pool_push t s)"
  by (auto simp: pool_ok_def pool_push_def lq_push_def)

lemma pool_pop_ok: "pool_ok s \<Longrightarrow> pool_ok (snd (pool_pop s))"
  by (auto simp: pool_pop_def intro: shrink_queue_ok split: list.splits)

lemma clear_ok: "pool_ok s \<Longrightarrow> pool_ok (clear_task_queue s)"
  by (simp add: clear_task_queue_def shrink_queue_ok)

lemmas pool_op_ok = worker_step_ok notify_one_ok spurious_ok notify_all_ok resize_grow_ok pool_push_ok pool_pop_ok clear_ok

lemma pool_step_ok:
  assumes "pool_step s r" and "pool_ok s" and "r = Inr s'"
  shows "pool_ok s'"
  using assms
proof (induction arbitrary: s' rule: pool_step.induct)
  case (step_stop w s s1)
  then show ?case by (auto simp: stop_begin_def intro!: clear_ok split: if_splits)
next
  case (step_notify s j)
  then show ?case using notify_one_ok [of s "Some j"] by simp
next
  case (step_notify_none s)
  then show ?case using notify_one_ok [of s None] by simp
qed (auto simp: resize_mark_def resize_cut_def stop_end_def intro: pool_op_ok)

lemma pool_reach_ok: "pool_reach s \<Longrightarrow> pool_ok s"
  by (induction rule: pool_reach.induct) (auto intro: pool_new_ok pool_step_ok)

section \<open>Properties\<close>

text \<open>C10.
  No wake-up is lost. In every reachable state of the pool, under every interleaving of the workers
  with calls of \<open>push\<close>, \<open>pop\<close>, \<open>resize\<close> and \<open>stop\<close> and with spurious wake-ups: while a worker sleeps,
  the tasks in the queue are at most the notifications still to be sent and the workers already
  woken up for them; so when neither is left, the queue is empty. The counter behind \<open>idle_size\<close> is
  the number of workers inside \<open>wait\<close>.
\<close>
theorem pool_no_lost_wakeup:
  assumes "pool_reach s" and "sleeping k s"
  shows "int (length (taskQue s)) \<le> int (pending s) + cnt (\<lambda>pc. pc = Woken) s
    \<and> idle_size s = cnt in_wait s \<and> 0 < idle_size s"
proof -
  have ok: "pool_ok s" using assms(1) by (rule pool_reach_ok)
  have "cnt (\<lambda>pc. pc = Asleep \<or> pc = Checked) s \<noteq> 0" "cnt in_wait s \<noteq> 0"
    using assms(2) unfolding cnt_0 by (auto simp: sleeping_def in_wait_def)
  with ok cnt_nonneg [of _ s] show ?thesis by (simp add: pool_ok_def idle_size_def order_less_le)
qed

text \<open>
  Shrinking the pool makes its detached workers read outside the vector of flags: a worker that
  was asleep is woken up by \<open>resize\<close>, finds no task, and reads the flag that \<open>resize\<close> has destroyed.
  The servers do this at every start, when they resize the default pool of four threads to two.
\<close>
theorem resize_detached_faults:
  assumes "\<not> isStop s" "\<not> isDone s" and n: "n < length (threads s)" and len: "length (flags s) = length (threads s)"
    and q: "taskQue s = []" and o: "owner s = None" and k: "sleeping k s" and i: "n \<le> fst (workers s ! k)"
  shows "worker_enabled k (pool_resize n s) \<and>
    (\<exists>s'. worker_step k (pool_resize n s) = Inr s' \<and> worker_enabled k s' \<and> worker_step k s' = Inl BadAccess)"
proof -
  let ?s = "pool_resize n s"
  have s: "?s = resize_cut n (notify_all (resize_mark n s))" using assms by (simp add: pool_resize_def)
  have kl: "k < length (workers s)" and pc: "snd (workers s ! k) = Asleep" using k by (auto simp: sleeping_def pc_of_def)
  have ws: "workers ?s = map wake (workers s)" "taskQue ?s = []" "owner ?s = None" "flags ?s = take n (flags s)" "isDone ?s = False"
    using assms len n by (simp_all add: s resize_cut_def notify_all_def resize_mark_def)
  have wk: "workers ?s ! k = (fst (workers s ! k), Woken)" using kl pc by (cases "workers s ! k") (simp add: ws wake_def)
  let ?s1 = "set_pc k Checked (?s\<lparr>owner := Some k\<rparr>)"
  have step: "worker_step k ?s = Inr ?s1" and en: "worker_enabled k ?s"
    using kl wk by (simp_all add: worker_step_def worker_enabled_def pc_of_def Let_def ws)
  have "workers ?s1 ! k = (fst (workers s ! k), Checked)" "k < length (workers ?s1)" "isDone ?s1 = False"
    using kl wk by (simp_all add: set_pc_def ws)
  moreover from this have "worker_step k ?s1 = Inl BadAccess"
    using i n len by (simp add: worker_step_def pc_of_def Let_def read_flag_def ws)
  ultimately have "worker_enabled k ?s1 \<and> worker_step k ?s1 = Inl BadAccess" by (simp add: worker_enabled_def pc_of_def)
  with step en show ?thesis by blast
qed

text \<open>The pool of four threads in which every worker has found the queue empty and fallen asleep.\<close>

definition ex_go_idle :: "nat \<Rightarrow> nat tpool \<Rightarrow> nat tpool" where
  "ex_go_idle k s =
     (case bind_res (worker_step k s) (\<lambda>s1. bind_res (worker_step k s1) (worker_step k)) of Inr s' \<Rightarrow> s' | Inl _ \<Rightarrow> s)"

definition ex_idle :: "nat tpool" where
  "ex_idle = ex_go_idle 3 (ex_go_idle 2 (ex_go_idle 1 (ex_go_idle 0 (pool_new 4))))"

lemma ex_pool_new4: "pool_new 4 = \<lparr>workers = [(0, Polling), (1, Polling), (2, Polling), (3, Polling)], threads = [0, 1, 2, 3],
    flags = [False, False, False, False], taskQue = [], nWaiting = 0, isStop = False, isDone = False, pending = 0, owner = None\<rparr>"
  by (simp add: pool_new_def pool_resize_def resize_grow_def set_thread_def upt_rec)

lemma ex_idle_eq: "ex_idle = \<lparr>workers = [(0, Asleep), (1, Asleep), (2, Asleep), (3, Asleep)], threads = [0, 1, 2, 3],
    flags = [False, False, False, False], taskQue = [], nWaiting = 4, isStop = False, isDone = False, pending = 0, owner = None\<rparr>"
  by (simp add: ex_idle_def ex_go_idle_def ex_pool_new4 worker_step_def pc_of_def set_pc_def Let_def read_flag_def)

lemma ex_go_idle_reach:
  assumes "pool_reach s" and "taskQue s = []" "owner s = None" "k < length (workers s)" "pc_of s k = Polling"
    and "\<not> isDone s" "fst (workers s ! k) < length (flags s)" "\<not> flags s ! fst (workers s ! k)"
  shows "pool_reach (ex_go_idle k s)"
proof -
  let ?s1 = "set_pc k Locking s" and ?s2 = "set_pc k Checked (set_pc k Locking s\<lparr>nWaiting := nWaiting s + 1, owner := Some k\<rparr>)"
  let ?s3 = "set_pc k Asleep (?s2\<lparr>owner := None\<rparr>)"
  have w: "worker_step k s = Inr ?s1" "worker_step k ?s1 = Inr ?s2" "worker_step k ?s2 = Inr ?s3"
    "worker_enabled k s" "worker_enabled k ?s1" "worker_enabled k ?s2"
    using assms by (simp_all add: worker_step_def pc_of_def set_pc_def Let_def read_flag_def worker_enabled_def)
  have "pool_reach ?s3" using assms(1) w step_worker [of k] reach_step by metis
  then show ?thesis using w by (simp add: ex_go_idle_def)
qed

theorem pool_no_lost_wakeup_witness: "pool_reach ex_idle \<and> sleeping 1 ex_idle \<and> int (length (taskQue ex_idle)) \<le> int (pending ex_idle) + cnt (\<lambda>pc. pc = Woken) ex_idle"
proof -
  have "pool_reach ex_idle" unfolding ex_idle_def
    by (intro ex_go_idle_reach reach_init) (simp_all add: ex_go_idle_def ex_pool_new4 worker_step_def pc_of_def set_pc_def Let_def read_flag_def)
  moreover have "sleeping 1 ex_idle" by (simp add: sleeping_def pc_of_def ex_idle_eq)
  ultimately show ?thesis using pool_no_lost_wakeup by blast
qed

theorem resize_detached_faults_witness:
  "\<exists>s'. worker_step 3 (pool_resize 2 ex_idle) = Inr s' \<and> worker_enabled 3 s' \<and> worker_step 3 s' = Inl BadAccess"
  using resize_detached_faults [of ex_idle 2 3] by (simp add: ex_idle_eq sleeping_def pc_of_def)

end
