(* ===== verification/Libio_Http_Server.thy ===== *)
theory Libio_Http_Server
  imports Libio_Connection Libio_Http_Stream Libio_Reactor Libio_Thread
begin

text \<open>
  The HTTP server of \<open>src/http\<close>: connections (\<open>http_connection\<close>), the threads that own them
  (\<open>http_thread\<close>) and the accepting server (\<open>http_multithread_server\<close>). A connection object lives at a
  number in \<open>ht_conns\<close>; the maps and queues of \<open>unique_ptr\<close> hold these numbers, and a lambda that
  captures \<open>this\<close> is a \<open>hcb\<close> with the number. The request handlers of the application are values of
  type \<open>'h\<close>; what one does to the thread is the argument \<open>run\<close>. Calls on sockets act on the kernel
  state of the thread's reactor.
\<close>

section \<open>Connections and threads\<close>

datatype connection_status_t = CONNECTED | CLOSING | CLOSED

record http_connection = connection +
  hc_requests :: "request list"
  hc_status :: connection_status_t

datatype hcb = ReadCb nat | WriteCb nat | WakeupCb

record ('k, 'q) http_thread =
  ht_reactor :: "('k epoll, hcb, 'q) reactor"
  ht_wakeupfd :: int
  ht_conns :: "(nat, http_connection) smap"
  hashConnections :: "(int, nat) smap"
  emptyConnections :: "nat list"
  clientQueue :: "(int \<times> string \<times> int) list"

text \<open>\<open>he_forget\<close> is what \<open>close(2)\<close> does to the interest list of \<open>epoll\<close>: the kernel drops the descriptor.\<close>

record ('k, 'q, 'a) http_env =
  he_heap :: heap_env
  he_date :: string
  he_ctl :: "'k epoll_ctl"
  he_forget :: "int \<Rightarrow> 'k \<Rightarrow> 'k"
  he_sys :: "('q, 'a) sys"

record 'h handlers =
  requestHandlers :: "(string, 'h) smap"
  generalHandler :: "'h option"

type_synonym ('h, 'k, 'q) run_handler_fn = "'h \<Rightarrow> request \<Rightarrow> nat \<Rightarrow> ('k, 'q) http_thread \<Rightarrow> ('k, 'q) http_thread res"

definition get_conn :: "nat \<Rightarrow> ('k, 'q) http_thread \<Rightarrow> http_connection res" where
  "get_conn c th = (case smap_find c (ht_conns th) of None \<Rightarrow> Inl BadAccess | Some x \<Rightarrow> Inr x)"

definition put_conn :: "nat \<Rightarrow> http_connection \<Rightarrow> ('k, 'q) http_thread \<Rightarrow> ('k, 'q) http_thread" where
  "put_conn c x th = th\<lparr>ht_conns := smap_set c x (ht_conns th)\<rparr>"

definition with_reactor ::
  "(('k epoll, hcb, 'q) reactor \<Rightarrow> ('k epoll, hcb, 'q) reactor res) \<Rightarrow> ('k, 'q) http_thread \<Rightarrow> ('k, 'q) http_thread res" where
  "with_reactor f th = bind_res (f (ht_reactor th)) (\<lambda>r. Inr (th\<lparr>ht_reactor := r\<rparr>))"

definition sys_call :: "('q \<Rightarrow> 'b \<times> 'q) \<Rightarrow> ('k, 'q) http_thread \<Rightarrow> ('k, 'q) http_thread" where
  "sys_call f th = th\<lparr>ht_reactor := (ht_reactor th)\<lparr>re_kernel := snd (f (re_kernel (ht_reactor th)))\<rparr>\<rparr>"

abbreviation he_ops :: "('k, 'q, 'a) http_env \<Rightarrow> ('k epoll, (int \<times> int) list option) io_ops" where
  "he_ops env \<equiv> epoll_ops (he_ctl env)"

text \<open>\<open>setup_new_events\<close>: the handlers are set, the interest they come with is withdrawn.\<close>

definition setup_new_events :: "('k, 'q, 'a) http_env \<Rightarrow> nat \<Rightarrow> ('k, 'q) http_thread \<Rightarrow> ('k, 'q) http_thread res" where
  "setup_new_events env c th =
     bind_res (get_conn c th) (\<lambda>x. let fd = conn_fd x in
     bind_res (with_reactor (set_read_handler (he_ops env) (he_sys env) fd (ReadCb c)) th) (\<lambda>th1.
     bind_res (with_reactor (remove_read (he_ops env) fd) th1) (\<lambda>th2.
     bind_res (with_reactor (set_write_handler (he_ops env) (he_sys env) fd (WriteCb c)) th2) (\<lambda>th3.
       with_reactor (remove_write (he_ops env) fd) th3))))"

text \<open>The constructor, at a new number.\<close>

definition fresh_conn :: "('k, 'q) http_thread \<Rightarrow> nat" where
  "fresh_conn th = Suc (sum_list (map fst (ht_conns th)))"

definition http_connection_new ::
  "('k, 'q, 'a) http_env \<Rightarrow> int \<Rightarrow> string \<Rightarrow> int \<Rightarrow> ('k, 'q) http_thread \<Rightarrow> (nat \<times> ('k, 'q) http_thread) res" where
  "http_connection_new env fd addr port th =
     bind_res (connection_new (he_heap env)) (\<lambda>x.
       if fd \<le> 0 then Inl (ExitCalled (-1))
       else
         let c = fresh_conn th;
             x' = \<lparr>conn_in = conn_in x, conn_out = conn_out x, conn_fd = fd, conn_address = addr, conn_port = Some port,
                   hc_requests = [], hc_status = CONNECTED\<rparr> in
         bind_res (setup_new_events env c (put_conn c x' th)) (\<lambda>th'. Inr (c, th')))"

definition release_connection :: "int \<Rightarrow> ('k, 'q) http_thread \<Rightarrow> ('k, 'q) http_thread" where
  "release_connection fd th =
     (case smap_find fd (hashConnections th) of
        None \<Rightarrow> th
      | Some c \<Rightarrow> th\<lparr>emptyConnections := emptyConnections th @ [c], hashConnections := smap_erase fd (hashConnections th)\<rparr>)"

definition epoll_closed :: "('k, 'q, 'a) http_env \<Rightarrow> int \<Rightarrow> ('k, 'q) http_thread \<Rightarrow> ('k, 'q) http_thread" where
  "epoll_closed env fd th =
     (let r = ht_reactor th; io = re_io r in th\<lparr>ht_reactor := r\<lparr>re_io := io\<lparr>ep_kernel := he_forget env fd (ep_kernel io)\<rparr>\<rparr>\<rparr>)"

definition conn_close :: "('k, 'q, 'a) http_env \<Rightarrow> nat \<Rightarrow> ('k, 'q) http_thread \<Rightarrow> ('k, 'q) http_thread res" where
  "conn_close env c th =
     bind_res (get_conn c th) (\<lambda>x.
       if 0 < conn_fd x then
         let fd = conn_fd x;
             th1 = th\<lparr>ht_reactor := reactor_erase fd (ht_reactor th)\<rparr>;
             th2 = sys_call (s_shutdown (he_sys env) fd SHUT_WR) th1;
             th3 = epoll_closed env fd (sys_call (s_close (he_sys env) fd) th2);
             th4 = release_connection fd th3 in
         Inr (put_conn c (x\<lparr>conn_fd := -1, conn_out := buffer_clear (conn_out x), conn_in := buffer_clear (conn_in x),
                             hc_status := CLOSED, hc_requests := []\<rparr>) th4)
       else Inr th)"

section \<open>Replies\<close>

definition send_request :: "('k, 'q, 'a) http_env \<Rightarrow> request \<Rightarrow> nat \<Rightarrow> ('k, 'q) http_thread \<Rightarrow> ('k, 'q) http_thread res" where
  "send_request env req c th =
     bind_res (get_conn c th) (\<lambda>x.
     bind_res (send_to (he_heap env) req (conn_out x)) (\<lambda>(_, b).
       with_reactor (add_write (he_ops env) (conn_fd x)) (put_conn c (x\<lparr>conn_out := b\<rparr>) th)))"

definition send_reply_buffer ::
  "('k, 'q, 'a) http_env \<Rightarrow> int \<Rightarrow> string \<Rightarrow> buffer option \<Rightarrow> nat \<Rightarrow> ('k, 'q) http_thread \<Rightarrow> ('k, 'q) http_thread res" where
  "send_reply_buffer env code reason content c th =
     bind_res (request_new (he_heap env)) (\<lambda>r.
     bind_res (set_response (he_heap env) (he_date env) code reason content r) (\<lambda>(r1, _).
       send_request env r1 c th))"

definition send_reply ::
  "('k, 'q, 'a) http_env \<Rightarrow> int \<Rightarrow> string \<Rightarrow> string \<Rightarrow> nat \<Rightarrow> ('k, 'q) http_thread \<Rightarrow> ('k, 'q) http_thread res" where
  "send_reply env code reason content c th =
     (if content = [] then send_reply_buffer env code reason None c th
      else
        bind_res (buffer_new (he_heap env)) (\<lambda>b.
        bind_res (buffer_push_string (he_heap env) content b) (\<lambda>(_, b1).
          send_reply_buffer env code reason (Some b1) c th)))"

definition send_chunk_start ::
  "('k, 'q, 'a) http_env \<Rightarrow> int \<Rightarrow> string \<Rightarrow> nat \<Rightarrow> ('k, 'q) http_thread \<Rightarrow> ('k, 'q) http_thread res" where
  "send_chunk_start env code reason c th =
     bind_res (request_new (he_heap env)) (\<lambda>r.
     bind_res (set_response (he_heap env) (he_date env) code reason None r) (\<lambda>(r1, _).
       send_request env (set_header ''Transfer-Encoding'' ''chunked'' r1) c th))"

definition send_chunk ::
  "('k, 'q, 'a) http_env \<Rightarrow> buffer \<Rightarrow> nat \<Rightarrow> ('k, 'q) http_thread \<Rightarrow> (buffer option \<times> ('k, 'q) http_thread) res" where
  "send_chunk env buf c th =
     bind_res (get_conn c th) (\<lambda>x.
     bind_res (conn_push (he_heap env) (to_hex (buffer_length buf) @ [CR, LF]) x) (\<lambda>x1.
     bind_res (conn_push_buffer (he_heap env) (Some buf) x1) (\<lambda>(buf', x2).
     bind_res (conn_push (he_heap env) [CR, LF] x2) (\<lambda>x3.
     bind_res (with_reactor (add_write (he_ops env) (conn_fd x)) (put_conn c x3 th)) (\<lambda>th'. Inr (buf', th'))))))"

definition send_chunk_end :: "('k, 'q, 'a) http_env \<Rightarrow> nat \<Rightarrow> ('k, 'q) http_thread \<Rightarrow> ('k, 'q) http_thread res" where
  "send_chunk_end env c th =
     bind_res (get_conn c th) (\<lambda>x.
     bind_res (conn_push (he_heap env) (''0'' @ [CR, LF, CR, LF]) x) (\<lambda>x1.
       with_reactor (add_write (he_ops env) (conn_fd x)) (put_conn c x1 th)))"

section \<open>Requests\<close>

text \<open>The comparison of a registered path with the path of a request, segment by segment.\<close>

fun same_segments :: "string list \<Rightarrow> string list \<Rightarrow> bool" where
  "same_segments (a # v1) (b # v2) = (if a \<noteq> b \<and> a \<noteq> ''*'' then False else same_segments v1 v2)"
| "same_segments _ _ = True"

definition path_matches :: "string \<Rightarrow> string \<Rightarrow> bool" where
  "path_matches pat u =
     (let v1 = split pat CHR ''/''; v2 = split u CHR ''/'' in
      length v1 = length v2 \<and> same_segments v1 v2)"

fun first_match :: "string \<Rightarrow> (string \<times> 'h) list \<Rightarrow> 'h option" where
  "first_match u [] = None"
| "first_match u ((pat, h) # hs) = (if path_matches pat u then Some h else first_match u hs)"

definition route :: "'h handlers \<Rightarrow> string \<Rightarrow> 'h option" where
  "route srv u =
     (if smap_count u (requestHandlers srv) then smap_find u (requestHandlers srv)
      else case first_match u (requestHandlers srv) of
        Some h \<Rightarrow> Some h
      | None \<Rightarrow> generalHandler srv)"

text \<open>\<open>shutdown(fd, SHUT_RD)\<close>, \<open>remove_read_handler(fd)\<close>, \<open>status = CLOSING\<close>.\<close>

definition stop_reading :: "('k, 'q, 'a) http_env \<Rightarrow> nat \<Rightarrow> ('k, 'q) http_thread \<Rightarrow> ('k, 'q) http_thread res" where
  "stop_reading env c th =
     bind_res (get_conn c th) (\<lambda>x.
     bind_res (with_reactor (remove_read_handler (he_ops env) (conn_fd x))
                 (sys_call (s_shutdown (he_sys env) (conn_fd x) SHUT_RD) th)) (\<lambda>th1.
       Inr (put_conn c (x\<lparr>hc_status := CLOSING\<rparr>) th1)))"

definition not_found :: "('k, 'q, 'a) http_env \<Rightarrow> request \<Rightarrow> nat \<Rightarrow> ('k, 'q) http_thread \<Rightarrow> ('k, 'q) http_thread res" where
  "not_found env req c th =
     bind_res (request_new (he_heap env)) (\<lambda>r.
     bind_res (set_response (he_heap env) (he_date env) HTTP_NOTFOUND ''NOT FOUND'' None (r\<lparr>uri := uri req\<rparr>)) (\<lambda>(r1, _).
     bind_res (get_header ''Connection'' req) (\<lambda>v.
     bind_res (get_conn c th) (\<lambda>x.
     bind_res (send_to (he_heap env) (if v = ''close'' then set_header ''Connection'' ''close'' r1 else r1) (conn_out x)) (\<lambda>(_, b).
       Inr (put_conn c (x\<lparr>conn_out := b\<rparr>) th))))))"

definition handle_request ::
  "('k, 'q, 'a) http_env \<Rightarrow> 'h handlers \<Rightarrow> ('h, 'k, 'q) run_handler_fn \<Rightarrow> request \<Rightarrow> nat \<Rightarrow> ('k, 'q) http_thread \<Rightarrow>
   ('k, 'q) http_thread res" where
  "handle_request env srv run req c th =
     bind_res (get_header ''Connection'' req) (\<lambda>v.
     bind_res (if v = ''close'' then stop_reading env c th else Inr th) (\<lambda>th1.
       case route srv (uri req) of
         Some h \<Rightarrow> run h req c th1
       | None \<Rightarrow> not_found env req c th1))"

text \<open>
  \<open>parse_request\<close>. The loop has fuel: a handler of the application may put bytes into the read
  buffer for ever. A handler that closes the connection leaves an empty queue, whose \<open>pop\<close> is a fault.
\<close>

definition front_request :: "heap_env \<Rightarrow> http_connection \<Rightarrow> (request \<times> http_connection) res" where
  "front_request e x =
     (case hc_requests x of
        [] \<Rightarrow> bind_res (request_new e) (\<lambda>r. let r1 = r\<lparr>kind := REQUEST\<rparr> in Inr (r1, x\<lparr>hc_requests := [r1]\<rparr>))
      | r # rs \<Rightarrow> Inr (r, x))"

definition pop_request :: "nat \<Rightarrow> ('k, 'q) http_thread \<Rightarrow> ('k, 'q) http_thread res" where
  "pop_request c th =
     bind_res (get_conn c th) (\<lambda>x.
       case hc_requests x of [] \<Rightarrow> Inl BadAccess | r # rs \<Rightarrow> Inr (put_conn c (x\<lparr>hc_requests := rs\<rparr>) th))"

definition parsed ::
  "('k, 'q, 'a) http_env \<Rightarrow> 'h handlers \<Rightarrow> ('h, 'k, 'q) run_handler_fn \<Rightarrow> parse_status_t \<Rightarrow> request \<Rightarrow> nat \<Rightarrow>
   ('k, 'q) http_thread \<Rightarrow> (bool \<times> ('k, 'q) http_thread) res" where
  "parsed env srv run st req c th =
     (case st of
        ALLREAD \<Rightarrow>
          bind_res (handle_request env srv run req c th) (\<lambda>th1. bind_res (pop_request c th1) (\<lambda>th2. Inr (True, th2)))
      | NEEDMORE \<Rightarrow>
          bind_res (get_conn c th) (\<lambda>x. bind_res (with_reactor (add_read (he_ops env) (conn_fd x)) th) (\<lambda>th1. Inr (False, th1)))
      | CORRUPTED \<Rightarrow>
          bind_res (stop_reading env c th) (\<lambda>th1.
          bind_res (send_reply env HTTP_BADREQUEST ''bad request'' ''400 Bad Request'' c th1) (\<lambda>th2. Inr (False, th2)))
      | CANCELD \<Rightarrow> bind_res (stop_reading env c th) (\<lambda>th1. Inr (False, th1)))"

fun parse_loop ::
  "nat \<Rightarrow> ('k, 'q, 'a) http_env \<Rightarrow> 'h handlers \<Rightarrow> ('h, 'k, 'q) run_handler_fn \<Rightarrow> nat \<Rightarrow> ('k, 'q) http_thread \<Rightarrow>
   ('k, 'q) http_thread res" where
  "parse_loop 0 env srv run c th = Inl NoReturn"
| "parse_loop (Suc n) env srv run c th =
     bind_res (get_conn c th) (\<lambda>x.
       if buffer_empty (conn_in x) then Inr th
       else
         bind_res (front_request (he_heap env) x) (\<lambda>(req, x1).
         bind_res (parse (he_heap env) req (conn_in x1)) (\<lambda>(st, req1, b).
         bind_res (parsed env srv run st req1 c
                     (put_conn c (x1\<lparr>conn_in := b, hc_requests := req1 # tl (hc_requests x1)\<rparr>) th)) (\<lambda>(processing, th1).
         bind_res (get_conn c th1) (\<lambda>x2.
         bind_res (if buffer_empty (conn_out x2) then Inr th1
                   else with_reactor (add_write (he_ops env) (conn_fd x2)) th1) (\<lambda>th2.
           if processing then parse_loop n env srv run c th2 else Inr th2))))))"

definition parse_request ::
  "nat \<Rightarrow> ('k, 'q, 'a) http_env \<Rightarrow> 'h handlers \<Rightarrow> ('h, 'k, 'q) run_handler_fn \<Rightarrow> nat \<Rightarrow> ('k, 'q) http_thread \<Rightarrow>
   ('k, 'q) http_thread res" where
  "parse_request n env srv run c th =
     bind_res (get_conn c th) (\<lambda>x.
       if buffer_empty (conn_in x)
       then if hc_status x = CONNECTED then with_reactor (add_read (he_ops env) (conn_fd x)) th else Inr th
       else parse_loop n env srv run c th)"

section \<open>Events\<close>

text \<open>
  The two handlers of \<open>setup_new_events\<close>. \<open>retry\<close> says whether \<open>errno\<close> after a failed call is one of
  \<open>EAGAIN\<close>, \<open>EINTR\<close> (and \<open>EINPROGRESS\<close> for writing).
\<close>

definition set_status :: "connection_status_t \<Rightarrow> nat \<Rightarrow> ('k, 'q) http_thread \<Rightarrow> ('k, 'q) http_thread res" where
  "set_status st c th = bind_res (get_conn c th) (\<lambda>x. Inr (put_conn c (x\<lparr>hc_status := st\<rparr>) th))"

definition on_read ::
  "nat \<Rightarrow> ('k, 'q, 'a) http_env \<Rightarrow> 'h handlers \<Rightarrow> ('h, 'k, 'q) run_handler_fn \<Rightarrow> sys_read \<Rightarrow> bool \<Rightarrow> nat \<Rightarrow>
   ('k, 'q) http_thread \<Rightarrow> ('k, 'q) http_thread res" where
  "on_read n env srv run rd retry c th =
     bind_res (get_conn c th) (\<lambda>x.
     bind_res (conn_read (he_heap env) rd x) (\<lambda>(k, x1).
       let th1 = put_conn c x1 th in
       if k = -1 then if retry then Inr th1 else with_reactor (remove_read (he_ops env) (conn_fd x1)) th1
       else if k = 0 then bind_res (with_reactor (remove_read (he_ops env) (conn_fd x1)) th1) (set_status CLOSING c)
       else parse_request n env srv run c th1))"

definition on_write ::
  "('k, 'q, 'a) http_env \<Rightarrow> sys_write \<Rightarrow> bool \<Rightarrow> nat \<Rightarrow> ('k, 'q) http_thread \<Rightarrow> ('k, 'q) http_thread res" where
  "on_write env wr retry c th =
     bind_res (get_conn c th) (\<lambda>x.
       if buffer_empty (conn_out x) then
         bind_res (with_reactor (remove_write (he_ops env) (conn_fd x)) th) (\<lambda>th1.
           if hc_status x = CLOSING then conn_close env c th1 else Inr th1)
       else
         bind_res (conn_write wr x) (\<lambda>(k, x1).
           let th1 = put_conn c x1 th in
           if k = -1 \<and> retry then Inr th1
           else if k = -1 \<or> k = 0 then bind_res (with_reactor (remove_write (he_ops env) (conn_fd x1)) th1) (set_status CLOSING c)
           else Inr th1))"

section \<open>Threads\<close>

definition make_connection ::
  "('k, 'q, 'a) http_env \<Rightarrow> int \<Rightarrow> string \<Rightarrow> int \<Rightarrow> ('k, 'q) http_thread \<Rightarrow> (nat \<times> ('k, 'q) http_thread) res" where
  "make_connection env fd addr port th =
     (case emptyConnections th of
        [] \<Rightarrow> http_connection_new env fd addr port th
      | c # cs \<Rightarrow>
          bind_res (get_conn c th) (\<lambda>x.
          bind_res (setup_new_events env c
                     (put_conn c (x\<lparr>conn_fd := fd, conn_address := addr, conn_port := Some port, hc_status := CONNECTED\<rparr>)
                       (th\<lparr>emptyConnections := cs\<rparr>))) (\<lambda>th1.
            Inr (c, th1))))"

text \<open>
  \<open>hashConnections[fd] = std::move(conn)\<close>: an object that was registered under the descriptor is
  destroyed after the new one is in place; its destructor closes it.
\<close>

definition register_connection ::
  "('k, 'q, 'a) http_env \<Rightarrow> int \<Rightarrow> nat \<Rightarrow> ('k, 'q) http_thread \<Rightarrow> ('k, 'q) http_thread res" where
  "register_connection env fd c th =
     (let th1 = th\<lparr>hashConnections := smap_set fd c (hashConnections th)\<rparr> in
      case smap_find fd (hashConnections th) of
        None \<Rightarrow> Inr th1
      | Some old \<Rightarrow> bind_res (conn_close env old th1) (\<lambda>th2. Inr (th2\<lparr>ht_conns := smap_erase old (ht_conns th2)\<rparr>)))"

fun take_clients ::
  "('k, 'q, 'a) http_env \<Rightarrow> (int \<times> string \<times> int) list \<Rightarrow> ('k, 'q) http_thread \<Rightarrow> ('k, 'q) http_thread res" where
  "take_clients env [] th = Inr (th\<lparr>clientQueue := []\<rparr>)"
| "take_clients env ((fd, addr, port) # q) th =
     bind_res (make_connection env fd addr port (th\<lparr>clientQueue := q\<rparr>)) (\<lambda>(c, th1).
     bind_res (get_conn c th1) (\<lambda>x.
     bind_res (with_reactor (add_read (he_ops env) (conn_fd x)) th1) (\<lambda>th2.
     bind_res (register_connection env fd c th2) (\<lambda>th3.
       take_clients env q th3))))"

text \<open>The handler of the wake-up descriptor.\<close>

definition on_wakeup :: "('k, 'q, 'a) http_env \<Rightarrow> ('k, 'q) http_thread \<Rightarrow> ('k, 'q) http_thread res" where
  "on_wakeup env th =
     (if lq_empty (clientQueue th) then Inr th
      else take_clients env (clientQueue th) (sys_call (s_read (he_sys env) (ht_wakeupfd th) 8) th))"

definition http_thread_new ::
  "('k, 'q, 'a) http_env \<Rightarrow> 'k epoll \<Rightarrow> 'q \<Rightarrow> ('k, 'q) http_thread res" where
  "http_thread_new env ep q =
     bind_res (create_eventfd (he_sys env) q) (\<lambda>(fd, q1).
     bind_res (set_read_handler (he_ops env) (he_sys env) fd WakeupCb (reactor_new ep q1)) (\<lambda>r.
       Inr \<lparr>ht_reactor = r, ht_wakeupfd = fd, ht_conns = [], hashConnections = [], emptyConnections = [], clientQueue = []\<rparr>))"

text \<open>
  The destructor. The members go in the reverse order of their declaration, so a registered
  connection that is still open runs its own \<open>close\<close> when \<open>emptyConnections\<close> is gone: a fault.
\<close>

definition http_thread_drop :: "('k, 'q, 'a) http_env \<Rightarrow> ('k, 'q) http_thread \<Rightarrow> ('k, 'q) http_thread res" where
  "http_thread_drop env th =
     (let th1 = (if 0 < ht_wakeupfd th then (sys_call (s_close (he_sys env) (ht_wakeupfd th)) th)\<lparr>ht_wakeupfd := -1\<rparr> else th) in
      if \<exists>kv \<in> set (hashConnections th). case smap_find (snd kv) (ht_conns th) of None \<Rightarrow> True | Some x \<Rightarrow> 0 < conn_fd x
      then Inl BadAccess else Inr th1)"

definition wakeup :: "('k, 'q, 'a) http_env \<Rightarrow> ('k, 'q) http_thread \<Rightarrow> ('k, 'q) http_thread" where
  "wakeup env th = sys_call (s_write (he_sys env) (ht_wakeupfd th) ''0x123456'') th"

section \<open>The server\<close>

text \<open>
  The accepting server. Its reactor waits on the listening socket with \<open>select\<close>; a task of the pool
  is the number of the thread whose loop it runs. \<open>K\<close> is the kernel state of the accepting thread.
\<close>

record ('k, 'q, 'h) http_server = "'h handlers" +
  srv_pool :: "nat tpool"
  srv_reactor :: "(select, int, 'q) reactor"
  srv_threads :: "('k, 'q) http_thread list"
  srv_size :: int
  srv_index :: int

definition server_new :: "heap_env \<Rightarrow> 'q \<Rightarrow> ('k, 'q, 'h) http_server res" where
  "server_new e q =
     bind_res (select_new e) (\<lambda>sel.
       Inr \<lparr>requestHandlers = [], generalHandler = None, srv_pool = pool_new 4, srv_reactor = reactor_new sel q,
            srv_threads = [], srv_size = 2, srv_index = 0\<rparr>)"

definition server_resize :: "int \<Rightarrow> ('k, 'q, 'h) http_server \<Rightarrow> ('k, 'q, 'h) http_server" where
  "server_resize n srv = srv\<lparr>srv_size := n\<rparr>"

definition set_request_handler :: "string \<Rightarrow> 'h \<Rightarrow> ('k, 'q, 'h) http_server \<Rightarrow> ('k, 'q, 'h) http_server" where
  "set_request_handler u h srv = srv\<lparr>requestHandlers := smap_set u h (requestHandlers srv)\<rparr>"

definition set_general_handler :: "'h \<Rightarrow> ('k, 'q, 'h) http_server \<Rightarrow> ('k, 'q, 'h) http_server" where
  "set_general_handler h srv = srv\<lparr>generalHandler := Some h\<rparr>"

text \<open>\<open>threads[i]\<close> with an index that is not checked.\<close>

definition thread_at :: "int \<Rightarrow> ('k, 'q, 'h) http_server \<Rightarrow> ('k, 'q) http_thread res" where
  "thread_at i srv =
     (if 0 \<le> i \<and> nat i < length (srv_threads srv) then Inr (srv_threads srv ! nat i) else Inl BadAccess)"

definition put_thread :: "int \<Rightarrow> ('k, 'q) http_thread \<Rightarrow> ('k, 'q, 'h) http_server \<Rightarrow> ('k, 'q, 'h) http_server" where
  "put_thread i th srv = srv\<lparr>srv_threads := (srv_threads srv)[nat i := th]\<rparr>"

text \<open>\<open>wakeup_random(n)\<close>, on the values that \<open>rand()\<close> returns; the remainder by 0 is undefined.\<close>

fun wake_some :: "('k, 'q, 'a) http_env \<Rightarrow> nat \<Rightarrow> int list \<Rightarrow> ('k, 'q, 'h) http_server \<Rightarrow> ('k, 'q, 'h) http_server res" where
  "wake_some env 0 rands srv = Inr srv"
| "wake_some env (Suc n) [] srv = Inl NoReturn"
| "wake_some env (Suc n) (x # rands) srv =
     (if srv_size srv = 0 then Inl IntOverflow
      else
        let i = x mod \<bar>srv_size srv\<bar> in
        bind_res (thread_at i srv) (\<lambda>th. wake_some env n rands (put_thread i (wakeup env th) srv)))"

definition wakeup_random ::
  "('k, 'q, 'a) http_env \<Rightarrow> int \<Rightarrow> int list \<Rightarrow> ('k, 'q, 'h) http_server \<Rightarrow> ('k, 'q, 'h) http_server res" where
  "wakeup_random env n rands srv =
     (let m = (if n < 0 \<or> srv_size srv < n then srv_size srv else n) in wake_some env (nat m) rands srv)"

text \<open>\<open>init\<close>; \<open>eps\<close> are the \<open>epoll\<close> objects of the new threads and their kernel states.\<close>

fun make_threads ::
  "('k, 'q, 'a) http_env \<Rightarrow> ('k epoll \<times> 'q) list \<Rightarrow> ('k, 'q, 'h) http_server \<Rightarrow> ('k, 'q, 'h) http_server res" where
  "make_threads env [] srv = Inr srv"
| "make_threads env ((ep, q) # eps) srv =
     bind_res (http_thread_new env ep q) (\<lambda>th. make_threads env eps (srv\<lparr>srv_threads := srv_threads srv @ [th]\<rparr>))"

definition server_init ::
  "('k, 'q, 'a) http_env \<Rightarrow> (nat \<Rightarrow> 'k epoll \<times> 'q) \<Rightarrow> ('k, 'q, 'h) http_server \<Rightarrow> ('k, 'q, 'h) http_server res" where
  "server_init env eps srv =
     make_threads env (map eps [0..<nat (srv_size srv)]) (srv\<lparr>srv_pool := pool_resize (nat (srv_size srv)) (srv_pool srv)\<rparr>)"

text \<open>The handler of the listening socket \<open>fd\<close>.\<close>

definition on_accept ::
  "('k, 'q, 'a) http_env \<Rightarrow> int \<Rightarrow> ('k, 'q, 'h) http_server \<Rightarrow> ('k, 'q, 'h) http_server res" where
  "on_accept env fd srv =
     bind_res (tcp_accept (he_sys env) fd [] 0 (re_kernel (srv_reactor srv))) (\<lambda>(clientfd, addr, port, q).
       let srv1 = srv\<lparr>srv_reactor := (srv_reactor srv)\<lparr>re_kernel := q\<rparr>\<rparr> in
       if clientfd \<le> 0 then Inr srv1
       else
         bind_res (thread_at (srv_index srv1) srv1) (\<lambda>th.
           let th1 = th\<lparr>clientQueue := snd (lq_push (clientfd, addr, port) (clientQueue th))\<rparr>;
               srv2 = put_thread (srv_index srv1) (wakeup env th1) srv1 in
           if srv_size srv2 = 0 then Inl IntOverflow
           else bind_res (cint (srv_index srv2 + 1)) (\<lambda>i. Inr (srv2\<lparr>srv_index := i mod \<bar>srv_size srv2\<bar>\<rparr>))))"

text \<open>
  \<open>start\<close> up to the call of \<open>loop\<close>. The result of \<open>bind\<close> is not looked at; the handler on descriptor
  \<open>fd\<close> is the number \<open>fd\<close>.
\<close>

definition server_start ::
  "('k, 'q, 'a) http_env \<Rightarrow> (nat \<Rightarrow> 'k epoll \<times> 'q) \<Rightarrow> string \<Rightarrow> int \<Rightarrow> ('k, 'q, 'h) http_server \<Rightarrow> (int \<times> ('k, 'q, 'h) http_server) res" where
  "server_start env eps address port srv =
     bind_res (server_init env eps srv) (\<lambda>srv1.
       case get_nonblock_socket (he_sys env) (re_kernel (srv_reactor srv1)) of (fd, q1) \<Rightarrow>
       case tcp_bind (he_sys env) fd address port q1 of (_, q2) \<Rightarrow>
       bind_res (tcp_listen (he_sys env) fd q2) (\<lambda>(_, q3).
       bind_res (set_read_handler (select_ops (he_heap env)) (he_sys env) fd fd ((srv_reactor srv1)\<lparr>re_kernel := q3\<rparr>)) (\<lambda>r.
         Inr (fd, srv1\<lparr>srv_reactor := r, srv_pool := fold pool_push [0..<nat (srv_size srv1)] (srv_pool srv1)\<rparr>))))"

end
