(* ===== verification/Libio_Http_Input.thy ===== *)
theory Libio_Http_Input
  imports Libio_Http_Stream
begin

text \<open>
  What the parser of \<open>src/http/request.cc\<close> leaves of its input buffer: the buffer as it was, or one from
  which something was taken, and such a buffer of \<open>src/core/buffer.hh\<close> is back at its start as soon as it is empty.
  This is why a connection can be used for any number of requests.
\<close>

text \<open>A buffer from which something was taken is moved back to its start when it is empty.\<close>

definition tidy :: "buffer \<Rightarrow> bool" where
  "tidy b = (off b = 0 \<longrightarrow> misalign b = 0)"

lemma tidy_used: "tidy b \<Longrightarrow> buffer_ok b \<Longrightarrow> buffer_content b = [] \<Longrightarrow> buffer_used b = 0"
  using buffer_off_content [of b] by (simp add: tidy_def buffer_used_def)

lemma buffer_nul_frame: "buffer_nul b = Inr b' \<Longrightarrow> off b' = off b \<and> misalign b' = misalign b"
  by (auto simp: buffer_nul_def bind_res_eq_Inr split: if_splits)

lemma drain_tidy: "buffer_drain n b = Inr b' \<Longrightarrow> tidy b'"
  unfolding buffer_drain_def tidy_def by (drule buffer_nul_frame) (simp split: if_splits)

lemma drain_used: "buffer_drain n b = Inr b' \<Longrightarrow> buffer_ok b \<Longrightarrow> buffer_used b' \<le> buffer_used b"
  unfolding buffer_drain_def buffer_used_def buffer_ok_def by (drule buffer_nul_frame) (simp split: if_splits)

lemma pop_line_tidy: "buffer_pop_line b = Inr (l, b') \<Longrightarrow> b' = b \<or> tidy b'"
  by (auto simp: buffer_pop_line_def Let_def bind_res_eq_Inr dest: drain_tidy split: if_splits)

lemma take_body_tidy: "take_body e n r b = Inr (r', b') \<Longrightarrow> b' = b \<or> tidy b'"
  by (auto simp: take_body_def buffer_push_buffer_def Let_def bind_res_eq_Inr dest: drain_tidy split: if_splits)

text \<open>What a parser leaves of its input is the input itself or a tidy buffer.\<close>

abbreviation leaves_tidy :: "buffer \<Rightarrow> (parse_status_t \<times> request \<times> buffer) res \<Rightarrow> bool" where
  "leaves_tidy b m \<equiv> outcome UNIV (\<lambda>(st, r, b'). b' = b \<or> tidy b') m"

lemma leaves_tidy_step: "b1 = b \<or> tidy b1 \<Longrightarrow> leaves_tidy b1 m \<Longrightarrow> leaves_tidy b m"
  by (cases m) auto

lemma parse_parts_tidy:
  "leaves_tidy b (parse_headers_loop e k v r b)" "leaves_tidy b (parse_body e r b)" "leaves_tidy b (parse_chunks e r b)"
proof (induction e k v r b and e r b and e r b rule: parse_headers_loop_parse_body_parse_chunks.induct)
  case (1 e k v r b)
  show ?case
  proof (cases "buffer_empty b")
    case False
    show ?thesis
    proof (cases "buffer_pop_line b")
      case (Inr p)
      obtain line b1 where p: "p = (line, b1)" by (cases p)
      with Inr have pop: "buffer_pop_line b = Inr (line, b1)" by simp
      note t = leaves_tidy_step [OF pop_line_tidy [OF pop]] and d = pop_line_tidy [OF pop]
      have 2: "leaves_tidy b (parse_body e (r\<lparr>status := READING_BODY\<rparr>) b1)" if "line = []" "no_body r = Inr False" "status r = READING_HEADERS"
        by (rule t, rule 1(1) [OF False pop refl]) (use that in auto)
      have 3: "leaves_tidy b (parse_headers_loop e k v (set_header k (v @ ltrim line [CHR '' '', CHR 0x09]) r) b1)"
        if "line \<noteq> []" "hd line = CHR '' '' \<or> hd line = CHR 0x09" "k \<noteq> []"
        by (rule t, rule 1(2) [OF False pop refl]) (use that in auto)
      have 4: "leaves_tidy b (parse_headers_loop e k' v' (set_header k' v' r) b1)"
        if "line \<noteq> []" "\<not> (hd line = CHR '' '' \<or> hd line = CHR 0x09)" "find_chr (CHR '':'') line = Some pos"
          "k' = trim (take pos line) ws" "v' = trim (drop (pos + 1) line) ws" for pos k' v'
        by (rule t, rule 1(3) [OF False pop refl]) (use that in auto)
      show ?thesis unfolding parse_headers_loop.simps [of e k v r b] pop
        by (cases "no_body r"; cases "find_chr (CHR '':'') line") (simp_all add: False d 2 3 4 Let_def)
    qed (use False in \<open>simp add: parse_headers_loop.simps [of e k v r b]\<close>)
  qed (simp add: parse_headers_loop.simps [of e k v r b])
next
  case (2 e r b)
  obtain te r1 where r1: "header_index ''Transfer-Encoding'' r = (te, r1)" by (metis surj_pair)
  let ?g = "if te = ''chunked'' then Inr (0, r1\<lparr>chunked := True, ntoread := -1\<rparr>) else get_body_length r1"
  show ?case
  proof (cases ?g)
    case (Inl f)
    then show ?thesis using r1 by (simp add: parse_body.simps [of e r b])
  next
    case (Inr p)
    obtain l r2 where p: "p = (l, r2)" by (cases p)
    have tb: "outcome UNIV (\<lambda>(r, b'). b' = b \<or> tidy b') (take_body e n r2 b)" for n
      by (cases "take_body e n r2 b") (auto dest: take_body_tidy)
    have tk: "leaves_tidy b (bind_res (take_body e n r2 b) (\<lambda>(r3, b3). Inr (st, r3, b3)))" for n st
      by (rule safe_bind [OF tb]) auto
    show ?thesis unfolding parse_body.simps [of e r b] r1 prod.case Inr p bind_res.simps
      using tk 2 [OF r1 [symmetric] Inr [unfolded p] refl] by auto
  qed
next
  case (3 e r b)
  show ?case
  proof (cases "buffer_empty b")
    case False
    note ne = False
    show ?thesis
    proof (cases "ntoread r < 0")
      case True
      show ?thesis
      proof (cases "buffer_pop_line b")
        case (Inr p)
        obtain line b1 where p: "p = (line, b1)" by (cases p)
        with Inr have pop: "buffer_pop_line b = Inr (line, b1)" by simp
        note t = leaves_tidy_step [OF pop_line_tidy [OF pop]] and d = pop_line_tidy [OF pop]
        have h: "leaves_tidy b (parse_headers_loop e [] [] (r\<lparr>ntoread := n, status := READING_TRAILER\<rparr>) b1)"
          if "stol16 line = Inr n" "\<not> (line = [] \<or> n < 0)" "n = 0" for n
          by (rule t, rule 3(1) [OF ne True pop refl, simplified]) (use that in auto)
        have c: "leaves_tidy b (parse_chunks e (r\<lparr>ntoread := n\<rparr>) b1)"
          if "stol16 line = Inr n" "\<not> (line = [] \<or> n < 0)" "n \<noteq> 0" for n
          by (rule t, rule 3(2) [OF ne True pop refl]) (use that in auto)
        show ?thesis unfolding parse_chunks.simps [of e r b]
          by (cases "stol16 line") (simp_all add: ne True pop d h c Let_def)
      qed (use ne True in \<open>simp add: parse_chunks.simps [of e r b]\<close>)
    next
      case False
      show ?thesis
      proof (cases "take_body e (to_int (ntoread r + 2)) r b")
        case (Inr p)
        obtain r1 b1 where p: "p = (r1, b1)" by (cases p)
        with Inr have tk: "take_body e (to_int (ntoread r + 2)) r b = Inr (r1, b1)" by simp
        have c: "leaves_tidy b (parse_chunks e (r1\<lparr>ntoread := -1\<rparr>) b1)" if "\<not> to_int (int (buffer_length b)) < ntoread r"
          by (rule leaves_tidy_step [OF take_body_tidy [OF tk]], rule 3(3) [OF ne False that tk refl])
        show ?thesis unfolding parse_chunks.simps [of e r b] by (simp add: ne False tk c)
      qed (use ne False in \<open>simp add: parse_chunks.simps [of e r b]\<close>)
    qed
  qed (simp add: parse_chunks.simps [of e r b])
qed

lemma parse_tidy: "parse e r b = Inr (st, r', b') \<Longrightarrow> b' = b \<or> tidy b'"
proof -
  have h: "leaves_tidy b (parse_headers e r b)" for r b using parse_parts_tidy(1) by (simp add: parse_headers_def)
  have "leaves_tidy b (parse_firstline e r b)"
  proof (cases "buffer_pop_line b")
    case (Inr p)
    obtain line b1 where p: "p = (line, b1)" by (cases p)
    with Inr have pop: "buffer_pop_line b = Inr (line, b1)" by simp
    note t = leaves_tidy_step [OF pop_line_tidy [OF pop]] and d = pop_line_tidy [OF pop]
    let ?f = "case kind r of REQUEST \<Rightarrow> parse_request_line line r | RESPONSE \<Rightarrow> parse_response_line line r"
    show ?thesis by (cases ?f) (simp_all add: parse_firstline_def pop d t [OF h] split: prod.split)
  qed (simp add: parse_firstline_def)
  then have "leaves_tidy b (parse e r b)"
    using h parse_parts_tidy(2) [of b e r] by (simp add: parse_def parse_trailer_def split: request_status_t.split)
  then show "parse e r b = Inr (st, r', b') \<Longrightarrow> b' = b \<or> tidy b'" by simp
qed

end
