(* ===== verification/Libio_Http_Serving.thy ===== *)
theory Libio_Http_Serving
  imports Libio_Http_Server Libio_Http_Input
begin

text \<open>
  What the HTTP server does with connections and requests: routing, the answers to pipelined
  requests, the chunked reply, the end of a connection, and the distribution of clients.
\<close>

section \<open>Routing\<close>

definition segment_matches :: "string \<Rightarrow> string \<Rightarrow> bool" where
  "segment_matches a b = (a = b \<or> a = ''*'')"

lemma same_segments_iff:
  "length v1 = length v2 \<Longrightarrow> same_segments v1 v2 = list_all2 segment_matches v1 v2"
  by (induction v1 v2 rule: same_segments.induct) (auto simp: segment_matches_def)

lemma path_matches_iff:
  "path_matches pat u = list_all2 segment_matches (split pat CHR ''/'') (split u CHR ''/'')"
  using list_all2_lengthD [of segment_matches "split pat CHR ''/''" "split u CHR ''/''"]
  by (auto simp: path_matches_def Let_def same_segments_iff)

lemma first_match_find: "first_match u hs = map_option snd (find (\<lambda>(pat, h). path_matches pat u) hs)"
  by (induction u hs rule: first_match.induct) auto

section \<open>Connections in a thread\<close>

lemma get_put_conn [simp]: "get_conn c (put_conn d x th) = (if c = d then Inr x else get_conn c th)"
  by (simp add: get_conn_def put_conn_def smap_find_set)

lemma put_conn_fields [simp]:
  "ht_reactor (put_conn c x th) = ht_reactor th" "hashConnections (put_conn c x th) = hashConnections th"
  "emptyConnections (put_conn c x th) = emptyConnections th" "clientQueue (put_conn c x th) = clientQueue th"
  "ht_wakeupfd (put_conn c x th) = ht_wakeupfd th"
  by (simp_all add: put_conn_def)

lemma get_conn_reactor [simp]:
  "get_conn c (th\<lparr>ht_reactor := r\<rparr>) = get_conn c th" "get_conn c (sys_call f th) = get_conn c th"
  by (simp_all add: get_conn_def sys_call_def)

text \<open>Calls of the multiplexer \<open>epoll\<close> always return.\<close>

lemma with_reactor_io:
  "with_reactor (add_read (epoll_ops ctl) fd) th = Inr (th\<lparr>ht_reactor := (ht_reactor th)\<lparr>re_io := snd (epoll_add ctl fd RD (re_io (ht_reactor th)))\<rparr>\<rparr>)"
  "with_reactor (add_write (epoll_ops ctl) fd) th = Inr (th\<lparr>ht_reactor := (ht_reactor th)\<lparr>re_io := snd (epoll_add ctl fd WR (re_io (ht_reactor th)))\<rparr>\<rparr>)"
  "with_reactor (remove_read (epoll_ops ctl) fd) th = Inr (th\<lparr>ht_reactor := (ht_reactor th)\<lparr>re_io := snd (epoll_remove ctl fd RD (re_io (ht_reactor th)))\<rparr>\<rparr>)"
  "with_reactor (remove_write (epoll_ops ctl) fd) th = Inr (th\<lparr>ht_reactor := (ht_reactor th)\<lparr>re_io := snd (epoll_remove ctl fd WR (re_io (ht_reactor th)))\<rparr>\<rparr>)"
  by (simp_all add: with_reactor_def add_read_def add_write_def remove_read_def remove_write_def io_call_def epoll_ops_def
      split: prod.splits)

section \<open>Answers\<close>

text \<open>The bytes of a reply with status 200, as \<open>send_reply\<close> builds it.\<close>

definition response_bytes :: "string \<Rightarrow> string \<Rightarrow> string" where
  "response_bytes date content =
     ''HTTP/1.1 200 OK'' @ [CR, LF] @ header_lines (response_hdrs date (length content)) @ [CR, LF] @ content"

lemma to_string_200: "to_string 200 = ''200''"
  by code_simp

text \<open>
  The thread after a reply was appended to the output of connection \<open>c\<close>: \<open>armed\<close> is the reactor after
  \<open>add_write\<close>.
\<close>

definition armed :: "'k epoll_ctl \<Rightarrow> int \<Rightarrow> ('k epoll, hcb, 'q) reactor \<Rightarrow> ('k epoll, hcb, 'q) reactor" where
  "armed ctl fd r = r\<lparr>re_io := snd (epoll_add ctl fd WR (re_io r))\<rparr>"

definition answered ::
  "('k, 'q, 'a) http_env \<Rightarrow> nat \<Rightarrow> http_connection \<Rightarrow> buffer \<Rightarrow> ('k, 'q) http_thread \<Rightarrow> ('k, 'q) http_thread" where
  "answered env c x b th =
     (put_conn c (x\<lparr>conn_out := b\<rparr>) th)\<lparr>ht_reactor := armed (he_ctl env) (conn_fd x) (ht_reactor th)\<rparr>"

lemma answered_simps [simp]:
  "get_conn c (answered env c x b th) = Inr (x\<lparr>conn_out := b\<rparr>)"
  "ht_reactor (answered env c x b th) = armed (he_ctl env) (conn_fd x) (ht_reactor th)"
  by (simp_all add: answered_def)

text \<open>What it means that bytes are appended to a buffer, and that an operation replies with them.\<close>

definition appended :: "string \<Rightarrow> buffer \<Rightarrow> buffer \<Rightarrow> bool" where
  "appended d b b' = (buffer_ok b' \<and> buffer_content b' = buffer_content b @ d \<and> buffer_used b' \<le> buffer_used b + int (length d))"

lemma send_request_appends:
  assumes e: "he_heap env = granting f" and g: "get_conn c th = Inr x" and ok: "buffer_ok (conn_out x)" "buffer_ok (body_buf r)"
    and room: "buffer_used (conn_out x) + int (length (wire r)) \<le> 1073741824"
  shows "\<exists>b. send_request env r c th = Inr (answered env c x b th) \<and> appended (wire r) (conn_out x) b"
proof -
  from send_to_ok [OF ok room, of f] obtain bb b where
    "send_to (granting f) r (conn_out x) = Inr (r\<lparr>body_buf := bb\<rparr>, b)" "buffer_ok b"
    "buffer_content b = buffer_content (conn_out x) @ wire r" "buffer_used b \<le> buffer_used (conn_out x) + int (length (wire r))" by blast
  then show ?thesis using e g by (intro exI [of _ b]) (simp add: send_request_def with_reactor_io answered_def appended_def armed_def)
qed

lemma send_reply_appends:
  assumes e: "he_heap env = granting f" and g: "get_conn c th = Inr x" and ok: "buffer_ok (conn_out x)" and d: "content \<noteq> []"
    and room: "buffer_used (conn_out x) + int (length (response_bytes (he_date env) content)) \<le> 1073741824"
  shows "\<exists>b. send_reply env HTTP_OK ''OK'' content c th = Inr (answered env c x b th)
    \<and> appended (response_bytes (he_date env) content) (conn_out x) b"
proof -
  have used: "0 \<le> buffer_used (conn_out x)" using ok by (auto simp: buffer_ok_def buffer_used_def)
  have len: "int (length content) \<le> 1073741824" using room used by (simp add: response_bytes_def)
  obtain b0 where b0: "request_new (granting f) = Inr (fresh_request b0)" "buffer_ok b0" "buffer_content b0 = []" "buffer_used b0 = 0"
    using request_new_fresh [of f] by blast
  obtain n where n: "buffer_new (granting f) = Inr n" "buffer_ok n" "buffer_content n = []" "buffer_used n = 0"
    by (auto simp: buffer_new_def buffer_ok_def buffer_content_def buffer_used_def fresh_bytes_def DEFAULT_SIZE_def INT_MAX_def)
  obtain n1 where n1: "buffer_push_string (granting f) content n = Inr (0, n1)" "buffer_ok n1" "buffer_content n1 = content"
    using gbufq.push_appends [of n content f] n len by auto
  from set_response_ok [of "fresh_request b0" n1 f "he_date env" HTTP_OK "''OK''"] b0 n1 len obtain bb c' where
    sr: "set_response (granting f) (he_date env) HTTP_OK ''OK'' (Some n1) (fresh_request b0) = Inr ((fresh_request b0)\<lparr>kind := RESPONSE,
       response_code := Some HTTP_OK, response_line := ''OK'', body_buf := bb, firstline := ''HTTP/1.1 '' @ to_string HTTP_OK @ '' '' @ ''OK'' @ [CR, LF],
       headers := response_hdrs (he_date env) (length content)\<rparr>, Some c')" (is "_ = Inr (?r, _)")
    and bb: "buffer_ok bb" "buffer_content bb = content" by auto
  have w: "wire ?r = response_bytes (he_date env) content" using bb by (simp add: wire_def response_bytes_def body_def to_string_200)
  from send_request_appends [OF e g ok, of ?r] bb room w show ?thesis
    using e d b0(1) n(1) n1(1) sr by (simp add: send_reply_def send_reply_buffer_def)
qed

section \<open>Pipelined requests\<close>

text \<open>
  A request as \<open>set_request\<close> and \<open>send_to\<close> write it: method, path, query and body. \<open>decoded\<close> is the
  path after percent decoding.
\<close>

record message =
  m_type :: request_type_t
  m_path :: string
  m_query :: "string option"
  m_body :: string

definition msg_bytes :: "message \<Rightarrow> string" where
  "msg_bytes m = type_name (m_type m) @ '' '' @ target (m_path m) (m_query m) @ '' HTTP/1.1'' @ [CR, LF]
     @ concat (map header_line (request_headers (m_type m) (length (m_body m)))) @ [CR, LF] @ m_body m"

definition decoded :: "message \<Rightarrow> string" where
  "decoded m = (case string_from_utf8 (m_path m) of Inr p \<Rightarrow> p | Inl _ \<Rightarrow> [])"

definition msg_ok :: "message \<Rightarrow> bool" where
  "msg_ok m =
     (clean (target (m_path m) (m_query m)) \<and> CHR '' '' \<notin> set (target (m_path m) (m_query m)) \<and> CHR ''?'' \<notin> set (m_path m)
      \<and> string_from_utf8 (m_path m) = Inr (decoded m) \<and> (m_type m \<noteq> POST \<longrightarrow> m_body m = []))"

text \<open>An application whose handlers answer with \<open>send_reply(HTTP_OK, "OK", ...)\<close>.\<close>

definition answering ::
  "('k, 'q, 'a) http_env \<Rightarrow> ('h \<Rightarrow> string \<Rightarrow> string \<Rightarrow> string \<Rightarrow> string) \<Rightarrow> ('h, 'k, 'q) run_handler_fn" where
  "answering env reply h req c th = send_reply env HTTP_OK ''OK'' (reply h (uri req) (query req) (body req)) c th"

definition answer_to :: "('h \<Rightarrow> string \<Rightarrow> string \<Rightarrow> string \<Rightarrow> string) \<Rightarrow> 'h handlers \<Rightarrow> message \<Rightarrow> string" where
  "answer_to reply srv m = (case route srv (decoded m) of Some h \<Rightarrow> reply h (decoded m) (query_of (m_query m) []) (m_body m) | None \<Rightarrow> [])"

lemma parse_message:
  assumes m: "msg_ok m" and b: "buffer_ok b" "buffer_content b = msg_bytes m @ rest" "length (buffer_content b) \<le> 1073741824"
    and r: "request_new (granting f) = Inr r0"
  shows "\<exists>r b'. parse (granting f) (r0\<lparr>kind := REQUEST\<rparr>) b = Inr (ALLREAD, r, b')
    \<and> parsed_request (m_type m) (decoded m) (query_of (m_query m) []) r \<and> body r = m_body m \<and> buffer_ok b' \<and> buffer_content b' = rest
    \<and> tidy b'"
proof -
  obtain b0 where b0: "r0 = fresh_request b0" "buffer_ok b0" "buffer_content b0 = []" "buffer_used b0 = 0"
    using request_new_fresh [of f] r by auto
  have c: "buffer_content b = type_name (m_type m) @ '' '' @ target (m_path m) (m_query m) @ '' HTTP/1.1'' @ [CR, LF]
      @ concat (map header_line (request_headers (m_type m) (length (m_body m)))) @ [CR, LF] @ m_body m @ rest"
    using b(2) by (simp add: msg_bytes_def)
  from parse_request_message [OF b(1) c b(3) _ _ _ _ b0(2-4), of "decoded m" f] m obtain r b' where
    p: "parse (granting f) (fresh_request b0\<lparr>kind := REQUEST\<rparr>) b = Inr (ALLREAD, r, b')"
      "parsed_request (m_type m) (decoded m) (query_of (m_query m) []) r"
      "if m_type m = POST then body r = m_body m \<and> buffer_content b' = rest else body r = [] \<and> buffer_content b' = m_body m @ rest"
    by (auto simp: msg_ok_def)
  have "request_ok (fresh_request b0\<lparr>kind := REQUEST\<rparr>)" using b0 by (simp add: request_ok_def fresh_request_def)
  from parse_firstline_safe [OF this b(1), of "granting f"] b(3) b0 p(1) have "buffer_ok b'" by (simp add: parse_def)
  moreover have "body r = m_body m \<and> buffer_content b' = rest" using p(3) m by (auto simp: msg_ok_def split: if_splits)
  moreover have "b' \<noteq> b" using calculation(2) b(2) by (auto simp: msg_bytes_def)
  then have "tidy b'" using parse_tidy [OF p(1)] by blast
  ultimately show ?thesis using p(1,2) b0(1) by blast
qed

text \<open>The connection between two requests, and what is kept from one to the next.\<close>

definition between :: "http_connection \<Rightarrow> bool" where
  "between x = (buffer_ok (conn_in x) \<and> buffer_ok (conn_out x) \<and> hc_requests x = [])"

definition follows :: "string \<Rightarrow> http_connection \<Rightarrow> http_connection \<Rightarrow> bool" where
  "follows d x x' = (between x' \<and> appended d (conn_out x) (conn_out x') \<and> conn_fd x' = conn_fd x \<and> hc_status x' = hc_status x)"

lemma follows_trans: "follows d x y \<Longrightarrow> follows e y z \<Longrightarrow> follows (d @ e) x z"
  by (auto simp: follows_def appended_def)

text \<open>
  The application as the server sees it: of the requests it is made for (\<open>serves\<close>), each makes
  \<open>handle_request\<close> append one reply to the output and arm the write interest once.
\<close>

locale http_app =
  fixes env :: "('k, 'q, 'a) http_env" and srv :: "'h handlers" and run :: "('h, 'k, 'q) run_handler_fn"
    and f :: "nat \<Rightarrow> char" and serves :: "message \<Rightarrow> bool" and reply_to :: "message \<Rightarrow> string"
  assumes heap: "he_heap env = granting f"
    and well_formed: "serves m \<Longrightarrow> msg_ok m"
    and speaks: "serves m \<Longrightarrow> reply_to m \<noteq> []"
    and handles: "serves m \<Longrightarrow> parsed_request (m_type m) (decoded m) (query_of (m_query m) []) r \<Longrightarrow> body r = m_body m \<Longrightarrow>
      get_conn c th = Inr x \<Longrightarrow> buffer_ok (conn_out x) \<Longrightarrow> buffer_used (conn_out x) + int (length (reply_to m)) \<le> 1073741824 \<Longrightarrow>
      \<exists>b. handle_request env srv run r c th = Inr (answered env c x b th) \<and> appended (reply_to m) (conn_out x) b"
begin

lemma parse_loop_turn:
  assumes m: "serves m" and g: "get_conn c th = Inr x" and ok: "between x"
    and b: "buffer_content (conn_in x) = msg_bytes m @ rest" "length (buffer_content (conn_in x)) \<le> 1073741824"
    and room: "buffer_used (conn_out x) + int (length (reply_to m)) \<le> 1073741824"
  shows "\<exists>x' th'. (\<forall>n. parse_loop (Suc n) env srv run c th = parse_loop n env srv run c th')
    \<and> get_conn c th' = Inr x' \<and> follows (reply_to m) x x' \<and> buffer_content (conn_in x') = rest \<and> tidy (conn_in x')
    \<and> ht_reactor th' = (armed (he_ctl env) (conn_fd x) ^^ 2) (ht_reactor th)"
proof -
  have ok': "buffer_ok (conn_in x)" "buffer_ok (conn_out x)" "hc_requests x = []" using ok by (simp_all add: between_def)
  obtain b0 where r0: "request_new (granting f) = Inr (fresh_request b0)" using request_new_fresh [of f] by blast
  let ?fr = "fresh_request b0\<lparr>kind := REQUEST\<rparr>"
  from parse_message [OF well_formed [OF m] ok'(1) b r0] obtain r bi where
    p: "parse (granting f) ?fr (conn_in x) = Inr (ALLREAD, r, bi)" "parsed_request (m_type m) (decoded m) (query_of (m_query m) []) r"
      "body r = m_body m" "buffer_ok bi" "buffer_content bi = rest" "tidy bi" by blast
  let ?x1 = "x\<lparr>conn_in := bi, hc_requests := [r]\<rparr>"
  let ?th1 = "put_conn c ?x1 th"
  from handles [OF m p(2,3), of c ?th1 ?x1] ok'(2) room obtain bo where
    s: "handle_request env srv run r c ?th1 = Inr (answered env c ?x1 bo ?th1)" "appended (reply_to m) (conn_out x) bo" by auto
  let ?th2 = "answered env c ?x1 bo ?th1" and ?x2 = "?x1\<lparr>conn_out := bo, hc_requests := []\<rparr>"
  let ?th3 = "put_conn c ?x2 ?th2"
  let ?th4 = "?th3\<lparr>ht_reactor := armed (he_ctl env) (conn_fd x) (ht_reactor ?th2)\<rparr>"
  have pop: "pop_request c ?th2 = Inr ?th3" by (simp add: pop_request_def)
  have ne: "\<not> buffer_empty (conn_in x)" "\<not> buffer_empty bo"
    using b(1) ok'(1) s(2) speaks [OF m] by (auto simp: buffer_empty_content msg_bytes_def appended_def)
  have "parse_loop (Suc n) env srv run c th = parse_loop n env srv run c ?th4" for n
    using g heap ne ok'(3) r0 p(1) s(1) pop by (simp add: front_request_def parsed_def with_reactor_io Let_def armed_def)
  moreover have "get_conn c ?th4 = Inr ?x2" by simp
  moreover have "follows (reply_to m) x ?x2" using s(2) p(4) by (simp add: follows_def between_def appended_def)
  ultimately show ?thesis using p(5,6) by (intro exI [of _ ?x2] exI [of _ ?th4]) (simp add: numeral_2_eq_2)
qed

text \<open>A pipeline of requests, one turn for each.\<close>

lemma parse_loop_pipeline:
  "\<forall>m \<in> set ms. serves m \<Longrightarrow> get_conn c th = Inr x \<Longrightarrow> between x \<Longrightarrow>
    buffer_content (conn_in x) = concat (map msg_bytes ms) \<Longrightarrow> length (buffer_content (conn_in x)) \<le> 1073741824 \<Longrightarrow>
    buffer_used (conn_out x) + int (length (concat (map reply_to ms))) \<le> 1073741824 \<Longrightarrow> length ms < n \<Longrightarrow>
    \<exists>th' x'. parse_loop n env srv run c th = Inr th' \<and> get_conn c th' = Inr x' \<and> follows (concat (map reply_to ms)) x x'
      \<and> buffer_content (conn_in x') = [] \<and> (tidy (conn_in x) \<longrightarrow> tidy (conn_in x')) \<and> ht_reactor th' = (armed (he_ctl env) (conn_fd x) ^^ (2 * length ms)) (ht_reactor th)"
proof (induction ms arbitrary: th x n)
  case Nil
  obtain k where k: "n = Suc k" using Nil.prems(7) by (cases n) simp_all
  have "buffer_empty (conn_in x)" using Nil.prems(3,4) by (simp add: buffer_empty_content between_def)
  then have "parse_loop n env srv run c th = Inr th" using k Nil.prems(2) by simp
  then show ?case using Nil.prems(2,3,4) by (simp add: follows_def between_def appended_def)
next
  case (Cons m ms)
  obtain k where k: "n = Suc k" "length ms < k" using Cons.prems(7) by (cases n) simp_all
  have m: "serves m" using Cons.prems(1) by simp
  have room: "buffer_used (conn_out x) + int (length (reply_to m)) \<le> 1073741824" using Cons.prems(6) by simp
  have c: "buffer_content (conn_in x) = msg_bytes m @ concat (map msg_bytes ms)" using Cons.prems(4) by simp
  from parse_loop_turn [OF m Cons.prems(2,3) c Cons.prems(5) room] obtain x1 th1 where
    t: "\<forall>n. parse_loop (Suc n) env srv run c th = parse_loop n env srv run c th1" "get_conn c th1 = Inr x1"
      "follows (reply_to m) x x1" "buffer_content (conn_in x1) = concat (map msg_bytes ms)" "tidy (conn_in x1)"
      "ht_reactor th1 = (armed (he_ctl env) (conn_fd x) ^^ 2) (ht_reactor th)" by blast
  have t3: "between x1" "conn_fd x1 = conn_fd x" "buffer_used (conn_out x1) \<le> buffer_used (conn_out x) + int (length (reply_to m))"
    using t(3) by (auto simp: follows_def appended_def)
  have "length (buffer_content (conn_in x1)) \<le> 1073741824" using t(4) c Cons.prems(5) by simp
  moreover have "buffer_used (conn_out x1) + int (length (concat (map reply_to ms))) \<le> 1073741824" using t3(3) Cons.prems(6) by simp
  ultimately obtain th' x' where 1: "parse_loop k env srv run c th1 = Inr th'" "get_conn c th' = Inr x'"
    "follows (concat (map reply_to ms)) x1 x'" "buffer_content (conn_in x') = []" "tidy (conn_in x')"
    "ht_reactor th' = (armed (he_ctl env) (conn_fd x) ^^ (2 * length ms)) (ht_reactor th1)"
    using Cons.IH [OF _ t(2) t3(1) t(4) _ _ k(2)] Cons.prems(1) t3(2) t(5) unfolding list.set by auto
  have "2 * length (m # ms) = 2 * length ms + 2" by simp
  then have "ht_reactor th' = (armed (he_ctl env) (conn_fd x) ^^ (2 * length (m # ms))) (ht_reactor th)"
    unfolding 1(6) t(6) by (simp only: funpow_add comp_apply)
  then show ?case using 1(1,2,4,5) t(1) k(1) follows_trans [OF t(3) 1(3)] by (intro exI [of _ th'] exI [of _ x']) simp
qed

text \<open>One call of \<open>parse_request\<close>.\<close>

lemma parse_request_pipeline:
  assumes "\<forall>m \<in> set ms. serves m" and ms: "ms \<noteq> []" and g: "get_conn c th = Inr x" and ok: "between x"
    and b: "buffer_content (conn_in x) = concat (map msg_bytes ms)" "length (buffer_content (conn_in x)) \<le> 1073741824"
    and "buffer_used (conn_out x) + int (length (concat (map reply_to ms))) \<le> 1073741824" and "length ms < n"
  shows "\<exists>th' x'. parse_request n env srv run c th = Inr th' \<and> get_conn c th' = Inr x' \<and> follows (concat (map reply_to ms)) x x'
      \<and> buffer_content (conn_in x') = [] \<and> (tidy (conn_in x) \<longrightarrow> tidy (conn_in x')) \<and> ht_reactor th' = (armed (he_ctl env) (conn_fd x) ^^ (2 * length ms)) (ht_reactor th)"
proof -
  have "msg_bytes m \<noteq> []" for m by (simp add: msg_bytes_def)
  then have "\<not> buffer_empty (conn_in x)" using b(1) ms ok by (cases ms) (auto simp: buffer_empty_content between_def)
  with parse_loop_pipeline [OF assms(1) g ok b assms(7,8)] g show ?thesis by (simp add: parse_request_def)
qed

end

text \<open>The application that answers with \<open>send_reply\<close> is one.\<close>

lemma answering_handles:
  assumes "he_heap env = granting f" and "answer_to reply srv m \<noteq> []" and "route srv (decoded m) \<noteq> None"
    and p: "parsed_request (m_type m) (decoded m) (query_of (m_query m) []) r" "body r = m_body m"
    and "get_conn c th = Inr x" and "buffer_ok (conn_out x)"
    and "buffer_used (conn_out x) + int (length (response_bytes (he_date env) (answer_to reply srv m))) \<le> 1073741824"
  shows "\<exists>b. handle_request env srv (answering env reply) r c th = Inr (answered env c x b th)
    \<and> appended (response_bytes (he_date env) (answer_to reply srv m)) (conn_out x) b"
proof -
  obtain h where h: "route srv (decoded m) = Some h" using assms(3) by auto
  have "reply h (uri r) (query r) (body r) = answer_to reply srv m" "uri r = decoded m" "get_header ''Connection'' r = Inr []"
    using p h by (simp_all add: parsed_request_def answer_to_def)
  then have "handle_request env srv (answering env reply) r c th = send_reply env HTTP_OK ''OK'' (answer_to reply srv m) c th"
    using h by (simp add: handle_request_def answering_def)
  with send_reply_appends [OF assms(1,6,7,2,8)] show ?thesis by simp
qed

interpretation answer_app: http_app "env\<lparr>he_heap := granting f\<rparr>" srv "answering (env\<lparr>he_heap := granting f\<rparr>) reply" f
    "\<lambda>m. msg_ok m \<and> answer_to reply srv m \<noteq> [] \<and> route srv (decoded m) \<noteq> None"
    "\<lambda>m. response_bytes (he_date env) (answer_to reply srv m)"
  for env :: "('k, 'q, 'a) http_env" and srv :: "'h handlers" and f reply
proof (unfold_locales, goal_cases)
  case (4 m r c th x)
  then show ?case using answering_handles [of "env\<lparr>he_heap := granting f\<rparr>" f reply srv m r c th x] by simp
qed (auto simp: response_bytes_def)

section \<open>Chunks\<close>

text \<open>A chunked reply: one \<open>send_chunk\<close> per buffer, then \<open>send_chunk_end\<close>.\<close>

fun send_chunks :: "('k, 'q, 'a) http_env \<Rightarrow> buffer list \<Rightarrow> nat \<Rightarrow> ('k, 'q) http_thread \<Rightarrow> ('k, 'q) http_thread res" where
  "send_chunks env [] c th = send_chunk_end env c th"
| "send_chunks env (b # bs) c th = bind_res (send_chunk env b c th) (\<lambda>(_, th1). send_chunks env bs c th1)"

lemma conn_push_appends:
  assumes "buffer_ok (conn_out x)" and "buffer_used (conn_out x) + int (length s) \<le> 1073741824"
  shows "\<exists>b. conn_push (granting f) s x = Inr (x\<lparr>conn_out := b\<rparr>) \<and> buffer_ok b \<and> buffer_content b = buffer_content (conn_out x) @ s
    \<and> buffer_used b \<le> buffer_used (conn_out x) + int (length s)"
  using gbufq.push_appends [OF assms, of f] by (auto simp: conn_push_def)

lemma send_chunk_appends:
  assumes e: "he_heap env = granting f" and g: "get_conn c th = Inr x" and ok: "buffer_ok (conn_out x)" "buffer_ok buf"
    and room: "buffer_used (conn_out x) + int (length (chunk_enc (buffer_content buf))) \<le> 1073741824"
  shows "\<exists>buf' b th'. send_chunk env buf c th = Inr (Some buf', th') \<and> buffer_content buf' = []
    \<and> get_conn c th' = Inr (x\<lparr>conn_out := b\<rparr>) \<and> buffer_ok b
    \<and> buffer_content b = buffer_content (conn_out x) @ chunk_enc (buffer_content buf)
    \<and> buffer_used b \<le> buffer_used (conn_out x) + int (length (chunk_enc (buffer_content buf)))"
proof -
  let ?d = "buffer_content buf" and ?h = "to_hex (buffer_length buf) @ [CR, LF]"
  have enc: "chunk_enc ?d = ?h @ ?d @ [CR, LF]" using ok(2) by (simp add: chunk_enc_def buffer_length_content)
  have r1: "buffer_used (conn_out x) + int (length ?h) \<le> 1073741824" using room enc by simp
  from conn_push_appends [OF ok(1) r1, of f] obtain b1 where
    b1: "conn_push (granting f) ?h x = Inr (x\<lparr>conn_out := b1\<rparr>)" "buffer_ok b1" "buffer_content b1 = buffer_content (conn_out x) @ ?h"
      "buffer_used b1 \<le> buffer_used (conn_out x) + int (length ?h)" by blast
  have "buffer_fits (moved (-1) (length ?d)) b1" using b1(4) room enc by (simp add: buffer_fits_def moved_def)
  from buffer_push_buffer_returns [OF b1(2) ok(2) this, of "granting f"] obtain bb b2 where
    p: "buffer_push_buffer (granting f) (Some buf) (-1) b1 = Inr (0, bb, b2)" by auto
  from buffer_push_buffer_ok [OF b1(2) ok(2) p] obtain buf' where
    b2: "bb = Some buf'" "buffer_ok b2" "buffer_content b2 = buffer_content b1 @ ?d" "buffer_content buf' = []"
    by (auto simp: moved_def)
  have u2: "buffer_used b2 \<le> buffer_used b1 + int (length ?d)" using buffer_push_buffer_used [OF b1(2) ok(2) p] by (simp add: moved_def)
  have "buffer_used (conn_out (x\<lparr>conn_out := b2\<rparr>)) + int (length [CR, LF]) \<le> 1073741824" using u2 b1(4) room enc by simp
  from conn_push_appends [OF _ this, of f] b2(2) obtain b3 where
    b3: "conn_push (granting f) [CR, LF] (x\<lparr>conn_out := b2\<rparr>) = Inr (x\<lparr>conn_out := b3\<rparr>)" "buffer_ok b3"
      "buffer_content b3 = buffer_content b2 @ [CR, LF]" "buffer_used b3 \<le> buffer_used b2 + 2" by auto
  show ?thesis using e g b1 p b2 b3 enc u2
    by (intro exI [of _ buf'] exI [of _ b3]) (simp add: send_chunk_def conn_push_buffer_def with_reactor_io)
qed

lemma send_chunks_appends:
  assumes e: "he_heap env = granting f"
  shows "get_conn c th = Inr x \<Longrightarrow> buffer_ok (conn_out x) \<Longrightarrow> \<forall>b \<in> set bs. buffer_ok b \<Longrightarrow>
    buffer_used (conn_out x) + int (length (concat (map (\<lambda>b. chunk_enc (buffer_content b)) bs))) + 5 \<le> 1073741824 \<Longrightarrow>
    \<exists>th' x'. send_chunks env bs c th = Inr th' \<and> get_conn c th' = Inr x' \<and> buffer_ok (conn_out x') \<and> buffer_content (conn_out x')
      = buffer_content (conn_out x) @ concat (map (\<lambda>b. chunk_enc (buffer_content b)) bs) @ ''0'' @ [CR, LF] @ [CR, LF]"
proof (induction bs arbitrary: th x)
  case Nil
  have "buffer_used (conn_out x) + int (length (''0'' @ [CR, LF, CR, LF])) \<le> 1073741824" using Nil.prems(4) by simp
  from conn_push_appends [OF Nil.prems(2) this, of f] obtain b where
    b: "conn_push (granting f) (''0'' @ [CR, LF, CR, LF]) x = Inr (x\<lparr>conn_out := b\<rparr>)" "buffer_ok b"
    "buffer_content b = buffer_content (conn_out x) @ ''0'' @ [CR, LF, CR, LF]" by blast
  then show ?case using e Nil.prems(1) by (simp add: send_chunk_end_def with_reactor_io)
next
  case (Cons b bs)
  have room: "buffer_used (conn_out x) + int (length (chunk_enc (buffer_content b))) \<le> 1073741824" using Cons.prems(4) by simp
  have "buffer_ok b" using Cons.prems(3) by simp
  from send_chunk_appends [OF e Cons.prems(1,2) this room] obtain buf' b1 th1 where
    s: "send_chunk env b c th = Inr (Some buf', th1)" "get_conn c th1 = Inr (x\<lparr>conn_out := b1\<rparr>)" "buffer_ok b1"
      "buffer_content b1 = buffer_content (conn_out x) @ chunk_enc (buffer_content b)"
      "buffer_used b1 \<le> buffer_used (conn_out x) + int (length (chunk_enc (buffer_content b)))" by blast
  have "buffer_used (conn_out (x\<lparr>conn_out := b1\<rparr>)) + int (length (concat (map (\<lambda>b. chunk_enc (buffer_content b)) bs))) + 5 \<le> 1073741824"
    using s(5) Cons.prems(4) by simp
  from Cons.IH [OF s(2) _ _ this] s Cons.prems(3) show ?case by auto
qed

text \<open>
  The receiver's side, written down from RFC 7230: a decoder that reads sizes in hexadecimal, checks the line breaks
  and returns the chunks and what follows the body.
\<close>

function dechunk :: "string \<Rightarrow> (string list \<times> string) option" where
  "dechunk s =
     (let h = takeWhile (is_digit 16) s; n = digits_value 16 h; t = drop (length h + 2) s in
      if h = [] \<or> take 2 (drop (length h) s) \<noteq> [CR, LF] then None
      else if n = 0 then if take 2 t = [CR, LF] then Some ([], drop 2 t) else None
      else if length t < n + 2 \<or> take 2 (drop n t) \<noteq> [CR, LF] then None
      else map_option (\<lambda>(ds, rest). (take n t # ds, rest)) (dechunk (drop (n + 2) t)))"
  by pat_completeness auto

termination
  by (relation "measure length") auto

declare dechunk.simps [simp del]

lemma dechunk_enc:
  assumes "d \<noteq> []"
  shows "dechunk (chunk_enc d @ s) = map_option (\<lambda>(ds, rest). (d # ds, rest)) (dechunk s)"
proof -
  let ?h = "to_hex (length d)"
  have "\<not> is_digit 16 CR" by (simp add: is_digit_def digit_val_def CR_def)
  then have h: "takeWhile (is_digit 16) (chunk_enc d @ s) = ?h"
    using takeWhile_nat_str [of 16 "length d"] by (simp add: chunk_enc_def to_hex_def takeWhile_append)
  have "digits_value 16 ?h = length d" "?h \<noteq> []" using digits_value_nat_str [of 16 "length d"] by (simp_all add: to_hex_def)
  then show ?thesis using assms
    by (subst dechunk.simps) (simp add: h Let_def, simp add: chunk_enc_def)
qed

lemma dechunk_end: "dechunk (''0'' @ [CR, LF] @ [CR, LF] @ s) = Some ([], s)"
proof -
  have "\<not> is_digit 16 CR" "is_digit 16 (CHR ''0'')" "digits_value 16 ''0'' = 0"
    by (simp_all add: is_digit_def digits_value_def digit_val_def CR_def)
  then show ?thesis by (subst dechunk.simps) (simp add: Let_def eval_nat_numeral)
qed

lemma dechunk_chunks: "[] \<notin> set ds \<Longrightarrow> dechunk (concat (map chunk_enc ds) @ ''0'' @ [CR, LF] @ [CR, LF] @ s) = Some (ds, s)"
proof (induction ds)
  case (Cons d ds)
  then have "d \<noteq> []" by auto
  with dechunk_enc [OF this] Cons show ?case by simp
qed (use dechunk_end in simp)

text \<open>An empty chunk is the end of the body: the receiver takes what comes after it for something else.\<close>

lemma dechunk_empty_chunk: "dechunk (chunk_enc [] @ s) = Some ([], s)"
proof -
  have "to_hex 0 = ''0''" by code_simp
  then show ?thesis using dechunk_end [of s] by (simp add: chunk_enc_def)
qed

section \<open>Closing and reusing\<close>

lemma set_handlers_return:
  assumes "0 \<le> fd" and "smap_find fd (channels (ht_reactor th)) \<noteq> Some None"
  shows "\<exists>r. with_reactor (set_read_handler (epoll_ops ctl) y fd cb) th = Inr (th\<lparr>ht_reactor := r\<rparr>) \<and> smap_find fd (channels r) \<noteq> Some None"
    "\<exists>r. with_reactor (set_write_handler (epoll_ops ctl) y fd cb) th = Inr (th\<lparr>ht_reactor := r\<rparr>) \<and> smap_find fd (channels r) \<noteq> Some None"
  using assms
  by (cases "smap_find fd (channels (ht_reactor th))";
      auto simp: with_reactor_def set_read_handler_def set_write_handler_def init_channel_def add_read_def add_write_def io_call_def epoll_ops_def
        channel_at_def smap_index_def smap_count_def smap_find_set put_channel_def split: prod.splits)+

lemma setup_returns:
  assumes "get_conn c th = Inr x" and "0 \<le> conn_fd x" and "smap_find (conn_fd x) (channels (ht_reactor th)) \<noteq> Some None"
  shows "\<exists>r. setup_new_events env c th = Inr (th\<lparr>ht_reactor := r\<rparr>)"
proof -
  let ?io = "\<lambda>f r. r\<lparr>re_io := snd (f (re_io r))\<rparr>"
  obtain r1 where r1: "with_reactor (set_read_handler (he_ops env) (he_sys env) (conn_fd x) (ReadCb c)) th = Inr (th\<lparr>ht_reactor := r1\<rparr>)"
    "smap_find (conn_fd x) (channels r1) \<noteq> Some None" using set_handlers_return(1) [OF assms(2,3)] by blast
  let ?r2 = "?io (epoll_remove (he_ctl env) (conn_fd x) RD) r1"
  obtain r3 where r3: "with_reactor (set_write_handler (he_ops env) (he_sys env) (conn_fd x) (WriteCb c)) (th\<lparr>ht_reactor := ?r2\<rparr>) = Inr (th\<lparr>ht_reactor := r3\<rparr>)"
    using set_handlers_return(2) [OF assms(2), of "th\<lparr>ht_reactor := ?r2\<rparr>"] r1(2) by fastforce
  show ?thesis using assms(1) r1(1) r3
    by (intro exI [of _ "r3\<lparr>re_io := snd (epoll_remove (he_ctl env) (conn_fd x) WR (re_io r3))\<rparr>"])
      (simp add: setup_new_events_def Let_def with_reactor_io)
qed

text \<open>
  \<open>close\<close> drops the channel but not the interest in the multiplexer, while the kernel drops the descriptor: \<open>stale\<close> is
  such a descriptor. No call of the multiplexer repairs it.
\<close>

definition stale :: "('k \<Rightarrow> int \<Rightarrow> int option) \<Rightarrow> int \<Rightarrow> 'k epoll \<Rightarrow> bool" where
  "stale interest fd s = ((\<exists>m. smap_find fd (ep_events s) = Some m \<and> 0 < m) \<and> interest (ep_kernel s) fd = None)"

lemma ctl_refuses:
  assumes "ctl_contract ctl interest" and "interest k fd = None" and "op \<noteq> EPOLL_CTL_ADD" and "ctl ep op fd m k = (r, k')"
  shows "r = -1" "interest k' = interest k"
  using assms unfolding ctl_contract_def by (cases op; fastforce)+

lemma stale_kept:
  assumes c: "ctl_contract ctl interest" and s: "stale interest fd s"
  shows "stale interest fd (snd (epoll_add ctl fd t s))" "stale interest fd (snd (epoll_remove ctl fd t s))"
proof -
  obtain m where m: "smap_find fd (ep_events s) = Some m" "0 < m" "interest (ep_kernel s) fd = None" using s by (auto simp: stale_def)
  have r: "x = -1 \<and> interest k' = interest (ep_kernel s)"
    if "ctl ep op fd e (ep_kernel s) = (x, k')" "op = EPOLL_CTL_MOD \<or> op = EPOLL_CTL_DEL" for ep op e x k'
    using ctl_refuses [OF c m(3) _ that(1)] that(2) by auto
  show "stale interest fd (snd (epoll_add ctl fd t s))"
    using s m(1,2) by (auto simp: epoll_add_def smap_index_def Let_def stale_def split: prod.split dest!: r)
  show "stale interest fd (snd (epoll_remove ctl fd t s))"
    using s m(1,2) by (auto simp: epoll_remove_def smap_index_def smap_count_def Let_def stale_def split: prod.split dest!: r)
qed

lemma set_handlers_io:
  "set_read_handler (epoll_ops ctl) y fd cb r = Inr r' \<Longrightarrow> re_io r' = snd (epoll_add ctl fd RD (re_io r))"
  "set_write_handler (epoll_ops ctl) y fd cb r = Inr r' \<Longrightarrow> re_io r' = snd (epoll_add ctl fd WR (re_io r))"
proof -
  have i: "re_io r1 = re_io r" if "init_channel y fd r = Inr r1" for r1 using that by (auto simp: init_channel_def split: if_splits)
  have a: "re_io r2 = snd (epoll_add ctl fd RD (re_io r1))" if "add_read (epoll_ops ctl) fd r1 = Inr r2" for r1 r2 :: "('a epoll, 'b, 'c) reactor"
    using that by (auto simp: add_read_def io_call_def epoll_ops_def split: prod.splits)
  have w: "re_io r2 = snd (epoll_add ctl fd WR (re_io r1))" if "add_write (epoll_ops ctl) fd r1 = Inr r2" for r1 r2 :: "('a epoll, 'b, 'c) reactor"
    using that by (auto simp: add_write_def io_call_def epoll_ops_def split: prod.splits)
  show "set_read_handler (epoll_ops ctl) y fd cb r = Inr r' \<Longrightarrow> re_io r' = snd (epoll_add ctl fd RD (re_io r))"
    by (auto simp: set_read_handler_def bind_res_eq_Inr put_channel_def i dest!: a)
  show "set_write_handler (epoll_ops ctl) y fd cb r = Inr r' \<Longrightarrow> re_io r' = snd (epoll_add ctl fd WR (re_io r))"
    by (auto simp: set_write_handler_def bind_res_eq_Inr put_channel_def i dest!: w)
qed

lemma set_handlers_stale:
  assumes c: "ctl_contract ctl interest" and s: "stale interest fd (re_io (ht_reactor th))"
  shows "with_reactor (set_read_handler (epoll_ops ctl) y fd cb) th = Inr th' \<Longrightarrow> stale interest fd (re_io (ht_reactor th'))"
    "with_reactor (set_write_handler (epoll_ops ctl) y fd cb) th = Inr th' \<Longrightarrow> stale interest fd (re_io (ht_reactor th'))"
  using stale_kept(1) [OF c s] by (auto simp: with_reactor_def bind_res_eq_Inr dest!: set_handlers_io)

lemma setup_stale:
  assumes c: "ctl_contract (he_ctl env) interest" and g: "get_conn c th = Inr x" "0 \<le> conn_fd x" "smap_find (conn_fd x) (channels (ht_reactor th)) \<noteq> Some None"
    and s: "stale interest (conn_fd x) (re_io (ht_reactor th))"
  shows "\<exists>r. setup_new_events env c th = Inr (th\<lparr>ht_reactor := r\<rparr>) \<and> stale interest (conn_fd x) (re_io r)"
proof -
  from setup_returns [OF g, of env] obtain r where r: "setup_new_events env c th = Inr (th\<lparr>ht_reactor := r\<rparr>)" by blast
  then obtain th1 th3 where
    1: "with_reactor (set_read_handler (he_ops env) (he_sys env) (conn_fd x) (ReadCb c)) th = Inr th1"
    and 3: "with_reactor (set_write_handler (he_ops env) (he_sys env) (conn_fd x) (WriteCb c))
        (th1\<lparr>ht_reactor := (ht_reactor th1)\<lparr>re_io := snd (epoll_remove (he_ctl env) (conn_fd x) RD (re_io (ht_reactor th1)))\<rparr>\<rparr>) = Inr th3"
    and e: "th\<lparr>ht_reactor := r\<rparr> = th3\<lparr>ht_reactor := (ht_reactor th3)\<lparr>re_io := snd (epoll_remove (he_ctl env) (conn_fd x) WR (re_io (ht_reactor th3)))\<rparr>\<rparr>"
    using g(1) by (auto simp: setup_new_events_def Let_def bind_res_eq_Inr with_reactor_io)
  have "stale interest (conn_fd x) (snd (epoll_remove (he_ctl env) (conn_fd x) RD (re_io (ht_reactor th1))))"
    by (rule stale_kept(2) [OF c set_handlers_stale(1) [OF c s 1]])
  then have "stale interest (conn_fd x) (re_io (ht_reactor th3))" using set_handlers_stale(2) [OF c _ 3] by simp
  from stale_kept(2) [OF c this, of WR] arg_cong [OF e, of ht_reactor] r show ?thesis by auto
qed

section \<open>Distribution\<close>

text \<open>A number of events on the listening socket, and the clients they bring.\<close>

definition accepted :: "('k, 'q, 'a) http_env \<Rightarrow> int \<Rightarrow> ('k, 'q, 'h) http_server \<Rightarrow> (int \<times> string \<times> int) list" where
  "accepted env fd srv =
     (case tcp_accept (he_sys env) fd [] 0 (re_kernel (srv_reactor srv)) of
        Inr (s, addr, port, q) \<Rightarrow> if s \<le> 0 then [] else [(s, addr, port)] | Inl _ \<Rightarrow> [])"

fun run_accepts ::
  "('k, 'q, 'a) http_env \<Rightarrow> int \<Rightarrow> nat \<Rightarrow> ('k, 'q, 'h) http_server \<Rightarrow> ((int \<times> string \<times> int) list \<times> ('k, 'q, 'h) http_server) res" where
  "run_accepts env fd 0 srv = Inr ([], srv)"
| "run_accepts env fd (Suc n) srv =
     bind_res (on_accept env fd srv) (\<lambda>srv1.
     bind_res (run_accepts env fd n srv1) (\<lambda>(cs, srv2). Inr (accepted env fd srv @ cs, srv2)))"

definition server_ok :: "('k, 'q, 'h) http_server \<Rightarrow> bool" where
  "server_ok srv = (0 < srv_size srv \<and> srv_size srv \<le> INT_MAX \<and> length (srv_threads srv) = nat (srv_size srv)
     \<and> 0 \<le> srv_index srv \<and> srv_index srv < srv_size srv)"

lemma on_accept_deals:
  assumes ok: "server_ok srv" and r: "on_accept env fd srv = Inr srv'"
  shows "server_ok srv' \<and> srv_size srv' = srv_size srv \<and>
    (if accepted env fd srv = [] then srv_threads srv' = srv_threads srv \<and> srv_index srv' = srv_index srv
     else srv_index srv' = (srv_index srv + 1) mod srv_size srv \<and>
       (\<forall>j < length (srv_threads srv). clientQueue (srv_threads srv' ! j) =
          clientQueue (srv_threads srv ! j) @ (if int j = srv_index srv then accepted env fd srv else [])))"
proof -
  from r obtain s addr port q where t: "tcp_accept (he_sys env) fd [] 0 (re_kernel (srv_reactor srv)) = Inr (s, addr, port, q)"
    by (auto simp: on_accept_def bind_res_eq_Inr)
  have i: "srv_index srv + 1 \<le> INT_MAX" "INT_MIN \<le> srv_index srv + 1" "nat (srv_index srv) < length (srv_threads srv)" "0 \<le> srv_index srv" "0 < srv_size srv"
    using ok by (auto simp: server_ok_def INT_MIN_def)
  show ?thesis
  proof (cases "s \<le> 0")
    case True
    with t r ok show ?thesis by (auto simp: on_accept_def accepted_def server_ok_def)
  next
    case False
    then have a: "accepted env fd srv = [(s, addr, port)]" using t by (simp add: accepted_def)
    have "srv' = (put_thread (srv_index srv) (wakeup env ((srv_threads srv ! nat (srv_index srv))\<lparr>clientQueue :=
        clientQueue (srv_threads srv ! nat (srv_index srv)) @ [(s, addr, port)]\<rparr>)) (srv\<lparr>srv_reactor := (srv_reactor srv)\<lparr>re_kernel := q\<rparr>\<rparr>))
        \<lparr>srv_index := (srv_index srv + 1) mod srv_size srv\<rparr>"
      using r t False i by (auto simp: on_accept_def thread_at_def Let_def lq_push_def put_thread_def)
    with a i ok show ?thesis by (auto simp: server_ok_def put_thread_def wakeup_def sys_call_def nth_list_update)
  qed
qed

text \<open>The clients among \<open>cs\<close>, dealt from index \<open>i\<close> on, that thread \<open>j\<close> of \<open>n\<close> gets.\<close>

fun share :: "int \<Rightarrow> int \<Rightarrow> int \<Rightarrow> 'a list \<Rightarrow> 'a list" where
  "share n j i [] = []"
| "share n j i (c # cs) = (if j = i then [c] else []) @ share n j ((i + 1) mod n) cs"

lemma share_nth:
  assumes "0 \<le> i" and "i < n"
  shows "share n j i cs = map (nth cs) (filter (\<lambda>k. (i + int k) mod n = j) [0..<length cs])"
  using assms
proof (induction n j i cs rule: share.induct)
  case (2 n j i c cs)
  have u: "[0..<length (c # cs)] = 0 # map Suc [0..<length cs]" by (simp add: upt_conv_Cons map_Suc_upt del: upt_Suc)
  have m: "((i + 1) mod n + int k) mod n = (i + int (Suc k)) mod n" for k by (simp add: mod_simps add.assoc)
  have "share n j ((i + 1) mod n) cs = map (nth cs) (filter (\<lambda>k. ((i + 1) mod n + int k) mod n = j) [0..<length cs])"
    using 2 by simp
  also have "\<dots> = map (nth (c # cs)) (filter (\<lambda>k. (i + int k) mod n = j) (map Suc [0..<length cs]))"
    unfolding m by (simp add: filter_map o_def)
  finally show ?case unfolding u using 2(2,3) by simp
qed simp

lemma accepted_length: "accepted env fd srv = [] \<or> (\<exists>c. accepted env fd srv = [c])"
  by (auto simp: accepted_def split: sum.splits)

lemma run_accepts_share:
  "server_ok srv \<Longrightarrow> run_accepts env fd m srv = Inr (cs, srv') \<Longrightarrow>
    server_ok srv' \<and> srv_size srv' = srv_size srv \<and> srv_index srv' = (srv_index srv + int (length cs)) mod srv_size srv
    \<and> (\<forall>j < length (srv_threads srv). clientQueue (srv_threads srv' ! j)
         = clientQueue (srv_threads srv ! j) @ share (srv_size srv) (int j) (srv_index srv) cs)"
proof (induction m arbitrary: srv cs)
  case 0
  then show ?case by (auto simp: server_ok_def)
next
  case (Suc m)
  from Suc.prems(2) obtain srv1 cs1 where
    a: "on_accept env fd srv = Inr srv1" "run_accepts env fd m srv1 = Inr (cs1, srv')" "cs = accepted env fd srv @ cs1"
    by (auto simp: bind_res_eq_Inr)
  note d = on_accept_deals [OF Suc.prems(1) a(1)]
  from d have ok1: "server_ok srv1" "srv_size srv1 = srv_size srv" by simp_all
  note ih = Suc.IH [OF ok1(1) a(2)]
  have len: "length (srv_threads srv1) = length (srv_threads srv)" using ok1 Suc.prems(1) by (simp add: server_ok_def)
  show ?case
  proof (cases "accepted env fd srv = []")
    case True
    with d ih a(3) show ?thesis by simp
  next
    case False
    then obtain c where "accepted env fd srv = [c]" using accepted_length by blast
    with d ih a(3) ok1(2) len show ?thesis by (auto simp: mod_simps algebra_simps)
  qed
qed

text \<open>The start of the server.\<close>

lemma make_threads_length:
  "make_threads env eps srv = Inr srv' \<Longrightarrow> length (srv_threads srv') = length (srv_threads srv) + length eps
     \<and> srv_size srv' = srv_size srv \<and> srv_index srv' = srv_index srv \<and> srv_pool srv' = srv_pool srv \<and> srv_reactor srv' = srv_reactor srv
     \<and> requestHandlers srv' = requestHandlers srv \<and> generalHandler srv' = generalHandler srv"
  by (induction env eps srv rule: make_threads.induct) (auto simp: bind_res_eq_Inr)

lemma fold_pool_push: "taskQue (fold pool_push ts p) = taskQue p @ ts"
  by (induction ts arbitrary: p) (simp_all add: pool_push_def lq_push_def)

lemma pool_resize_tasks [simp]: "taskQue (pool_resize n p) = taskQue p"
proof -
  have "taskQue (fold set_thread is p) = taskQue p" for "is" by (induction "is" arbitrary: p) (simp_all add: set_thread_def)
  then show ?thesis by (simp add: pool_resize_def resize_grow_def resize_cut_def resize_mark_def notify_all_def)
qed

lemma set_read_handler_sets:
  assumes "set_read_handler ops y fd cb r = Inr r'"
  shows "0 \<le> fd \<and> (\<exists>ch. smap_find fd (channels r') = Some (Some ch) \<and> readcb ch = Some cb)"
  using assms by (auto simp: set_read_handler_def init_channel_def put_channel_def bind_res_eq_Inr smap_find_set split: if_splits)

section \<open>Properties\<close>

text \<open>C3.
  Pipelined requests are answered one by one, in the order in which they arrived: when the input of
  a connection is a sequence of complete requests, one call of \<open>parse_request\<close> reads all of it, runs
  for each the handler that its decoded path is routed to, with its query and body, and appends the
  answers to the output in the same order, each in the form in which a client reads it back. The
  application answers with \<open>send_reply\<close>, the allocator grants memory, and input and output stay below
  a gigabyte. The loop makes one turn per request.
\<close>
theorem pipelined_requests_answered:
  fixes reply :: "'h \<Rightarrow> string \<Rightarrow> string \<Rightarrow> string \<Rightarrow> string" and srv :: "'h handlers"
  assumes e: "he_heap env = granting f" and g: "get_conn c th = Inr x"
    and ms: "ms \<noteq> []" "\<forall>m \<in> set ms. msg_ok m \<and> answer_to reply srv m \<noteq> [] \<and> route srv (decoded m) \<noteq> None"
    and ok: "buffer_ok (conn_in x)" "buffer_ok (conn_out x)" "hc_requests x = []"
    and b: "buffer_content (conn_in x) = concat (map msg_bytes ms)" "length (buffer_content (conn_in x)) \<le> 1073741824"
    and room: "buffer_used (conn_out x) + int (length (concat (map (\<lambda>m. response_bytes (he_date env) (answer_to reply srv m)) ms))) \<le> 1073741824"
    and n: "length ms < n"
  shows "\<exists>th' x'. parse_request n env srv (answering env reply) c th = Inr th' \<and> get_conn c th' = Inr x'
      \<and> buffer_content (conn_in x') = [] \<and> hc_requests x' = []
      \<and> buffer_content (conn_out x') = buffer_content (conn_out x) @ concat (map (\<lambda>m. response_bytes (he_date env) (answer_to reply srv m)) ms)"
proof -
  have env: "env\<lparr>he_heap := granting f\<rparr> = env" using e by simp
  note pipe = answer_app.parse_request_pipeline [where ms = ms and reply = reply and srv = srv and c = c and th = th and x = x and n = n and env = env and f = f, unfolded env between_def follows_def appended_def]
  from pipe [OF _ ms(1) g _ b] ms(2) ok room n show ?thesis by auto
qed

text \<open>C21.
  A path is routed to the handler registered for exactly this path; failing that, to the first
  registered pattern, in the order of the map, whose segments between slashes are as many and each
  equal to that of the path or an asterisk; failing that, to the general handler, if one is set.
\<close>
theorem route_spec:
  "route srv u =
     (case smap_find u (requestHandlers srv) of
        Some h \<Rightarrow> Some h
      | None \<Rightarrow>
          (case find (\<lambda>(pat, h). list_all2 segment_matches (split pat CHR ''/'') (split u CHR ''/'')) (requestHandlers srv) of
             Some (pat, h) \<Rightarrow> Some h
           | None \<Rightarrow> generalHandler srv))"
  by (simp add: route_def smap_count_def first_match_find path_matches_iff split: option.splits)

text \<open>C40.
  A connection whose peer closes it while nothing is left to send is never closed: the end of the
  input is read, the interest in reading withdrawn and the connection marked as closing, but it is
  closed only by the write handler, which is not armed. The descriptor stays open, the connection
  stays registered, and the multiplexer watches it for nothing.
\<close>
theorem eof_leaks_connection:
  assumes ctl: "epoll_good (he_ctl env) interest (re_io (ht_reactor th))" and g: "get_conn c th = Inr x"
    and fd: "smap_find (conn_fd x) (hashConnections th) = Some c" and w: "\<not> epoll_wr (conn_fd x) (re_io (ht_reactor th))"
    and rd: "conn_read (he_heap env) rd x = Inr (0, x1)" and rm: "epoll_remove (he_ctl env) (conn_fd x) RD (re_io (ht_reactor th)) = (0, s)"
  shows "\<exists>th' x'. on_read n env srv run rd retry c th = Inr th' \<and> get_conn c th' = Inr x' \<and> hc_status x' = CLOSING
    \<and> smap_find (conn_fd x) (hashConnections th') = Some c \<and> re_kernel (ht_reactor th') = re_kernel (ht_reactor th)
    \<and> \<not> epoll_rd (conn_fd x) (re_io (ht_reactor th')) \<and> \<not> epoll_wr (conn_fd x) (re_io (ht_reactor th'))"
proof -
  have f: "conn_fd x1 = conn_fd x" using rd by (auto simp: conn_read_def bind_res_eq_Inr)
  have "epoll_rd (conn_fd x) s = (epoll_rd (conn_fd x) (re_io (ht_reactor th)) \<and> \<not> True)" "\<not> epoll_wr (conn_fd x) s"
    using ep.remove_law [OF ctl, of RD "conn_fd x" 0 s] rm w by simp_all
  then show ?thesis using g rd fd f rm by (simp add: on_read_def with_reactor_io set_status_def Let_def)
qed

text \<open>C22.
  A chunked reply can be decoded: \<open>send_chunk\<close> on each of any number of buffers, none of them empty, and a final
  \<open>send_chunk_end\<close> append to the output a text from which the decoder of the receiver, whatever follows
  in the stream, gets exactly the contents of the buffers, one chunk for each and in order, and stops at what
  follows. Memory is granted and the output stays below a gigabyte. (An empty buffer would end the body:
  \<open>dechunk_empty_chunk\<close>.)
\<close>
theorem chunked_reply_decoded:
  assumes "he_heap env = granting f" and "get_conn c th = Inr x" and "buffer_ok (conn_out x)"
    and bs: "\<forall>b \<in> set bs. buffer_ok b \<and> buffer_content b \<noteq> []"
    and "buffer_used (conn_out x) + int (length (concat (map (\<lambda>b. chunk_enc (buffer_content b)) bs))) + 5 \<le> 1073741824"
  shows "\<exists>th' x' out. send_chunks env bs c th = Inr th' \<and> get_conn c th' = Inr x' \<and> buffer_ok (conn_out x')
    \<and> buffer_content (conn_out x') = buffer_content (conn_out x) @ out
    \<and> (\<forall>rest. dechunk (out @ rest) = Some (map buffer_content bs, rest))"
proof -
  let ?out = "concat (map (\<lambda>b. chunk_enc (buffer_content b)) bs) @ ''0'' @ [CR, LF] @ [CR, LF]"
  have "[] \<notin> set (map buffer_content bs)" using bs by auto
  then have "dechunk (?out @ rest) = Some (map buffer_content bs, rest)" for rest
    using dechunk_chunks [of "map buffer_content bs" rest] by (simp add: o_def)
  moreover have "\<forall>b \<in> set bs. buffer_ok b" using bs by blast
  ultimately show ?thesis using send_chunks_appends [OF assms(1-3) _ assms(5)] by blast
qed

text \<open>C20.
  A connection object that was closed carries nothing of its first client to the next one: after
  \<open>close\<close>, \<open>make_connection\<close> takes the same object from the queue of free ones and sets it up for the new
  descriptor and peer, with empty buffers, no half-read request and status \<open>CONNECTED\<close>; the descriptor
  of the first client is no longer registered.
\<close>
theorem recycled_connection_clean:
  assumes g: "get_conn c th = Inr x" and fd: "0 < conn_fd x" "smap_find (conn_fd x) (hashConnections th) = Some c"
    and ok: "buffer_ok (conn_in x)" "buffer_ok (conn_out x)" "smap_ok (channels (ht_reactor th))" "smap_ok (hashConnections th)"
    and free: "emptyConnections th = []" and nfd: "0 \<le> nfd" "smap_find nfd (channels (ht_reactor th)) \<noteq> Some None"
  shows "\<exists>th1 th2 x'. conn_close env c th = Inr th1 \<and> make_connection env nfd addr port th1 = Inr (c, th2) \<and> get_conn c th2 = Inr x'
    \<and> buffer_content (conn_in x') = [] \<and> buffer_content (conn_out x') = [] \<and> hc_requests x' = [] \<and> hc_status x' = CONNECTED
    \<and> conn_fd x' = nfd \<and> conn_address x' = addr \<and> conn_port x' = Some port
    \<and> smap_find (conn_fd x) (hashConnections th2) = None \<and> emptyConnections th2 = []"
proof -
  let ?y = "x\<lparr>conn_fd := -1, conn_out := buffer_clear (conn_out x), conn_in := buffer_clear (conn_in x), hc_status := CLOSED, hc_requests := []\<rparr>"
  obtain th1 where th1: "conn_close env c th = Inr th1" "get_conn c th1 = Inr ?y" "emptyConnections th1 = [c]"
      "hashConnections th1 = smap_erase (conn_fd x) (hashConnections th)"
      "channels (ht_reactor th1) = smap_erase (conn_fd x) (channels (ht_reactor th))"
    using g fd free by (simp add: conn_close_def Let_def release_connection_def sys_call_def epoll_closed_def reactor_erase_def)
  let ?z = "?y\<lparr>conn_fd := nfd, conn_address := addr, conn_port := Some port, hc_status := CONNECTED\<rparr>"
  let ?th2 = "put_conn c ?z (th1\<lparr>emptyConnections := []\<rparr>)"
  have "smap_find nfd (channels (ht_reactor ?th2)) \<noteq> Some None" using th1(5) nfd(2) ok(3) by (simp add: smap_find_erase)
  with setup_returns [of c ?th2 ?z env] nfd(1) obtain r where "setup_new_events env c ?th2 = Inr (?th2\<lparr>ht_reactor := r\<rparr>)" by auto
  then show ?thesis using th1 ok by (simp add: make_connection_def buffer_clear_ok smap_find_erase)
qed

text \<open>
  A closed descriptor can be deaf for good: when a connection is closed while its descriptor is watched, and the next client
  gets the same number, then after \<open>make_connection\<close> has set its handlers and \<open>add_read\<close> has asked for its input the
  kernel still does not watch the descriptor.
\<close>
theorem reused_descriptor_unwatched:
  assumes c: "ctl_contract (he_ctl env) interest" and f: "\<And>fd k. interest (he_forget env fd k) = (interest k)(fd := None)"
    and g: "get_conn c th = Inr x" and fd: "0 < conn_fd x" "smap_find (conn_fd x) (hashConnections th) = Some c"
    and w: "smap_find (conn_fd x) (ep_events (re_io (ht_reactor th))) = Some m" "0 < m"
    and ok: "smap_ok (channels (ht_reactor th))" and free: "emptyConnections th = []"
  shows "\<exists>th1 th2 th3. conn_close env c th = Inr th1 \<and> make_connection env (conn_fd x) addr port th1 = Inr (c, th2)
    \<and> with_reactor (add_read (he_ops env) (conn_fd x)) th2 = Inr th3 \<and> interest (ep_kernel (re_io (ht_reactor th3))) (conn_fd x) = None"
proof -
  let ?fd = "conn_fd x" and ?y = "x\<lparr>conn_fd := -1, conn_out := buffer_clear (conn_out x), conn_in := buffer_clear (conn_in x), hc_status := CLOSED, hc_requests := []\<rparr>"
  obtain th1 where th1: "conn_close env c th = Inr th1" "get_conn c th1 = Inr ?y" "emptyConnections th1 = [c]"
      "channels (ht_reactor th1) = smap_erase ?fd (channels (ht_reactor th))" "stale interest ?fd (re_io (ht_reactor th1))"
    using g fd free w f
    by (simp add: conn_close_def Let_def release_connection_def sys_call_def epoll_closed_def reactor_erase_def stale_def)
  let ?z = "?y\<lparr>conn_fd := ?fd, conn_address := addr, conn_port := Some port, hc_status := CONNECTED\<rparr>"
  let ?th2 = "put_conn c ?z (th1\<lparr>emptyConnections := []\<rparr>)"
  have "smap_find ?fd (channels (ht_reactor ?th2)) \<noteq> Some None" using th1(4) ok by (simp add: smap_find_erase)
  with setup_stale [OF c, of c ?th2 ?z] fd(1) th1(5) obtain r where
    r: "setup_new_events env c ?th2 = Inr (?th2\<lparr>ht_reactor := r\<rparr>)" "stale interest ?fd (re_io r)" by auto
  have "make_connection env ?fd addr port th1 = Inr (c, ?th2\<lparr>ht_reactor := r\<rparr>)" using th1(2,3) r(1) by (simp add: make_connection_def)
  moreover have "stale interest ?fd (snd (epoll_add (he_ctl env) ?fd RD (re_io r)))" by (rule stale_kept(1) [OF c r(2)])
  ultimately show ?thesis using th1(1) by (auto simp: with_reactor_io stale_def)
qed

text \<open>C19.
  The clients of the listening socket are dealt to the threads in turn: of the clients accepted in any
  number of events, thread \<open>j\<close> gets those whose position, counted from the current index, is \<open>j\<close>
  modulo the number of threads, in the order in which they came and behind those it already has, and
  no other; the index stays inside the vector of threads, and events that bring no client change nothing.
\<close>
theorem clients_dealt_in_turn:
  assumes ok: "server_ok srv" and r: "run_accepts env fd m srv = Inr (cs, srv')"
  shows "server_ok srv' \<and> srv_index srv' = (srv_index srv + int (length cs)) mod srv_size srv
    \<and> (\<forall>j < length (srv_threads srv). clientQueue (srv_threads srv' ! j) = clientQueue (srv_threads srv ! j)
         @ map (nth cs) (filter (\<lambda>k. (srv_index srv + int k) mod srv_size srv = int j) [0..<length cs]))"
proof -
  have "0 \<le> srv_index srv" "srv_index srv < srv_size srv" using ok by (simp_all add: server_ok_def)
  with run_accepts_share [OF ok r] show ?thesis by (simp add: share_nth)
qed

text \<open>C32.
  A new server given a number of threads that is positive is well formed once \<open>start\<close> has set it up:
  it has that many threads, the index is a valid position among them, every thread has a task of its own
  in the pool, and the listening socket is watched for reading with the accepting handler.
\<close>
theorem server_start_wellformed:
  assumes new: "server_new e q = Inr srv0" and n: "0 < n" "n \<le> INT_MAX"
    and st: "server_start env eps address port (server_resize n srv0) = Inr (fd, srv)"
  shows "server_ok srv \<and> length (srv_threads srv) = nat n \<and> taskQue (srv_pool srv) = [0..<nat n] \<and> 0 \<le> fd
    \<and> (\<exists>ch. smap_find fd (channels (srv_reactor srv)) = Some (Some ch) \<and> readcb ch = Some fd)"
proof -
  have srv0: "srv_size srv0 = 2 \<and> srv_index srv0 = 0 \<and> srv_threads srv0 = [] \<and> taskQue (srv_pool srv0) = []"
    using new by (auto simp: server_new_def bind_res_eq_Inr pool_new_def)
  from st obtain srv1 where i: "server_init env eps (server_resize n srv0) = Inr srv1" by (auto simp: server_start_def bind_res_eq_Inr)
  obtain fd1 q1 where s1: "get_nonblock_socket (he_sys env) (re_kernel (srv_reactor srv1)) = (fd1, q1)" by fastforce
  obtain b q2 where s2: "tcp_bind (he_sys env) fd1 address port q1 = (b, q2)" by fastforce
  from st i s1 s2 obtain k r where
    h: "set_read_handler (select_ops (he_heap env)) (he_sys env) fd fd ((srv_reactor srv1)\<lparr>re_kernel := k\<rparr>) = Inr r"
    and s: "srv = srv1\<lparr>srv_reactor := r, srv_pool := fold pool_push [0..<nat (srv_size srv1)] (srv_pool srv1)\<rparr>"
    by (auto simp: server_start_def bind_res_eq_Inr)
  from make_threads_length [OF i [unfolded server_init_def]] srv0
  have "length (srv_threads srv1) = nat n \<and> srv_size srv1 = n \<and> srv_index srv1 = 0 \<and> taskQue (srv_pool srv1) = []"
    by (simp add: server_resize_def)
  with s n set_read_handler_sets [OF h] show ?thesis by (simp add: server_ok_def fold_pool_push)
qed

section \<open>Examples\<close>

definition ex_http :: "((int, int) smap, int list \<times> nat list, nat) http_env" where
  "ex_http = \<lparr>he_heap = granting (\<lambda>_. NUL), he_date = ''now'', he_ctl = list_ctl, he_forget = smap_erase, he_sys = ex_sys\<rparr>"

text \<open>A connection on descriptor 5, with input \<open>s\<close>, and a thread that owns it.\<close>

definition ex_conn :: "string \<Rightarrow> http_connection" where
  "ex_conn s = \<lparr>conn_in = mkbuf [] s [], conn_out = mkbuf [] [] [], conn_fd = 5, conn_address = ''peer'', conn_port = Some 80,
     hc_requests = [], hc_status = CONNECTED\<rparr>"

definition ex_thread :: "string \<Rightarrow> ((int, int) smap, int list \<times> nat list) http_thread" where
  "ex_thread s = \<lparr>ht_reactor = (reactor_new ex_io ([5], []))\<lparr>channels :=
       [(5, Some \<lparr>ch_fd = 5, readcb = Some (ReadCb 1), writecb = Some (WriteCb 1), errorcb = None\<rparr>)]\<rparr>,
     ht_wakeupfd = 4, ht_conns = [(1, ex_conn s)], hashConnections = [(5, 1)], emptyConnections = [], clientQueue = []\<rparr>"

lemma ex_conn_at: "get_conn 1 (ex_thread s) = Inr (ex_conn s)"
  by (simp add: get_conn_def ex_thread_def)

definition ex_get :: message where
  "ex_get = \<lparr>m_type = GET, m_path = ''/a%20b'', m_query = None, m_body = []\<rparr>"

definition ex_post :: message where
  "ex_post = \<lparr>m_type = POST, m_path = ''/sum'', m_query = Some ''x=1'', m_body = ''data''\<rparr>"

definition ex_handlers :: "nat handlers" where
  "ex_handlers = \<lparr>requestHandlers = [(''/sum'', 1)], generalHandler = Some 2\<rparr>"

definition ex_reply :: "nat \<Rightarrow> string \<Rightarrow> string \<Rightarrow> string \<Rightarrow> string" where
  "ex_reply h p q b = (if h = 1 then q @ b else p)"

lemma ex_decoded: "string_from_utf8 ''/a%20b'' = Inr ''/a b''" "string_from_utf8 ''/sum'' = Inr ''/sum''"
  by code_simp+

lemma ex_routes: "route ex_handlers ''/a b'' = Some 2" "route ex_handlers ''/sum'' = Some 1"
  by code_simp+

lemma ex_messages:
  "msg_ok ex_get" "msg_ok ex_post" "decoded ex_get = ''/a b''" "decoded ex_post = ''/sum''"
  "answer_to ex_reply ex_handlers ex_get = ''/a b''" "answer_to ex_reply ex_handlers ex_post = ''x=1data''"
  by (simp_all add: msg_ok_def decoded_def answer_to_def ex_get_def ex_post_def ex_decoded ex_routes ex_reply_def query_of_def target_def
      clean_def is_eol_def CR_def LF_def NUL_def)

lemma ex_lengths: "length (msg_bytes ex_get) \<le> 200" "length (msg_bytes ex_post) \<le> 200"
  "length (response_bytes ''now'' ''/a b'') \<le> 200" "length (response_bytes ''now'' ''x=1data'') \<le> 200"
proof -
  have n: "to_string 4 = ''4''" "to_string 7 = ''7''" by code_simp+
  show "length (msg_bytes ex_get) \<le> 200" "length (msg_bytes ex_post) \<le> 200"
    "length (response_bytes ''now'' ''/a b'') \<le> 200" "length (response_bytes ''now'' ''x=1data'') \<le> 200"
    by (simp_all add: msg_bytes_def ex_get_def ex_post_def response_bytes_def header_lines_def response_hdrs_def request_headers_def
        header_line_def target_def type_name_def n)
qed

theorem pipelined_requests_answered_witness:
  "\<exists>th' x'. parse_request 3 ex_http ex_handlers (answering ex_http ex_reply) 1 (ex_thread (msg_bytes ex_get @ msg_bytes ex_post)) = Inr th'
    \<and> get_conn 1 th' = Inr x' \<and> buffer_content (conn_in x') = [] \<and> hc_requests x' = []
    \<and> buffer_content (conn_out x') = response_bytes ''now'' ''/a b'' @ response_bytes ''now'' ''x=1data''"
proof -
  let ?s = "msg_bytes ex_get @ msg_bytes ex_post"
  have r: "buffer_used (mkbuf [] [] []) = 0" by (simp add: buffer_used_def)
  show ?thesis
    using pipelined_requests_answered [of ex_http "\<lambda>_. NUL" 1 "ex_thread ?s" "ex_conn ?s" "[ex_get, ex_post]" ex_reply ex_handlers 3] ex_lengths
    by (simp add: ex_conn_at ex_messages ex_routes ex_http_def ex_conn_def r INT_MAX_def del: One_nat_def)
qed

theorem eof_leaks_connection_witness:
  "\<exists>th' x'. on_read 1 ex_http ex_handlers (answering ex_http ex_reply) (\<lambda>_ _. Some []) False 1 (ex_thread []) = Inr th' \<and> get_conn 1 th' = Inr x'
    \<and> hc_status x' = CLOSING \<and> smap_find 5 (hashConnections th') = Some 1
    \<and> \<not> epoll_rd 5 (re_io (ht_reactor th')) \<and> \<not> epoll_wr 5 (re_io (ht_reactor th'))"
proof -
  let ?x = "ex_conn []" and ?th = "ex_thread []"
  have "read_contract (\<lambda>_ _. Some [])" by (simp add: read_contract_def)
  from buffer_read_ok [OF _ this, of "conn_in ?x" "he_heap ex_http" 5 "-1"] obtain b where
    "buffer_read (he_heap ex_http) (\<lambda>_ _. Some []) 5 (-1) (conn_in ?x) = Inr (0, b)"
    by (auto simp: ex_conn_def ex_http_def buffer_fits_def buffer_used_def INT_MAX_def)
  then have rd: "conn_read (he_heap ex_http) (\<lambda>_ _. Some []) ?x = Inr (0, ?x\<lparr>conn_in := b\<rparr>)" by (simp add: conn_read_def ex_conn_def)
  obtain s where rm: "epoll_remove (he_ctl ex_http) (conn_fd ?x) RD (re_io (ht_reactor ?th)) = (0, s)"
    by (simp add: ex_conn_def ex_http_def ex_thread_def reactor_new_def ex_io_def epoll_remove_def RDWR_3 RD_def smap_index_def smap_count_def Let_def)
  have f: "conn_fd ?x = 5" "smap_find 5 (hashConnections ?th) = Some 1" by (simp_all add: ex_conn_def ex_thread_def)
  have io: "re_io (ht_reactor ?th) = ex_io" "he_ctl ex_http = list_ctl" by (simp_all add: ex_thread_def reactor_new_def ex_http_def)
  have "epoll_good list_ctl (\<lambda>k fd. smap_find fd k) ex_io" using ex_inv by (simp add: reactor_inv_def epoll_fine_def ex_reactor_def reactor_new_def)
  moreover have "\<not> epoll_wr 5 ex_io" by (simp add: epoll_wr_def ex_io_def has_wr_def WR_def RD_def)
  ultimately show ?thesis
    using eof_leaks_connection [of ex_http "\<lambda>k fd. smap_find fd k" ?th 1 ?x "\<lambda>_ _. Some []" _ s 1 ex_handlers "answering ex_http ex_reply" False]
      rd rm ex_conn_at [of "[]"] f io by auto
qed

theorem chunked_reply_decoded_witness:
  "\<exists>th' x' out. send_chunks ex_http [mkbuf [] ''hello'' [], mkbuf [] ''you'' []] 1 (ex_thread []) = Inr th' \<and> get_conn 1 th' = Inr x'
    \<and> buffer_content (conn_out x') = out \<and> dechunk (out @ ''HTTP'') = Some ([''hello'', ''you''], ''HTTP'')"
proof -
  have h: "chunk_enc ''hello'' = ''5'' @ [CR, LF] @ ''hello'' @ [CR, LF]" "chunk_enc ''you'' = ''3'' @ [CR, LF] @ ''you'' @ [CR, LF]"
    by code_simp+
  have c: "conn_out (ex_conn []) = mkbuf [] [] []" "he_heap ex_http = granting (\<lambda>_. NUL)" by (simp_all add: ex_conn_def ex_http_def)
  show ?thesis
    using chunked_reply_decoded [OF c(2) ex_conn_at [of "[]"], of "[mkbuf [] ''hello'' [], mkbuf [] ''you'' []]"] h
    by (fastforce simp: c buffer_used_def INT_MAX_def simp del: One_nat_def)
qed

theorem recycled_connection_clean_witness:
  "\<exists>th1 th2 x'. conn_close ex_http 1 (ex_thread ''GET'') = Inr th1 \<and> make_connection ex_http 7 ''other'' 81 th1 = Inr (1, th2)
    \<and> get_conn 1 th2 = Inr x' \<and> buffer_content (conn_in x') = [] \<and> conn_fd x' = 7"
proof -
  have f: "conn_fd (ex_conn ''GET'') = 5" "buffer_ok (conn_in (ex_conn ''GET''))" "buffer_ok (conn_out (ex_conn ''GET''))"
    "hashConnections (ex_thread ''GET'') = [(5, 1)]" "emptyConnections (ex_thread ''GET'') = []"
    "smap_ok (channels (ht_reactor (ex_thread ''GET'')))" "smap_find 7 (channels (ht_reactor (ex_thread ''GET''))) \<noteq> Some None"
    by (simp_all add: ex_conn_def ex_thread_def reactor_new_def INT_MAX_def)
  from recycled_connection_clean [OF ex_conn_at, of "''GET''" 7 ex_http "''other''" 81] f show ?thesis by auto
qed

text \<open>A server of two threads, and a kernel in which every \<open>accept\<close> brings a client.\<close>

definition ex_clients :: "((int, int) smap, int list \<times> nat list, nat) http_env" where
  "ex_clients = ex_http\<lparr>he_sys := ex_sys\<lparr>s_getnameinfo := \<lambda>a k. (Some (''peer'', ''80''), k)\<rparr>\<rparr>"

definition ex_server :: "((int, int) smap, int list \<times> nat list, nat) http_server" where
  "ex_server = \<lparr>requestHandlers = [], generalHandler = None, srv_pool = pool_new 0,
     srv_reactor = reactor_new \<lparr>readset_in = None, writeset_in = None, readset_out = None, writeset_out = None,
       sel_size = 0, highest_fd = 0, sel_active = []\<rparr> ([], []),
     srv_threads = [ex_thread [], ex_thread []], srv_size = 2, srv_index = 0\<rparr>"

lemma ex_server_runs: "map_sum id fst (run_accepts ex_clients 3 3 ex_server) = Inr [(1, ''peer'', 80), (2, ''peer'', 80), (4, ''peer'', 80)]"
  by code_simp

theorem clients_dealt_in_turn_witness:
  "\<exists>srv'. run_accepts ex_clients 3 3 ex_server = Inr ([(1, ''peer'', 80), (2, ''peer'', 80), (4, ''peer'', 80)], srv') \<and> srv_index srv' = 1
    \<and> clientQueue (srv_threads srv' ! 0) = [(1, ''peer'', 80), (4, ''peer'', 80)] \<and> clientQueue (srv_threads srv' ! 1) = [(2, ''peer'', 80)]"
proof -
  from ex_server_runs obtain srv' where
    r: "run_accepts ex_clients 3 3 ex_server = Inr ([(1, ''peer'', 80), (2, ''peer'', 80), (4, ''peer'', 80)], srv')"
    by (cases "run_accepts ex_clients 3 3 ex_server") auto
  have s: "srv_size ex_server = 2" "srv_index ex_server = 0" "srv_threads ex_server = [ex_thread [], ex_thread []]"
    by (simp_all add: ex_server_def)
  have "server_ok ex_server" by (simp add: server_ok_def s INT_MAX_def)
  from clients_dealt_in_turn [OF this r] show ?thesis using r s
    by (simp add: ex_thread_def upt_conv_Cons less_Suc_eq numeral_2_eq_2 numeral_3_eq_3 All_less_Suc)
qed

lemma ex_select_add:
  assumes "select_ok sel" shows "\<exists>s. select_add e 1 RD sel = Inr (0, s)"
proof -
  have "\<not> resizes 1" "(1 :: int) \<le> MAX_SELECT_FD" by (simp_all add: resizes_def MAX_SELECT_FD_def)
  moreover have "has_rd RD" "\<not> has_wr RD" by (simp_all add: has_rd_def has_wr_def RD_def WR_def)
  moreover obtain m where "readset_in sel = Some m" "length m = 1536" using assms by (auto simp: select_ok_def has_bits_def split: option.splits)
  ultimately show ?thesis using select_add_eq [OF assms, of 1 e RD] by (simp add: select_put_def FD_PUT_def fd_in_1536)
qed

theorem server_start_wellformed_witness:
  "\<exists>srv0 fd srv. server_new (he_heap ex_http) ([], []) = Inr srv0
    \<and> server_start ex_http (\<lambda>i. (ex_io, [], [])) ''localhost'' 80 (server_resize 2 srv0) = Inr (fd, srv :: ((int, int) smap, int list \<times> nat list, nat) http_server)
    \<and> server_ok srv \<and> length (srv_threads srv) = 2"
proof -
  obtain sel where sel: "select_new (he_heap ex_http) = Inr sel" "select_ok sel" using select_new_ok [of "he_heap ex_http"] by (auto simp: ex_http_def)
  let ?srv0 = "\<lparr>requestHandlers = [], generalHandler = None, srv_pool = pool_new 4, srv_reactor = reactor_new sel ([], []),
            srv_threads = [], srv_size = 2, srv_index = 0\<rparr> :: ((int, int) smap, int list \<times> nat list, nat) http_server"
  have new: "server_new (he_heap ex_http) ([], []) = Inr ?srv0" using sel by (simp add: server_new_def)
  have th: "\<exists>th. http_thread_new ex_http ex_io ([], []) = Inr th"
    by (simp add: http_thread_new_def create_eventfd_def ex_http_def ex_sys_def fresh_fd_def set_read_handler_def init_channel_def reactor_new_def add_read_def
      io_call_def epoll_ops_def channel_at_def smap_index_def smap_count_def split: prod.splits)
  then obtain th where th: "http_thread_new ex_http ex_io ([], []) = Inr th" by blast
  have "[0..<nat 2] = [0, 1]" by (simp add: upt_rec)
  with th have i: "server_init ex_http (\<lambda>i. (ex_io, [], [])) (server_resize 2 ?srv0) = Inr (?srv0\<lparr>srv_pool := pool_resize 2 (pool_new 4), srv_threads := [th, th]\<rparr>)"
    by (simp add: server_init_def server_resize_def)
  obtain s where s: "select_add (granting (\<lambda>_. NUL)) 1 RD sel = Inr (0, s)" using ex_select_add [OF sel(2)] by blast
  have "\<exists>fd srv. server_start ex_http (\<lambda>i. (ex_io, [], [])) ''localhost'' 80 (server_resize 2 ?srv0) = Inr (fd, srv)"
    using i s
    by (simp add: server_start_def ex_http_def get_nonblock_socket_def tcp_listen_def tcp_bind_def tcp_getaddrinfo_def set_both_def set_socket_def ex_sys_def fresh_fd_def
        set_read_handler_def init_channel_def reactor_new_def add_read_def io_call_def select_ops_def channel_at_def smap_index_def smap_count_def)
  with new server_start_wellformed [OF new, of 2] show ?thesis by (force simp: INT_MAX_def)
qed

end
