(* ===== verification/Libio_Http_Loop.thy ===== *)
theory Libio_Http_Loop
  imports Libio_Http_Serving
begin

text \<open>
  The loop of \<open>http_connection::parse_request\<close> ends. A turn that goes on either takes the half-read
  request out of the queue or, with an empty queue, reads a new first line; so the length of the input
  and of the queue together bound the number of turns. None of the operations in a turn runs for ever,
  whatever the allocator does.
\<close>

section \<open>Operations that come back\<close>

abbreviation comes_back :: "'a res \<Rightarrow> bool" where
  "comes_back m \<equiv> outcome (- {NoReturn}) (\<lambda>_. True) m"

named_theorems cback \<open>operations that come back\<close>

lemma back_bind: "comes_back m \<Longrightarrow> (\<And>x. m = Inr x \<Longrightarrow> comes_back (f x)) \<Longrightarrow> comes_back (bind_res m f)"
  by (cases m) auto

lemma back_memory [cback]: "comes_back (cint i)" "comes_back (mem_read m i n)" "comes_back (mem_write m i bs)"
  by (simp_all add: cint_def mem_read_def mem_write_def del: mem_write_length)

lemma back_grow: "0 < len \<Longrightarrow> comes_back (grow len need)"
proof (induction len need rule: grow.induct)
  case (1 len need)
  then show ?case by (subst grow.simps) auto
qed

lemma back_align [cback]: "comes_back (buffer_align b)"
  unfolding buffer_align_def by (intro back_bind cback) simp_all

lemma back_nul [cback]: "comes_back (buffer_nul b)"
  unfolding buffer_nul_def by (intro back_bind cback) (auto intro!: back_bind cback)

lemma back_drain [cback]: "comes_back (buffer_drain n b)"
  unfolding buffer_drain_def by (rule back_nul)

lemma back_expand [cback]: "comes_back (buffer_expand e n b)"
  unfolding buffer_expand_def
  by (intro back_bind cback) (auto intro!: back_bind cback back_grow split: option.splits)

lemma back_push_mem [cback]: "comes_back (buffer_push_mem e d n b)"
  unfolding buffer_push_mem_def by (intro back_bind cback) (auto intro!: back_bind cback)

lemma back_push_string [cback]: "comes_back (buffer_push_string e s b)"
  unfolding buffer_push_string_def by (rule back_push_mem)

lemma back_push_strings: "comes_back (push_strings (buffer_push_string e) ss b)"
  by (induction ss arbitrary: b) (auto intro!: back_bind cback split: prod.splits)

lemma back_push_buffer [cback]: "comes_back (buffer_push_buffer e i n b)"
  unfolding buffer_push_buffer_def by (auto simp: Let_def intro!: back_bind cback split: option.splits)

lemma back_new [cback]: "comes_back (buffer_new e)" "comes_back (request_new e)"
  by (auto simp: request_new_def buffer_new_def)

lemma back_send_to [cback]: "comes_back (send_to e r b)"
  unfolding send_to_def by (intro back_bind back_push_strings) (auto intro!: back_bind cback)

lemma back_get_header [cback]: "comes_back (get_header k r)"
  by (auto simp: get_header_def smap_at_def smap_count_def split: option.splits)

lemma back_set_response [cback]: "comes_back (set_response e date code reason content r)"
  unfolding set_response_def
  by (auto simp: Let_def push_not_found_def push_error_def push_body_def take_body_def
      intro!: back_bind cback back_push_strings split: option.splits)

section \<open>One turn\<close>

text \<open>What a handler may do to its connection: it leaves the input and the queue alone, or it closes.\<close>

definition input_kept :: "nat \<Rightarrow> http_connection \<Rightarrow> ('k, 'q) http_thread \<Rightarrow> bool" where
  "input_kept c x th = (\<exists>x'. get_conn c th = Inr x' \<and> (conn_in x' = conn_in x \<and> hc_requests x' = hc_requests x \<or> hc_requests x' = []))"

definition mild :: "('h, 'k, 'q) run_handler_fn \<Rightarrow> nat \<Rightarrow> bool" where
  "mild run c = (\<forall>h req th x. get_conn c th = Inr x \<longrightarrow> outcome (- {NoReturn}) (input_kept c x) (run h req c th))"

lemma input_kept_same: "get_conn c th = Inr x' \<Longrightarrow> conn_in x' = conn_in x \<Longrightarrow> hc_requests x' = hc_requests x \<Longrightarrow> input_kept c x th"
  by (simp add: input_kept_def)

lemma outcome_bind:
  "comes_back m \<Longrightarrow> (\<And>y. m = Inr y \<Longrightarrow> outcome (- {NoReturn}) P (f y)) \<Longrightarrow> outcome (- {NoReturn}) P (bind_res m f)"
  by (cases m) auto

lemma remove_read_handler_back: "outcome (- {NoReturn}) (\<lambda>th'. \<exists>r. th' = th\<lparr>ht_reactor := r\<rparr>) (with_reactor (remove_read_handler (epoll_ops ctl) fd) th)"
proof -
  have same: "\<exists>r. th = th\<lparr>ht_reactor := r\<rparr>" by (rule exI [of _ "ht_reactor th"]) simp
  show ?thesis
    by (auto simp: with_reactor_def remove_read_handler_def channel_at_def remove_read_def io_call_def epoll_ops_def Let_def same
        split: option.splits prod.splits)
qed

lemma stop_reading_kept:
  assumes "get_conn c th = Inr x"
  shows "outcome (- {NoReturn}) (\<lambda>th'. \<exists>x'. get_conn c th' = Inr x' \<and> conn_in x' = conn_in x \<and> hc_requests x' = hc_requests x) (stop_reading env c th)"
  unfolding stop_reading_def assms bind_res.simps
  by (rule safe_bind [OF remove_read_handler_back]) auto

lemma not_found_kept:
  assumes "get_conn c th = Inr x"
  shows "outcome (- {NoReturn}) (\<lambda>th'. \<exists>x'. get_conn c th' = Inr x' \<and> conn_in x' = conn_in x \<and> hc_requests x' = hc_requests x) (not_found env req c th)"
  unfolding not_found_def
  by (intro outcome_bind cback) (auto simp: assms intro!: outcome_bind cback)

lemma handle_request_kept:
  fixes th :: "('k, 'q) http_thread"
  assumes m: "mild run c" and g: "get_conn c th = Inr x"
  shows "outcome (- {NoReturn}) (input_kept c x) (handle_request env srv run req c th)"
  unfolding handle_request_def
proof (rule outcome_bind [OF back_get_header])
  fix v
  have st: "outcome (- {NoReturn}) (\<lambda>th'. \<exists>x'. get_conn c th' = Inr x' \<and> conn_in x' = conn_in x \<and> hc_requests x' = hc_requests x)
    (if v = ''close'' then stop_reading env c th else Inr th)"
    by (cases "v = ''close''") (simp_all add: stop_reading_kept [OF g] g)
  show "outcome (- {NoReturn}) (input_kept c x) (bind_res (if v = ''close'' then stop_reading env c th else Inr th) (\<lambda>th1.
       case route srv (uri req) of Some h \<Rightarrow> run h req c th1 | None \<Rightarrow> not_found env req c th1))"
  proof (rule safe_bind [OF st], elim exE conjE)
    fix th1 :: "('k, 'q) http_thread" and x1
    assume x1: "get_conn c th1 = Inr x1" "conn_in x1 = conn_in x" "hc_requests x1 = hc_requests x"
    have "(input_kept c x :: ('k, 'q) http_thread \<Rightarrow> bool) = input_kept c x1" using x1 by (simp add: input_kept_def fun_eq_iff)
    moreover have "outcome (- {NoReturn}) (input_kept c x1) (not_found env req c th1)"
      by (rule safe_mono [OF not_found_kept [OF x1(1)]]) (auto simp: input_kept_def)
    ultimately show "outcome (- {NoReturn}) (input_kept c x) (case route srv (uri req) of Some h \<Rightarrow> run h req c th1 | None \<Rightarrow> not_found env req c th1)"
      using m x1(1) by (auto simp: mild_def split: option.splits)
  qed
qed

lemma with_add_back: "comes_back (with_reactor (add_read (epoll_ops ctl) fd) th)" "comes_back (with_reactor (add_write (epoll_ops ctl) fd) th)"
  by (simp_all add: with_reactor_io)

lemma get_conn_back: "comes_back (get_conn c th)"
  by (auto simp: get_conn_def split: option.splits)

lemma send_reply_back: "comes_back (send_reply env code reason content c th)"
  unfolding send_reply_def send_reply_buffer_def send_request_def
  by (auto intro!: back_bind cback with_add_back get_conn_back split: prod.splits)

text \<open>The turn goes on only after a request that was read to its end, which leaves the queue.\<close>

lemma parsed_kept:
  assumes m: "mild run c" and g: "get_conn c th = Inr x" and q: "hc_requests x = req # rs"
  shows "outcome (- {NoReturn}) (\<lambda>(go, th'). go \<longrightarrow> st = ALLREAD \<and> (\<exists>x'. get_conn c th' = Inr x' \<and> conn_in x' = conn_in x \<and> hc_requests x' = rs))
    (parsed env srv run st req c th)"
proof (cases st)
  case ALLREAD
  show ?thesis unfolding parsed_def ALLREAD parse_status_t.case
  proof (rule safe_bind [OF handle_request_kept [OF m g]])
    fix th1
    assume "input_kept c x th1"
    with q show "outcome (- {NoReturn}) (\<lambda>(go, th'). go \<longrightarrow> ALLREAD = ALLREAD \<and> (\<exists>x'. get_conn c th' = Inr x' \<and> conn_in x' = conn_in x \<and> hc_requests x' = rs))
       (bind_res (pop_request c th1) (\<lambda>th2. Inr (True, th2)))"
      by (auto simp: input_kept_def pop_request_def split: list.splits)
  qed
next
  case CORRUPTED
  have "comes_back (stop_reading env c th)" by (rule safe_mono [OF stop_reading_kept [OF g]]) auto
  then show ?thesis unfolding CORRUPTED parsed_def parse_status_t.case
    by (rule outcome_bind) (rule outcome_bind [OF send_reply_back], simp)
next
  case CANCELD
  have "comes_back (stop_reading env c th)" by (rule safe_mono [OF stop_reading_kept [OF g]]) auto
  then show ?thesis unfolding CANCELD parsed_def parse_status_t.case by (rule outcome_bind) simp
next
  case NEEDMORE
  then show ?thesis by (simp add: parsed_def g with_reactor_io)
qed

section \<open>The loop\<close>

text \<open>
  What the loop needs of a connection: buffers and queued requests that satisfy their invariants, and
  room for the input in the body of every request in the queue.
\<close>

definition loop_ready :: "http_connection \<Rightarrow> bool" where
  "loop_ready x =
     (buffer_ok (conn_in x) \<and> length (buffer_content (conn_in x)) \<le> 1073741824 \<and>
      (\<forall>r \<in> set (hc_requests x). request_ok r \<and> buffer_used (body_buf r) + int (length (buffer_content (conn_in x))) \<le> 1073741824))"

definition work_left :: "http_connection \<Rightarrow> nat" where
  "work_left x = length (buffer_content (conn_in x)) + length (hc_requests x)"

lemma parse_back:
  assumes ok: "request_ok r" "buffer_ok b"
    and room: "buffer_used (body_buf r) + int (length (buffer_content b)) \<le> 1073741824"
  shows "outcome (- {NoReturn}) (\<lambda>(st, r', b'). buffer_ok b' \<and> length (buffer_content b') \<le> length (buffer_content b)
      \<and> (status r = READING_FIRSTLINE \<and> st = ALLREAD \<longrightarrow> length (buffer_content b') < length (buffer_content b))) (parse e r b)"
proof (cases "status r = READING_FIRSTLINE")
  case True
  with parse_firstline_safe [OF ok True room, of e] show ?thesis
    by (auto simp: parse_def dest: suffix_length_le split: sum.splits)
next
  case False
  with ok room have pre: "parse_pre r b" by (simp add: parse_pre_def)
  from parsers_safe [OF pre, where e = e] False have "parse_safe r b (parse e r b)"
    by (cases "status r") (simp_all add: parse_def parse_headers_def parse_trailer_def)
  with False show ?thesis by (auto simp: parse_safe_def consumes_def dest: suffix_length_le split: sum.splits)
qed

lemma front_back:
  assumes "loop_ready x"
  shows "outcome (- {NoReturn}) (\<lambda>(req, x1). conn_in x1 = conn_in x \<and> request_ok req
      \<and> buffer_used (body_buf req) + int (length (buffer_content (conn_in x))) \<le> 1073741824
      \<and> (hc_requests x = req # tl (hc_requests x1) \<or> hc_requests x = [] \<and> tl (hc_requests x1) = [] \<and> status req = READING_FIRSTLINE))
    (front_request e x)"
proof (cases "hc_requests x")
  case Nil
  have "outcome (- {NoReturn}) (\<lambda>r. request_ok (r\<lparr>kind := REQUEST\<rparr>) \<and> status r = READING_FIRSTLINE \<and> buffer_used (body_buf r) = 0) (request_new e)"
    by (auto simp: request_new_def buffer_new_def request_ok_def buffer_ok_def buffer_content_def buffer_used_def DEFAULT_SIZE_def INT_MAX_def fresh_bytes_def)
  then show ?thesis using Nil assms unfolding front_request_def
    by (auto simp: loop_ready_def Let_def elim!: safe_bind)
next
  case (Cons r rs)
  with assms show ?thesis by (simp add: front_request_def loop_ready_def)
qed

text \<open>What is left after a turn that goes on.\<close>

lemma work_decreases:
  assumes r: "loop_ready x" and b: "buffer_ok b" "length (buffer_content b) \<le> length (buffer_content (conn_in x))"
    and f: "hc_requests x = req # rs \<or> hc_requests x = [] \<and> rs = [] \<and> length (buffer_content b) < length (buffer_content (conn_in x))"
    and y: "conn_in y = b" "hc_requests y = rs"
  shows "loop_ready y \<and> work_left y < work_left x"
  using assms by (fastforce simp: loop_ready_def work_left_def)

lemma output_kept:
  assumes g: "get_conn c th1 = Inr x2" and P: "\<And>th2. get_conn c th2 = Inr x2 \<Longrightarrow> outcome F P (f th2)"
  shows "outcome F P (bind_res (if buffer_empty (conn_out x2) then Inr th1 else with_reactor (add_write (epoll_ops ctl) fd) th1) f)"
  using g by (auto simp: with_reactor_io intro!: P)

lemma parse_loop_back:
  fixes th :: "('k, 'q) http_thread"
  assumes m: "mild run c"
  shows "get_conn c th = Inr x \<Longrightarrow> loop_ready x \<Longrightarrow> work_left x < n \<Longrightarrow> comes_back (parse_loop n env srv run c th)"
proof (induction n arbitrary: th x)
  case (Suc n)
  show ?case
  proof (cases "buffer_empty (conn_in x)")
    case True
    then show ?thesis using Suc.prems(1) by simp
  next
    case False
    show ?thesis unfolding parse_loop.simps Suc.prems(1) bind_res.simps if_not_P [OF False]
    proof (rule safe_bind [OF front_back [OF Suc.prems(2)]], clarify)
      fix req and x1 :: http_connection
      assume x1: "conn_in x1 = conn_in x" "request_ok req"
        "buffer_used (body_buf req) + int (length (buffer_content (conn_in x))) \<le> 1073741824"
        "hc_requests x = req # tl (hc_requests x1) \<or> hc_requests x = [] \<and> tl (hc_requests x1) = [] \<and> status req = READING_FIRSTLINE"
      have ok: "buffer_ok (conn_in x)" using Suc.prems(2) by (simp add: loop_ready_def)
      show "comes_back (bind_res (parse (he_heap env) req (conn_in x1)) (\<lambda>(st, req1, b).
         bind_res (parsed env srv run st req1 c (put_conn c (x1\<lparr>conn_in := b, hc_requests := req1 # tl (hc_requests x1)\<rparr>) th)) (\<lambda>(processing, th1).
         bind_res (get_conn c th1) (\<lambda>x2.
         bind_res (if buffer_empty (conn_out x2) then Inr th1 else with_reactor (add_write (he_ops env) (conn_fd x2)) th1) (\<lambda>th2.
           if processing then parse_loop n env srv run c th2 else Inr th2)))))"
        unfolding x1(1)
      proof (rule safe_bind [OF parse_back [OF x1(2) ok x1(3)]], clarify)
        fix st r b
        assume b: "buffer_ok b" "length (buffer_content b) \<le> length (buffer_content (conn_in x))"
          "status req = READING_FIRSTLINE \<and> st = ALLREAD \<longrightarrow> length (buffer_content b) < length (buffer_content (conn_in x))"
        let ?x = "x1\<lparr>conn_in := b, hc_requests := r # tl (hc_requests x1)\<rparr>"
        have g: "get_conn c (put_conn c ?x th) = Inr ?x" by simp
        show "comes_back (bind_res (parsed env srv run st r c (put_conn c ?x th)) (\<lambda>(processing, th1).
         bind_res (get_conn c th1) (\<lambda>x2.
         bind_res (if buffer_empty (conn_out x2) then Inr th1 else with_reactor (add_write (he_ops env) (conn_fd x2)) th1) (\<lambda>th2.
           if processing then parse_loop n env srv run c th2 else Inr th2))))"
        proof (rule safe_bind [OF parsed_kept [OF m g, of r "tl (hc_requests x1)"]], simp, clarify)
          fix go and th1 :: "('k, 'q) http_thread"
          assume k: "go \<longrightarrow> st = ALLREAD \<and> (\<exists>x'. get_conn c th1 = Inr x' \<and> conn_in x' = conn_in ?x \<and> hc_requests x' = tl (hc_requests x1))"
          show "comes_back (bind_res (get_conn c th1) (\<lambda>x2.
         bind_res (if buffer_empty (conn_out x2) then Inr th1 else with_reactor (add_write (he_ops env) (conn_fd x2)) th1) (\<lambda>th2.
           if go then parse_loop n env srv run c th2 else Inr th2)))"
          proof (rule outcome_bind [OF get_conn_back], rule output_kept)
            fix x2 and th2 :: "('k, 'q) http_thread"
            assume x2: "get_conn c th1 = Inr x2" and th2: "get_conn c th2 = Inr x2"
            have "loop_ready x2 \<and> work_left x2 < work_left x" if "go"
              by (rule work_decreases [OF Suc.prems(2) b(1,2), of req "tl (hc_requests x1)"]) (use x1(4) b(3) k x2 that in auto)
            then show "comes_back (if go then parse_loop n env srv run c th2 else Inr th2)"
              using Suc.IH [OF th2] Suc.prems(3) by auto
          qed
        qed
      qed
    qed
  qed
qed simp

text \<open>More fuel changes nothing once the loop has come back.\<close>

lemma bind_same: "comes_back (bind_res m f) \<Longrightarrow> (\<And>y. comes_back (f y) \<Longrightarrow> g y = f y) \<Longrightarrow> bind_res m g = bind_res m f"
  by (cases m) auto

lemma parse_loop_more: "comes_back (parse_loop n env srv run c th) \<Longrightarrow> parse_loop (Suc n) env srv run c th = parse_loop n env srv run c th"
proof (induction n arbitrary: th)
  case (Suc n)
  note ih = Suc.IH [unfolded parse_loop.simps(2)]
  from Suc.prems show ?case
    unfolding parse_loop.simps(2) [of "Suc n"] parse_loop.simps(2) [of n]
    by (elim bind_same) (auto simp del: parse_loop.simps simp: ih split: prod.splits elim!: bind_same)
qed simp

lemma parse_loop_settled: "comes_back (parse_loop n env srv run c th) \<Longrightarrow> n \<le> m \<Longrightarrow> parse_loop m env srv run c th = parse_loop n env srv run c th"
proof (induction m)
  case (Suc m)
  then show ?case using parse_loop_more [of m env srv run c th] by (cases "n = Suc m") auto
qed simp

lemma send_reply_kept:
  assumes "get_conn c th = Inr x"
  shows "outcome (- {NoReturn}) (\<lambda>th'. \<exists>x'. get_conn c th' = Inr x' \<and> conn_in x' = conn_in x \<and> hc_requests x' = hc_requests x)
    (send_reply env code reason content c th)"
  using assms unfolding send_reply_def send_reply_buffer_def send_request_def
  by (auto intro!: outcome_bind cback simp: with_reactor_io split: prod.splits)

lemma answering_mild: "mild (answering env reply) c"
  unfolding mild_def answering_def by (auto intro!: safe_mono [OF send_reply_kept] input_kept_same)

section \<open>Properties\<close>

text \<open>C8. The loop of \<open>parse_request\<close> ends, whatever bytes a client sends and whatever the allocator
  does: when the handlers of the application leave the connection's input and its queue alone (or
  close the connection) and come back themselves, there is an answer of \<open>parse_request\<close>, a result or a fault, that every
  fuel larger than the bytes of input and the requests in the queue gives, and it is not running out of fuel.\<close>

theorem parse_request_terminates:
  assumes "mild run c" and "get_conn c th = Inr x" and "loop_ready x"
  shows "\<exists>y. y \<noteq> Inl NoReturn \<and> (\<forall>n > work_left x. parse_request n env srv run c th = y)"
proof -
  let ?n = "Suc (work_left x)"
  have b: "comes_back (parse_loop ?n env srv run c th)" by (rule parse_loop_back [OF assms]) simp
  have "parse_request n env srv run c th = parse_request ?n env srv run c th" if "work_left x < n" for n
    using parse_loop_settled [OF b, of n] that assms(2) by (simp add: parse_request_def del: parse_loop.simps)
  moreover have "parse_request ?n env srv run c th \<noteq> Inl NoReturn"
    using b assms(2) by (auto simp: parse_request_def with_reactor_io simp del: parse_loop.simps)
  ultimately show ?thesis by blast
qed

theorem parse_request_terminates_witness:
  "\<exists>y. y \<noteq> Inl NoReturn \<and> (\<forall>n > work_left (ex_conn (msg_bytes ex_get)).
     parse_request n ex_http ex_handlers (answering ex_http ex_reply) 1 (ex_thread (msg_bytes ex_get)) = y)"
  by (rule parse_request_terminates [OF answering_mild ex_conn_at])
    (use ex_lengths(1) in \<open>simp add: loop_ready_def ex_conn_def INT_MAX_def\<close>)

end
