(* ===== verification/Libio_Webserver.thy ===== *)
theory Libio_Webserver
  imports Libio_Http_Serving
begin

text \<open>
  The file server \<open>src/sample/webserver.cc\<close> with \<open>src/core/file.hh\<close>: an application of the HTTP server
  with a handler for \<open>/\<close> and one for everything else. The file system is a function from paths to contents, with \<open>None\<close> for
  a file that cannot be opened.
\<close>

section \<open>Definitions\<close>

definition read_file :: "(string \<Rightarrow> string option) \<Rightarrow> string \<Rightarrow> string" where
  "read_file fs path = (case fs path of None \<Rightarrow> [] | Some s \<Rightarrow> s)"

definition types :: "(string, string) smap" where
  "types = [(''css'', ''text/css''), (''html'', ''text/html''), (''js'', ''application/javascript''), (''png'', ''png''), (''xml'', ''text/xml'')]"

text \<open>\<open>vec.back()\<close> on the parts of the path between the dots; \<open>vec[1]\<close> is read without a check.\<close>

definition file_type :: "string list \<Rightarrow> string" where
  "file_type vec = (if 1 < length vec \<and> smap_count (last vec) types then fst (smap_index [] (last vec) types) else ''text/html'')"

definition file_headers :: "string list \<Rightarrow> request \<Rightarrow> request res" where
  "file_headers vec r =
     (let ty = file_type vec; r1 = set_header ''Content-Type'' (ty @ ''; charset=utf-8'') r in
      if length vec \<le> 1 then Inl BadAccess
      else Inr (set_header ''Accept-Ranges'' ''bytes'' (if vec ! 1 = ''js'' then set_header ''Content-Type'' ty r1 else r1)))"

definition send_file ::
  "('k, 'q, 'a) http_env \<Rightarrow> (string \<Rightarrow> string option) \<Rightarrow> string \<Rightarrow> nat \<Rightarrow> ('k, 'q) http_thread \<Rightarrow> ('k, 'q) http_thread res" where
  "send_file env fs path c th =
     bind_res (buffer_new (he_heap env)) (\<lambda>buf.
       let content = read_file fs path in
       if content = [] then send_reply_buffer env HTTP_NOTFOUND ''404 not found'' None c th
       else
         bind_res (request_new (he_heap env)) (\<lambda>r.
         bind_res (buffer_push_string (he_heap env) content buf) (\<lambda>(_, buf1).
         bind_res (set_response (he_heap env) (he_date env) HTTP_OK ''OK'' (Some buf1) r) (\<lambda>(r1, _).
         bind_res (file_headers (split path CHR ''.'') r1) (\<lambda>r2.
           send_request env r2 c th)))))"

definition home :: string where
  "home = ''/run/media/wxg/Data/wxggg.github.io/''"

datatype web_handler = ServeIndex | ServeFile

definition web_run ::
  "('k, 'q, 'a) http_env \<Rightarrow> (string \<Rightarrow> string option) \<Rightarrow> (web_handler, 'k, 'q) run_handler_fn" where
  "web_run env fs h req c th =
     (case h of
        ServeIndex \<Rightarrow> send_file env fs (home @ ''/index.html'') c th
      | ServeFile \<Rightarrow> send_file env fs (home @ uri req) c th)"

text \<open>\<open>main\<close> up to the loop of the server.\<close>

definition web_server :: "('k, 'q, web_handler) http_server \<Rightarrow> ('k, 'q, web_handler) http_server" where
  "web_server srv = set_general_handler ServeFile (set_request_handler ''/'' ServeIndex (server_resize 4 srv))"

definition web_start ::
  "('k, 'q, 'a) http_env \<Rightarrow> (nat \<Rightarrow> 'k epoll \<times> 'q) \<Rightarrow> 'q \<Rightarrow> (int \<times> ('k, 'q, web_handler) http_server) res" where
  "web_start env eps q =
     bind_res (server_new (he_heap env) q) (\<lambda>srv. server_start env eps ''127.0.0.1'' 80 (web_server srv))"

section \<open>Paths and types\<close>

text \<open>The home directory has dots of its own, so every path has three parts, and the second is never \<open>js\<close>.\<close>

lemma home_parts: "split (home @ p) CHR ''.'' = [''/run/media/wxg/Data/wxggg'', ''github''] @ split (''io/'' @ p) CHR ''.''"
proof -
  show ?thesis
    using split_delimiter [of "CHR ''.''" "''/run/media/wxg/Data/wxggg''"] split_delimiter [of "CHR ''.''" "''github''"] by (simp add: home_def)
qed

definition file_hdrs :: "string \<Rightarrow> string \<Rightarrow> nat \<Rightarrow> (string, string) smap" where
  "file_hdrs date ty n =
     [(''Accept-Ranges'', ''bytes''), (''Connection'', ''keep-alive''), (''Content-Length'', to_string (int n)),
      (''Content-Type'', ty @ ''; charset=utf-8''), (''Date'', date)]"

text \<open>The bytes that are sent for a file.\<close>

definition file_bytes :: "string \<Rightarrow> string \<Rightarrow> string \<Rightarrow> string" where
  "file_bytes date path content =
     ''HTTP/1.1 200 OK'' @ [CR, LF] @ header_lines (file_hdrs date (file_type (split path CHR ''.'')) (length content)) @ [CR, LF] @ content"

lemma file_headers_home:
  assumes "headers r = response_hdrs date n" and "0 < n"
  shows "file_headers (split (home @ p) CHR ''.'') r = Inr (r\<lparr>headers := file_hdrs date (file_type (split (home @ p) CHR ''.'')) n\<rparr>)"
proof -
  let ?v = "split (home @ p) CHR ''.''"
  have "\<not> length ?v \<le> 1" "?v ! 1 \<noteq> ''js''" by (simp_all add: home_parts)
  then show ?thesis using assms by (simp add: file_headers_def Let_def set_header_def response_hdrs_def file_hdrs_def)
qed

lemma send_file_appends:
  assumes e: "he_heap env = granting f" and g: "get_conn c th = Inr x" and ok: "buffer_ok (conn_out x)"
    and fc: "read_file fs (home @ p) = content" "content \<noteq> []"
    and room: "buffer_used (conn_out x) + int (length (file_bytes (he_date env) (home @ p) content)) \<le> 1073741824"
  shows "\<exists>b. send_file env fs (home @ p) c th = Inr (answered env c x b th)
    \<and> appended (file_bytes (he_date env) (home @ p) content) (conn_out x) b"
proof -
  have used: "0 \<le> buffer_used (conn_out x)" using ok by (auto simp: buffer_ok_def buffer_used_def)
  have len: "int (length content) \<le> 1073741824" using room used by (simp add: file_bytes_def)
  obtain b0 where b0: "request_new (granting f) = Inr (fresh_request b0)" "buffer_ok b0" "buffer_content b0 = []" "buffer_used b0 = 0"
    using request_new_fresh [of f] by blast
  obtain n where n: "buffer_new (granting f) = Inr n" "buffer_ok n" "buffer_content n = []" "buffer_used n = 0"
    by (auto simp: buffer_new_def buffer_ok_def buffer_content_def buffer_used_def fresh_bytes_def DEFAULT_SIZE_def INT_MAX_def)
  obtain n1 where n1: "buffer_push_string (granting f) content n = Inr (0, n1)" "buffer_ok n1" "buffer_content n1 = content"
    using gbufq.push_appends [of n content f] n len by auto
  from set_response_ok [of "fresh_request b0" n1 f "he_date env" HTTP_OK "''OK''"] b0 n1 len obtain bb c' where
    sr: "set_response (granting f) (he_date env) HTTP_OK ''OK'' (Some n1) (fresh_request b0) = Inr ((fresh_request b0)\<lparr>kind := RESPONSE,
       response_code := Some HTTP_OK, response_line := ''OK'', body_buf := bb, firstline := ''HTTP/1.1 '' @ to_string HTTP_OK @ '' '' @ ''OK'' @ [CR, LF],
       headers := response_hdrs (he_date env) (length content)\<rparr>, Some c')" (is "_ = Inr (?r, _)")
    and bb: "buffer_ok bb" "buffer_content bb = content" by auto
  let ?q = "?r\<lparr>headers := file_hdrs (he_date env) (file_type (split (home @ p) CHR ''.'')) (length content)\<rparr>"
  have fh: "file_headers (split (home @ p) CHR ''.'') ?r = Inr ?q"
    by (rule file_headers_home) (use fc(2) in simp_all)
  have w: "wire ?q = file_bytes (he_date env) (home @ p) content" using bb by (simp add: wire_def file_bytes_def body_def to_string_200)
  from send_request_appends [OF e g ok, of ?q] bb room w show ?thesis
    using e b0(1) n(1) n1(1) sr fh fc by (simp add: send_file_def Let_def)
qed

section \<open>Missing files\<close>

text \<open>The page \<open>push_not_found\<close> writes for a response, which has no path of its own, and the bytes of the reply.\<close>

definition not_found_page :: string where
  "not_found_page = ''<html><head><title>404 Not Found</title></head>'' @ [LF] @ ''<body><h1>Not Found</h1>'' @ [LF]
     @ ''<p>The requested URL  was not found on this server.</p>'' @ ''</body></html>'' @ [LF]"

definition not_found_bytes :: "string \<Rightarrow> string" where
  "not_found_bytes date =
     ''HTTP/1.1 404 404 not found'' @ [CR, LF] @ header_lines (response_hdrs date (length not_found_page)) @ [CR, LF] @ not_found_page"

lemma push_not_found_page:
  assumes "buffer_ok b" and "buffer_content b = []" and "buffer_used b = 0" and "body_buf r = b" and "uri r = []"
  shows "\<exists>bb. push_not_found (granting f) r = Inr (r\<lparr>body_buf := bb\<rparr>) \<and> buffer_ok bb \<and> buffer_content bb = not_found_page"
proof -
  let ?ss = "[''<html><head><title>404 Not Found</title></head>'' @ [LF], ''<body><h1>Not Found</h1>'' @ [LF],
     ''<p>The requested URL '' @ '' was not found on this server.</p>'', ''</body></html>'' @ [LF]]"
  have p: "concat ?ss = not_found_page" by (simp add: not_found_page_def)
  have "length not_found_page \<le> 1000" by (simp add: not_found_page_def)
  then have "buffer_used b + int (length (concat ?ss)) \<le> 1073741824" unfolding p using assms(3) by simp
  from gbufq.push_strings_appends [OF assms(1) this, of f] obtain bb where
    "push_strings (buffer_push_string (granting f)) ?ss b = Inr bb" "buffer_ok bb" "buffer_content bb = buffer_content b @ concat ?ss" by blast
  moreover have "htmlescape [] = []" by code_simp
  ultimately show ?thesis using assms(2,4,5) unfolding p
    by (intro exI [of _ bb]) (simp add: push_not_found_def push_body_def Let_def del: push_strings.simps)
qed

lemma send_missing_appends:
  assumes e: "he_heap env = granting f" and g: "get_conn c th = Inr x" and ok: "buffer_ok (conn_out x)" and fc: "read_file fs path = []"
    and room: "buffer_used (conn_out x) + int (length (not_found_bytes (he_date env))) \<le> 1073741824"
  shows "\<exists>b. send_file env fs path c th = Inr (answered env c x b th) \<and> appended (not_found_bytes (he_date env)) (conn_out x) b"
proof -
  obtain b0 where b0: "request_new (granting f) = Inr (fresh_request b0)" "buffer_ok b0" "buffer_content b0 = []" "buffer_used b0 = 0"
    using request_new_fresh [of f] by blast
  obtain n where n: "buffer_new (granting f) = Inr n" by (auto simp: buffer_new_def)
  let ?q = "(fresh_request b0)\<lparr>kind := RESPONSE, response_code := Some HTTP_NOTFOUND, response_line := ''404 not found''\<rparr>"
  have "body_buf ?q = b0" "uri ?q = []" by (simp_all add: fresh_request_def)
  from push_not_found_page [OF b0(2-4) this, of f] obtain bb where
    bb: "push_not_found (granting f) ?q = Inr (?q\<lparr>body_buf := bb\<rparr>)" "buffer_ok bb" "buffer_content bb = not_found_page" by blast
  let ?r = "?q\<lparr>body_buf := bb, firstline := ''HTTP/1.1 404 404 not found'' @ [CR, LF],
    headers := response_hdrs (he_date env) (length not_found_page)\<rparr>"
  have n404: "to_string 404 = ''404''" "to_string 1 = ''1''" by code_simp+
  have sr: "set_response (granting f) (he_date env) HTTP_NOTFOUND ''404 not found'' None (fresh_request b0) = Inr (?r, None)"
    using bb n404 by (simp add: set_response_def Let_def response_headers_eq buffer_length_content)
  have w: "wire ?r = not_found_bytes (he_date env)" using bb by (simp add: wire_def not_found_bytes_def body_def)
  from send_request_appends [OF e g ok, of ?r] bb room w show ?thesis
    using e b0(1) n sr fc by (simp add: send_file_def send_reply_buffer_def)
qed

section \<open>Routes\<close>

definition web_handlers :: "web_handler handlers" where
  "web_handlers = \<lparr>requestHandlers = [(''/'', ServeIndex)], generalHandler = Some ServeFile\<rparr>"

lemma web_server_handlers: "server_new e q = Inr srv \<Longrightarrow> handlers.truncate (web_server srv) = web_handlers"
  by (auto simp: server_new_def bind_res_eq_Inr web_server_def web_handlers_def server_resize_def set_request_handler_def
      set_general_handler_def handlers.truncate_def)

lemma split_root: "split s CHR ''/'' = [[]] \<Longrightarrow> s = ''/''"
  by (cases s; cases "s = []") (auto simp: split.simps split: if_splits)

lemma web_route: "route web_handlers p = Some (if p = ''/'' then ServeIndex else ServeFile)"
proof -
  have "\<not> path_matches ''/'' p" if "p \<noteq> ''/''"
  proof
    assume "path_matches ''/'' p"
    moreover have "split ''/'' CHR ''/'' = [[]]" using split_delimiter [of "CHR ''/''" "[]" "[]"] by simp
    ultimately have "length (split p CHR ''/'') = 1" "same_segments [[]] (split p CHR ''/'')" by (simp_all add: path_matches_def Let_def)
    then have "split p CHR ''/'' = [[]]" by (cases "split p CHR ''/''") (auto split: if_splits)
    with split_root [of p] that show False by simp
  qed
  then show ?thesis by (simp add: route_def web_handlers_def smap_count_def)
qed

section \<open>The server as an application\<close>

text \<open>The path \<open>ServeIndex\<close> and \<open>ServeFile\<close> open for a request, and the bytes of the reply.\<close>

definition web_path :: "message \<Rightarrow> string" where
  "web_path m = home @ (if decoded m = ''/'' then ''/index.html'' else decoded m)"

definition web_reply :: "string \<Rightarrow> (string \<Rightarrow> string option) \<Rightarrow> message \<Rightarrow> string" where
  "web_reply date fs m =
     (let content = read_file fs (web_path m) in
      if content = [] then not_found_bytes date else file_bytes date (web_path m) content)"

lemma web_handles:
  assumes e: "he_heap env = granting f" and p: "parsed_request (m_type m) (decoded m) (query_of (m_query m) []) r"
    and g: "get_conn c th = Inr x" and ok: "buffer_ok (conn_out x)"
    and room: "buffer_used (conn_out x) + int (length (web_reply (he_date env) fs m)) \<le> 1073741824"
  shows "\<exists>b. handle_request env web_handlers (web_run env fs) r c th = Inr (answered env c x b th)
    \<and> appended (web_reply (he_date env) fs m) (conn_out x) b"
proof -
  have u: "uri r = decoded m" "get_header ''Connection'' r = Inr []" using p by (simp_all add: parsed_request_def)
  have "web_run env fs (if uri r = ''/'' then ServeIndex else ServeFile) r c th = send_file env fs (web_path m) c th"
    by (simp add: web_run_def web_path_def u(1))
  then have h: "handle_request env web_handlers (web_run env fs) r c th = send_file env fs (web_path m) c th"
    using u by (simp add: handle_request_def web_route)
  show ?thesis
  proof (cases "read_file fs (web_path m) = []")
    case True
    with room have "web_reply (he_date env) fs m = not_found_bytes (he_date env)" by (simp add: web_reply_def)
    with send_missing_appends [OF e g ok True] room h show ?thesis by simp
  next
    case False
    with room have "web_reply (he_date env) fs m = file_bytes (he_date env) (web_path m) (read_file fs (web_path m))"
      by (simp add: web_reply_def Let_def)
    with send_file_appends [OF e g ok, of fs _ "read_file fs (web_path m)"] False room h show ?thesis by (simp add: web_path_def)
  qed
qed

interpretation web_app: http_app "env\<lparr>he_heap := granting f\<rparr>" web_handlers "web_run (env\<lparr>he_heap := granting f\<rparr>) fs" f
    msg_ok "web_reply (he_date env) fs"
  for env :: "('k, 'q, 'a) http_env" and f and fs :: "string \<Rightarrow> string option"
proof (unfold_locales, goal_cases)
  case (4 m r c th x)
  then show ?case using web_handles [of "env\<lparr>he_heap := granting f\<rparr>" f m r c th x fs] by simp
qed (auto simp: web_reply_def not_found_bytes_def file_bytes_def Let_def)

section \<open>Properties\<close>

text \<open>C33. The file server answers a request with the file: for a target that names a file with content, the
  handler of the request appends to the output exactly a response with status 200, the type of the file's extension, its length and its
  bytes; for \<open>/\<close> it is the index page. (The path is the home directory followed by the decoded target, \<open>..\<close> included.)\<close>

theorem web_file_served:
  assumes e: "he_heap env = granting f" and g: "get_conn c th = Inr x" and ok: "buffer_ok (conn_out x)"
    and rq: "get_header ''Connection'' req \<noteq> Inr ''close''" "path = home @ (if uri req = ''/'' then ''/index.html'' else uri req)"
    and fc: "fs path = Some content" "content \<noteq> []"
    and room: "buffer_used (conn_out x) + int (length (file_bytes (he_date env) path content)) \<le> 1073741824"
  shows "\<exists>b th'. handle_request env web_handlers (web_run env fs) req c th = Inr th' \<and> get_conn c th' = Inr (x\<lparr>conn_out := b\<rparr>)
    \<and> buffer_content b = buffer_content (conn_out x) @ file_bytes (he_date env) path content"
proof -
  obtain p where p: "path = home @ p" "p = (if uri req = ''/'' then ''/index.html'' else uri req)" using rq(2) by blast
  have run: "web_run env fs (if uri req = ''/'' then ServeIndex else ServeFile) req c th = send_file env fs (home @ p) c th"
    by (simp add: web_run_def p(2))
  have "handle_request env web_handlers (web_run env fs) req c th = send_file env fs (home @ p) c th"
    using rq(1) run by (simp add: handle_request_def get_header_value web_route)
  moreover have "read_file fs (home @ p) = content" using fc(1) p(1) by (simp add: read_file_def)
  ultimately show ?thesis using send_file_appends [OF e g ok, of fs p content] fc(2) room p(1) by (auto simp: appended_def)
qed

section \<open>Example\<close>

definition ex_files :: "string \<Rightarrow> string option" where
  "ex_files path = (if path = home @ ''/site.css'' then Some ''body {}'' else None)"

definition ex_request :: request where
  "ex_request = empty_request\<lparr>uri := ''/site.css''\<rparr>"

lemma ex_file_bytes: "file_bytes ''now'' (home @ ''/site.css'') ''body {}'' =
  ''HTTP/1.1 200 OK'' @ [CR, LF] @ header_lines (file_hdrs ''now'' ''text/css'' 7) @ [CR, LF] @ ''body {}''"
proof -
  have "''io//site.css'' = ''io//site'' @ CHR ''.'' # ''css''" by simp
  then have "split ''io//site.css'' CHR ''.'' = [''io//site'', ''css'']"
    using split_delimiter [of "CHR ''.''" "''io//site''" "''css''"] split_no_delimiter [of "CHR ''.''" "''css''"] by simp
  then show ?thesis by (simp add: file_bytes_def home_parts file_type_def types_def smap_count_def smap_index_def eval_nat_numeral)
qed

theorem web_file_served_witness:
  "\<exists>b th'. handle_request ex_http web_handlers (web_run ex_http ex_files) ex_request 1 (ex_thread []) = Inr th'
    \<and> get_conn 1 th' = Inr ((ex_conn [])\<lparr>conn_out := b\<rparr>)
    \<and> buffer_content b = ''HTTP/1.1 200 OK'' @ [CR, LF] @ header_lines (file_hdrs ''now'' ''text/css'' 7) @ [CR, LF] @ ''body {}''"
proof -
  have n: "to_string 7 = ''7''" by code_simp
  have "length (file_bytes ''now'' (home @ ''/site.css'') ''body {}'') \<le> 200"
    unfolding ex_file_bytes by (simp add: header_lines_def header_line_def file_hdrs_def n)
  then show ?thesis
    using web_file_served [of ex_http "\<lambda>_. NUL" 1 "ex_thread []" "ex_conn []" ex_request "home @ ''/site.css''" ex_files "''body {}''"]
    by (simp add: ex_conn_at ex_file_bytes ex_http_def ex_conn_def ex_request_def ex_files_def empty_request_def get_header_value header_value_def
        buffer_used_def INT_MAX_def del: One_nat_def)
qed

end
