(* ===== verification/Libio_Http_Session.thy ===== *)
theory Libio_Http_Session
  imports Libio_Webserver
begin

text \<open>
  A whole session of one connection of \<open>src/http/http_server.cc\<close>: the sequence of readiness events a
  client causes, each handled by \<open>on_read\<close> or \<open>on_write\<close>. The invariant \<open>session_ok\<close> relates what the
  client got so far and the output buffer to the replies due, and the output buffer to the write interest of the reactor.
\<close>

section \<open>Events\<close>

text \<open>
  What a client that keeps the connection open makes happen: it sends requests (they arrive whole, in one \<open>read\<close>), a
  \<open>read\<close> finds nothing (\<open>EAGAIN\<close>), the socket takes up to \<open>Suc k\<close> bytes of the output, or it takes none (\<open>EAGAIN\<close>). There are no
  events for a request that is cut by a \<open>read\<close> (the parser takes the end of the piece for the end of the headers,
  \<open>parse_partial_header_completes\<close>), the end of the input (\<open>eof_leaks_connection\<close>) and errors of the socket.
\<close>

datatype client_event = Sends "message list" | NothingYet | Accepts nat | Busy

definition client_step ::
  "nat \<Rightarrow> ('k, 'q, 'a) http_env \<Rightarrow> 'h handlers \<Rightarrow> ('h, 'k, 'q) run_handler_fn \<Rightarrow> nat \<Rightarrow> client_event \<Rightarrow>
   string \<times> ('k, 'q) http_thread \<Rightarrow> (string \<times> ('k, 'q) http_thread) res" where
  "client_step n env srv run c e s =
     (case e of
        Sends ms \<Rightarrow> bind_res (on_read n env srv run (\<lambda>_ _. Some (concat (map msg_bytes ms))) False c (snd s)) (\<lambda>th. Inr (fst s, th))
      | NothingYet \<Rightarrow> bind_res (on_read n env srv run (\<lambda>_ _. None) True c (snd s)) (\<lambda>th. Inr (fst s, th))
      | Accepts k \<Rightarrow>
          bind_res (get_conn c (snd s)) (\<lambda>x.
          bind_res (on_write env (\<lambda>_ bs. int (min (Suc k) (length bs))) False c (snd s)) (\<lambda>th.
            Inr (fst s @ take (Suc k) (buffer_content (conn_out x)), th)))
      | Busy \<Rightarrow> bind_res (on_write env (\<lambda>_ _. -1) True c (snd s)) (\<lambda>th. Inr (fst s, th)))"

fun client_steps ::
  "nat \<Rightarrow> ('k, 'q, 'a) http_env \<Rightarrow> 'h handlers \<Rightarrow> ('h, 'k, 'q) run_handler_fn \<Rightarrow> nat \<Rightarrow> client_event list \<Rightarrow>
   string \<times> ('k, 'q) http_thread \<Rightarrow> (string \<times> ('k, 'q) http_thread) res" where
  "client_steps n env srv run c [] s = Inr s"
| "client_steps n env srv run c (e # es) s = bind_res (client_step n env srv run c e s) (client_steps n env srv run c es)"

lemma client_steps_append:
  "client_steps n env srv run c (es @ fs) s = bind_res (client_steps n env srv run c es s) (client_steps n env srv run c fs)"
  by (induction es arbitrary: s) (auto simp: bind_res_assoc intro: bind_res_cong)

text \<open>
  The requests of an event, and the events that are meant: requests in the form in which \<open>set_request\<close> and \<open>send_to\<close> of the
  library write them (\<open>msg_ok\<close>; so there is no \<open>Connection: close\<close>), in at most the 4096 bytes \<open>read\<close> asks for; \<open>n\<close> bounds the
  parser's turns.
\<close>

fun asked :: "client_event \<Rightarrow> message list" where
  "asked (Sends ms) = ms"
| "asked e = []"

fun healthy :: "nat \<Rightarrow> client_event \<Rightarrow> bool" where
  "healthy n (Sends ms) = (ms \<noteq> [] \<and> list_all msg_ok ms \<and> length (concat (map msg_bytes ms)) \<le> 4096 \<and> length ms < n)"
| "healthy n e = True"

abbreviation requests :: "client_event list \<Rightarrow> message list" where
  "requests es \<equiv> concat (map asked es)"

section \<open>The interests of the connection\<close>

lemma epoll_add_interested:
  assumes g: "epoll_fine ctl interest s" and fd: "0 \<le> fd" and rd: "epoll_rd fd s" and r: "epoll_add ctl fd WR s = (x, s')"
  shows "x \<noteq> -1"
proof -
  obtain m where m: "smap_find fd (ep_events s) = Some m" "has_rd m" using rd by (auto simp: epoll_rd_def split: option.splits)
  have ok: "epoll_ok interest s" using g by (simp add: epoll_fine_def epoll_good_def)
  have p: "0 < m" using epoll_index(4) [OF ok, of fd m "ep_events s"] m rd by (simp add: smap_index_def)
  have "interest (ep_kernel s) fd \<noteq> None" using ok m(1) p by (simp add: epoll_ok_def)
  then have "fst (ctl (epfd s) EPOLL_CTL_MOD fd e (ep_kernel s)) = 0" for e using g by (simp add: epoll_fine_def ctl_total_def)
  then have "ctl (epfd s) EPOLL_CTL_MOD fd e (ep_kernel s) \<noteq> (-1, k)" for e k by (metis fst_conv neg_equal_0_iff_equal zero_neq_one)
  then show ?thesis using r fd m(1) p
    by (auto simp: epoll_add_def smap_index_def Let_def WR_def split: if_splits prod.splits)
qed

text \<open>\<open>watched\<close>: the descriptor is registered for reading in a multiplexer that mirrors its kernel.\<close>

definition watched :: "'k epoll_ctl \<Rightarrow> ('k \<Rightarrow> int \<Rightarrow> int option) \<Rightarrow> int \<Rightarrow> ('k epoll, hcb, 'q) reactor \<Rightarrow> bool" where
  "watched ctl interest fd r = (0 \<le> fd \<and> epoll_fine ctl interest (re_io r) \<and> epoll_rd fd (re_io r))"

lemma armed_watched:
  assumes "watched ctl interest fd r"
  shows "watched ctl interest fd (armed ctl fd r) \<and> epoll_wr fd (re_io (armed ctl fd r))"
proof -
  obtain x s where a: "epoll_add ctl fd WR (re_io r) = (x, s)" by fastforce
  have g: "0 \<le> fd" "epoll_fine ctl interest (re_io r)" "epoll_rd fd (re_io r)" using assms by (simp_all add: watched_def)
  have "x \<noteq> -1" by (rule epoll_add_interested [OF g(2,1,3) a])
  moreover have "epoll_good ctl interest (re_io r)" "ctl_total ctl interest" using g(2) by (simp_all add: epoll_fine_def)
  moreover have "epoll_good ctl interest s \<and> epoll_rd fd s \<and> epoll_wr fd s"
    using ep.add_law [of ctl interest "re_io r" WR fd x s] calculation a g(3) by (simp add: has_wr_def WR_def)
  ultimately show ?thesis using a g(1) by (simp add: watched_def armed_def epoll_fine_def)
qed

lemma armed_often:
  "watched ctl interest fd r \<Longrightarrow> watched ctl interest fd ((armed ctl fd ^^ Suc j) r) \<and> epoll_wr fd (re_io ((armed ctl fd ^^ Suc j) r))"
proof (induction j)
  case 0
  then show ?case by (simp add: armed_watched)
next
  case (Suc j)
  from armed_watched [OF conjunct1 [OF Suc.IH [OF Suc.prems]]] show ?case by simp
qed

lemma unarmed_watched:
  assumes "watched ctl interest fd r"
  shows "watched ctl interest fd (r\<lparr>re_io := snd (epoll_remove ctl fd WR (re_io r))\<rparr>)
    \<and> \<not> epoll_wr fd (snd (epoll_remove ctl fd WR (re_io r)))"
proof -
  obtain x s where a: "epoll_remove ctl fd WR (re_io r) = (x, s)" by fastforce
  have g: "0 \<le> fd" "epoll_fine ctl interest (re_io r)" "epoll_rd fd (re_io r)" using assms by (simp_all add: watched_def)
  have "\<not> epoll_wr fd (re_io r)" if "x = -1"
    using epoll_remove_refuses [OF g(2,1), of WR s] a that by (simp add: has_wr_def WR_def RD_def)
  moreover have "epoll_good ctl interest s \<and> epoll_rd fd s \<and> (epoll_wr fd s = (epoll_wr fd (re_io r) \<and> x = -1))"
    using ep.remove_law [of ctl interest "re_io r" WR fd x s] a g(2,3) by (auto simp: has_wr_def has_rd_def WR_def RD_def epoll_fine_def)
  ultimately show ?thesis using a g by (auto simp: watched_def epoll_fine_def)
qed

section \<open>The buffers of the connection\<close>

lemma expand_tidy: "buffer_expand e n b = Inr (r, b') \<Longrightarrow> off b' = off b \<and> (misalign b' = misalign b \<or> misalign b' = 0)"
  by (auto simp: buffer_expand_def buffer_align_def bind_res_eq_Inr split: if_splits option.splits)

text \<open>A \<open>read\<close> that brings nothing moves the empty buffer at most to its start; one that brings bytes leaves it non-empty.\<close>

lemma read_tidy:
  assumes r: "buffer_read e rd fd n b = Inr (r, b')" and t: "tidy b" and ok: "buffer_ok b"
  shows "tidy b'"
proof -
  let ?n = "if n < 0 \<or> MAX_READ < n then MAX_READ else n"
  from r obtain q b1 where e: "buffer_expand e ?n b = Inr (q, b1)" by (auto simp: buffer_read_def Let_def bind_res_eq_Inr)
  have k: "off b1 = off b" "misalign b1 = misalign b \<or> misalign b1 = 0" "0 \<le> off b"
    using expand_tidy [OF e] ok by (auto simp: buffer_ok_def)
  then have t1: "tidy b1" using t by (auto simp: tidy_def)
  have "0 < off b + int (length bs)" if "bs \<noteq> []" for bs :: string using k(3) that by (cases bs) simp_all
  then have "b' = b1 \<or> 0 < off b'"
    using r k(1,3) unfolding buffer_read_def Let_def e bind_res.simps prod.case
    by (auto simp: bind_res_eq_Inr cint_def dest!: buffer_nul_frame split: if_splits option.splits)
  then show ?thesis using t1 by (auto simp: tidy_def)
qed

lemma write_used: "buffer_write wr fd b = Inr (r, b') \<Longrightarrow> buffer_ok b \<Longrightarrow> buffer_used b' \<le> buffer_used b"
  by (auto simp: buffer_write_def Let_def bind_res_eq_Inr split: if_splits dest: drain_used)

section \<open>The invariant of a session\<close>

text \<open>
  \<open>due\<close> are the bytes of all replies so far. What the client got and what the output holds are these bytes, the
  connection is open and read from, every request was taken from the input, and output that is left is being written.
\<close>

definition session_ok ::
  "'k epoll_ctl \<Rightarrow> ('k \<Rightarrow> int \<Rightarrow> int option) \<Rightarrow> nat \<Rightarrow> string \<Rightarrow> string \<times> ('k, 'q) http_thread \<Rightarrow> http_connection \<Rightarrow> bool" where
  "session_ok ctl interest c due s x =
     (get_conn c (snd s) = Inr x \<and> between x \<and> hc_status x = CONNECTED
      \<and> buffer_content (conn_in x) = [] \<and> tidy (conn_in x)
      \<and> due = fst s @ buffer_content (conn_out x) \<and> buffer_used (conn_out x) \<le> int (length due)
      \<and> watched ctl interest (conn_fd x) (ht_reactor (snd s))
      \<and> (buffer_content (conn_out x) \<noteq> [] \<longrightarrow> epoll_wr (conn_fd x) (re_io (ht_reactor (snd s)))))"

text \<open>\<open>read\<close> and \<open>write\<close> on a connection of a session.\<close>

lemma session_read:
  assumes s: "session_ok ctl interest c due s x" and rd: "read_contract rd"
  shows "\<exists>n b. conn_read (granting f) rd x = Inr (n, x\<lparr>conn_in := b\<rparr>) \<and> buffer_ok b \<and> tidy b
    \<and> n = (case rd (conn_fd x) 4096 of None \<Rightarrow> -1 | Some bs \<Rightarrow> int (length bs))
    \<and> (0 < n \<longrightarrow> rd (conn_fd x) 4096 = Some (buffer_content b)) \<and> (n \<le> 0 \<longrightarrow> buffer_content b = [])"
proof -
  have ok: "buffer_ok (conn_in x)" "tidy (conn_in x)" "buffer_content (conn_in x) = []"
    using s unfolding session_ok_def between_def by blast+
  then have "buffer_fits 4096 (conn_in x)" by (simp add: tidy_used buffer_fits_def)
  moreover have "read_count (-1) = 4096" by (simp add: read_count_def MAX_READ_def)
  ultimately obtain n b where r: "buffer_read (granting f) rd (conn_fd x) (-1) (conn_in x) = Inr (n, b)" "buffer_ok b"
    and n: "(\<forall>k. can_alloc (granting f) k) \<longrightarrow> n = (case rd (conn_fd x) 4096 of None \<Rightarrow> -1 | Some bs \<Rightarrow> int (length bs))"
    and d: "if 0 < n then \<exists>bs. rd (conn_fd x) 4096 = Some bs \<and> n = int (length bs) \<and> buffer_content b = buffer_content (conn_in x) @ bs
      else buffer_content b = buffer_content (conn_in x)"
    using buffer_read_ok [OF ok(1) rd, of "granting f" "conn_fd x" "-1"] by metis
  have "n = (case rd (conn_fd x) 4096 of None \<Rightarrow> -1 | Some bs \<Rightarrow> int (length bs))" using n by simp
  with read_tidy [OF r(1) ok(2,1)] r d ok(3) show ?thesis
    by (intro exI [of _ n] exI [of _ b]) (simp add: conn_read_def split: if_splits)
qed

lemma session_write:
  assumes s: "session_ok ctl interest c due s x" and wr: "write_contract wr"
  shows "\<exists>b. conn_write wr x = Inr (wr (conn_fd x) (buffer_content (conn_out x)), x\<lparr>conn_out := b\<rparr>) \<and> buffer_ok b
    \<and> buffer_content b = drop (nat (wr (conn_fd x) (buffer_content (conn_out x)))) (buffer_content (conn_out x))
    \<and> buffer_used b \<le> int (length due)"
proof -
  have ok: "buffer_ok (conn_out x)" "buffer_used (conn_out x) \<le> int (length due)"
    using s unfolding session_ok_def between_def by blast+
  from buffer_write_ok [OF ok(1) wr, of "conn_fd x"] obtain b where
    w: "buffer_write wr (conn_fd x) (conn_out x) = Inr (wr (conn_fd x) (buffer_content (conn_out x)), b)" "buffer_ok b"
      "buffer_content b = drop (nat (wr (conn_fd x) (buffer_content (conn_out x)))) (buffer_content (conn_out x))" by blast
  with write_used [OF w(1) ok(1)] ok(2) show ?thesis by (intro exI [of _ b]) (simp add: conn_write_def)
qed

section \<open>The events keep it\<close>

text \<open>\<open>on_write\<close> does not depend on the application.\<close>

lemma session_accepts:
  assumes s: "session_ok (he_ctl env) interest c due s x"
  shows "\<exists>s' x'. client_step n env srv run c (Accepts k) s = Inr s' \<and> session_ok (he_ctl env) interest c due s' x'
    \<and> buffer_content (conn_out x') = drop (Suc k) (buffer_content (conn_out x)) \<and> conn_fd x' = conn_fd x
    \<and> (buffer_content (conn_out x) = [] \<longrightarrow> \<not> epoll_wr (conn_fd x) (re_io (ht_reactor (snd s'))))"
proof -
  let ?o = "buffer_content (conn_out x)" and ?wr = "\<lambda>(_ :: int) bs. int (min (Suc k) (length bs))"
  have g: "get_conn c (snd s) = Inr x" "between x" "hc_status x = CONNECTED" "due = fst s @ ?o" "watched (he_ctl env) interest (conn_fd x) (ht_reactor (snd s))"
    using s unfolding session_ok_def by blast+
  have e: "buffer_empty (conn_out x) = (?o = [])" using g(2) by (simp add: between_def buffer_empty_content)
  show ?thesis
  proof (cases "?o = []")
    case True
    let ?th = "(snd s)\<lparr>ht_reactor := (ht_reactor (snd s))\<lparr>re_io := snd (epoll_remove (he_ctl env) (conn_fd x) WR (re_io (ht_reactor (snd s))))\<rparr>\<rparr>"
    have "client_step n env srv run c (Accepts k) s = Inr (fst s, ?th)"
      using g(1,3) True e by (simp add: client_step_def on_write_def with_reactor_io)
    moreover have "session_ok (he_ctl env) interest c due (fst s, ?th) x"
      using s unarmed_watched [OF g(5)] True unfolding session_ok_def by auto
    ultimately show ?thesis using unarmed_watched [OF g(5)] True by auto
  next
    case False
    have "write_contract ?wr" by (simp add: write_contract_def)
    from session_write [OF s this] obtain b where w: "conn_write ?wr x = Inr (int (min (Suc k) (length ?o)), x\<lparr>conn_out := b\<rparr>)" "buffer_ok b"
      "buffer_content b = drop (min (Suc k) (length ?o)) ?o" "buffer_used b \<le> int (length due)" by auto
    have d: "drop (min (Suc k) (length ?o)) ?o = drop (Suc k) ?o" by (simp add: min_def)
    have "0 < min (Suc k) (length ?o)" using False by simp
    then obtain m where "min (Suc k) (length ?o) = Suc m" by (metis gr0_conv_Suc)
    then have "client_step n env srv run c (Accepts k) s = Inr (fst s @ take (Suc k) ?o, put_conn c (x\<lparr>conn_out := b\<rparr>) (snd s))"
      using g(1) False e w(1) by (simp add: client_step_def on_write_def Let_def)
    moreover have "session_ok (he_ctl env) interest c due (fst s @ take (Suc k) ?o, put_conn c (x\<lparr>conn_out := b\<rparr>) (snd s)) (x\<lparr>conn_out := b\<rparr>)"
      using s False w(2-4) d unfolding session_ok_def by (auto simp: between_def)
    ultimately show ?thesis using w(3) d False
      by (intro exI [of _ "(fst s @ take (Suc k) ?o, put_conn c (x\<lparr>conn_out := b\<rparr>) (snd s))"] exI [of _ "x\<lparr>conn_out := b\<rparr>"]) simp
  qed
qed

lemma session_busy:
  assumes s: "session_ok (he_ctl env) interest c due s x"
  shows "\<exists>s' x'. client_step n env srv run c Busy s = Inr s' \<and> session_ok (he_ctl env) interest c due s' x' \<and> conn_fd x' = conn_fd x"
proof -
  have g: "get_conn c (snd s) = Inr x" "between x" "hc_status x = CONNECTED" "watched (he_ctl env) interest (conn_fd x) (ht_reactor (snd s))"
    using s unfolding session_ok_def by blast+
  have "write_contract (\<lambda>_ _. -1)" by (simp add: write_contract_def)
  from session_write [OF s this] obtain b where w: "conn_write (\<lambda>_ _. -1) x = Inr (-1, x\<lparr>conn_out := b\<rparr>)" "buffer_ok b"
      "buffer_content b = buffer_content (conn_out x)" "buffer_used b \<le> int (length due)" by auto
  show ?thesis
  proof (cases "buffer_content (conn_out x) = []")
    case True
    then have e: "client_step n env srv run c Busy s = client_step n env srv run c (Accepts 0) s"
      using g by (simp add: client_step_def on_write_def between_def buffer_empty_content with_reactor_io)
    with session_accepts [OF s, of n srv run 0] show ?thesis by auto
  next
    case False
    then have "client_step n env srv run c Busy s = Inr (fst s, put_conn c (x\<lparr>conn_out := b\<rparr>) (snd s))"
      using g w(1) by (simp add: client_step_def on_write_def between_def buffer_empty_content Let_def)
    moreover have "session_ok (he_ctl env) interest c due (fst s, put_conn c (x\<lparr>conn_out := b\<rparr>) (snd s)) (x\<lparr>conn_out := b\<rparr>)"
      using s w unfolding session_ok_def by (simp add: between_def)
    ultimately show ?thesis by (intro exI [of _ "(fst s, put_conn c (x\<lparr>conn_out := b\<rparr>) (snd s))"] exI [of _ "x\<lparr>conn_out := b\<rparr>"]) simp
  qed
qed

text \<open>Enough room in the socket: every byte reaches the client, and then the write interest is given up.\<close>

lemma session_flushes:
  "session_ok (he_ctl env) interest c due s x \<Longrightarrow> length (buffer_content (conn_out x)) < length ks \<Longrightarrow>
    \<exists>th x'. client_steps n env srv run c (map Accepts ks) s = Inr (due, th) \<and> session_ok (he_ctl env) interest c due (due, th) x'
      \<and> conn_fd x' = conn_fd x \<and> \<not> epoll_wr (conn_fd x) (re_io (ht_reactor th))"
proof (induction ks arbitrary: s x)
  case (Cons k ks)
  from session_accepts [OF Cons.prems(1), of n srv run k] obtain s1 x1 where
    1: "client_step n env srv run c (Accepts k) s = Inr s1" "session_ok (he_ctl env) interest c due s1 x1"
      "buffer_content (conn_out x1) = drop (Suc k) (buffer_content (conn_out x))" "conn_fd x1 = conn_fd x"
      "buffer_content (conn_out x) = [] \<longrightarrow> \<not> epoll_wr (conn_fd x) (re_io (ht_reactor (snd s1)))" by blast
  show ?case
  proof (cases ks)
    case Nil
    then have "buffer_content (conn_out x) = []" using Cons.prems(2) by simp
    then show ?thesis using 1 Nil by (cases s1) (auto simp: session_ok_def)
  next
    case (Cons k' ks')
    then have "length (buffer_content (conn_out x1)) < length ks" using 1(3) Cons.prems(2) by simp
    from Cons.IH [OF 1(2) this] 1(1,4) show ?thesis by simp
  qed
qed simp

lemma session_idle:
  assumes s: "session_ok (he_ctl env) interest c due s x" and e: "he_heap env = granting f"
  shows "\<exists>s' x'. client_step n env srv run c NothingYet s = Inr s' \<and> session_ok (he_ctl env) interest c due s' x' \<and> conn_fd x' = conn_fd x"
proof -
  have "read_contract (\<lambda>_ _. None)" by (simp add: read_contract_def)
  from session_read [OF s this, of f] obtain b where
    b: "conn_read (granting f) (\<lambda>_ _. None) x = Inr (-1, x\<lparr>conn_in := b\<rparr>)" "buffer_ok b" "tidy b" "buffer_content b = []" by auto
  have g: "get_conn c (snd s) = Inr x" using s unfolding session_ok_def by blast
  have "client_step n env srv run c NothingYet s = Inr (fst s, put_conn c (x\<lparr>conn_in := b\<rparr>) (snd s))"
    using g e b(1) by (simp add: client_step_def on_read_def Let_def)
  moreover have "session_ok (he_ctl env) interest c due (fst s, put_conn c (x\<lparr>conn_in := b\<rparr>) (snd s)) (x\<lparr>conn_in := b\<rparr>)"
    using s b unfolding session_ok_def by (auto simp: between_def)
  ultimately show ?thesis by (intro exI [of _ "(fst s, put_conn c (x\<lparr>conn_in := b\<rparr>) (snd s))"] exI [of _ "x\<lparr>conn_in := b\<rparr>"]) simp
qed

text \<open>Requests arrive: the application's part, for every application.\<close>

context http_app
begin

lemma session_asked:
  assumes s: "session_ok (he_ctl env) interest c due s x" and ms: "ms \<noteq> []" "\<forall>m \<in> set ms. serves m"
    and size: "length (concat (map msg_bytes ms)) \<le> 4096" "length ms < n"
    and room: "int (length due) + int (length (concat (map reply_to ms))) \<le> 1073741824"
  shows "\<exists>s' x'. client_step n env srv run c (Sends ms) s = Inr s'
    \<and> session_ok (he_ctl env) interest c (due @ concat (map reply_to ms)) s' x' \<and> conn_fd x' = conn_fd x"
proof -
  let ?in = "concat (map msg_bytes ms)" and ?rd = "\<lambda>(_ :: int) (_ :: int). Some (concat (map msg_bytes ms))"
  let ?rd' = "\<lambda>(_ :: int) k. Some (take (nat k) ?in)"
  have g: "get_conn c (snd s) = Inr x" "between x" "hc_status x = CONNECTED" "due = fst s @ buffer_content (conn_out x)"
    "buffer_used (conn_out x) \<le> int (length due)" "watched (he_ctl env) interest (conn_fd x) (ht_reactor (snd s))"
    using s unfolding session_ok_def by blast+
  have ne: "?in \<noteq> []" using ms(1) by (cases ms) (simp_all add: msg_bytes_def)
  have "read_contract ?rd'" by (simp add: read_contract_def)
  from session_read [OF s this, of f] obtain k b where
    r: "conn_read (granting f) ?rd' x = Inr (k, x\<lparr>conn_in := b\<rparr>)" "buffer_ok b" "tidy b"
      "k = (case ?rd' (conn_fd x) 4096 of None \<Rightarrow> -1 | Some bs \<Rightarrow> int (length bs))" "0 < k \<longrightarrow> ?rd' (conn_fd x) 4096 = Some (buffer_content b)"
    by blast
  have t: "take (nat 4096) ?in = ?in" using size(1) by simp
  have "k = int (length ?in)" using r(4) unfolding t by simp
  moreover have pos: "0 < int (length ?in)" using ne by (simp only: of_nat_0_less_iff length_greater_0_conv not_False_eq_True)
  ultimately have b: "conn_read (granting f) ?rd' x = Inr (int (length ?in), x\<lparr>conn_in := b\<rparr>)" "buffer_ok b" "tidy b" "buffer_content b = ?in"
    using r(1-3,5) unfolding t by (simp_all only: option.inject simp_thms)
  have "(if (-1 :: int) < 0 \<or> MAX_READ < -1 then MAX_READ else -1) = 4096" by (simp add: MAX_READ_def)
  then have rd: "conn_read (granting f) ?rd x = conn_read (granting f) ?rd' x"
    by (simp only: conn_read_def buffer_read_def Let_def t)
  let ?x1 = "x\<lparr>conn_in := b\<rparr>"
  let ?th1 = "put_conn c ?x1 (snd s)"
  have pr: "get_conn c ?th1 = Inr ?x1" "between ?x1" "buffer_content (conn_in ?x1) = ?in" "length (buffer_content (conn_in ?x1)) \<le> 1073741824"
    "buffer_used (conn_out ?x1) + int (length (concat (map reply_to ms))) \<le> 1073741824"
    using g(2,5) b size(1) room by (simp_all add: between_def)
  from parse_request_pipeline [OF ms(2,1) pr size(2)] obtain th' x' where
    p: "parse_request n env srv run c ?th1 = Inr th'" "get_conn c th' = Inr x'" "follows (concat (map reply_to ms)) ?x1 x'"
      "buffer_content (conn_in x') = []" "tidy (conn_in x')"
      "ht_reactor th' = (armed (he_ctl env) (conn_fd x) ^^ (2 * length ms)) (ht_reactor (snd s))" using b(3) by auto
  obtain j where "2 * length ms = Suc j" using ms(1) by (cases ms) auto
  with armed_often [OF g(6), of j] p(6) have
    w: "watched (he_ctl env) interest (conn_fd x) (ht_reactor th')" "epoll_wr (conn_fd x) (re_io (ht_reactor th'))" by simp_all
  obtain k where "conn_read (granting f) ?rd x = Inr (k, ?x1)" "0 < k" using b(1) rd pos by metis
  then have "client_step n env srv run c (Sends ms) s = Inr (fst s, th')"
    using g(1) heap p(1) by (simp add: client_step_def on_read_def Let_def)
  moreover have "session_ok (he_ctl env) interest c (due @ concat (map reply_to ms)) (fst s, th') x'"
    using p(2-5) w g(3-5) by (auto simp: session_ok_def follows_def appended_def)
  ultimately show ?thesis using p(3) by (auto simp: follows_def)
qed

lemma session_event:
  assumes s: "session_ok (he_ctl env) interest c due s x" and e: "healthy n e" "\<forall>m \<in> set (asked e). serves m"
    and room: "int (length (due @ concat (map reply_to (asked e)))) \<le> 1073741824"
  shows "\<exists>s' x'. client_step n env srv run c e s = Inr s'
    \<and> session_ok (he_ctl env) interest c (due @ concat (map reply_to (asked e))) s' x' \<and> conn_fd x' = conn_fd x"
proof (cases e)
  case (Sends ms)
  with session_asked [OF s, of ms n] e room show ?thesis by simp
next
  case NothingYet
  with session_idle [OF s heap] show ?thesis by simp
next
  case (Accepts k)
  with session_accepts [OF s, of n srv run k] show ?thesis by auto
next
  case Busy
  with session_busy [OF s] show ?thesis by simp
qed

lemma session_events:
  "session_ok (he_ctl env) interest c due s x \<Longrightarrow> list_all (healthy n) es \<Longrightarrow> \<forall>m \<in> set (requests es). serves m \<Longrightarrow>
    int (length (due @ concat (map reply_to (requests es)))) \<le> 1073741824 \<Longrightarrow>
    \<exists>s' x'. client_steps n env srv run c es s = Inr s'
      \<and> session_ok (he_ctl env) interest c (due @ concat (map reply_to (requests es))) s' x' \<and> conn_fd x' = conn_fd x"
proof (induction es arbitrary: due s x)
  case (Cons e es)
  from session_event [OF Cons.prems(1), of n e] Cons.prems(2-4) obtain s1 x1 where
    1: "client_step n env srv run c e s = Inr s1" "session_ok (he_ctl env) interest c (due @ concat (map reply_to (asked e))) s1 x1"
      "conn_fd x1 = conn_fd x" by auto
  from Cons.IH [OF 1(2)] Cons.prems(2-4) 1(1,3) show ?case by simp
qed auto

end

section \<open>Properties\<close>

text \<open>A connection as \<open>make_connection\<close> and \<open>setup_new_events\<close> leave it: open, its buffers empty, its descriptor registered for reading.\<close>

definition opened ::
  "'k epoll_ctl \<Rightarrow> ('k \<Rightarrow> int \<Rightarrow> int option) \<Rightarrow> nat \<Rightarrow> ('k, 'q) http_thread \<Rightarrow> http_connection \<Rightarrow> bool" where
  "opened ctl interest c th x =
     (get_conn c th = Inr x \<and> between x \<and> hc_status x = CONNECTED \<and> buffer_used (conn_in x) = 0 \<and> buffer_used (conn_out x) = 0
      \<and> watched ctl interest (conn_fd x) (ht_reactor th))"

lemma opened_session: "opened ctl interest c th x \<Longrightarrow> session_ok ctl interest c [] ([], th) x"
  by (auto simp: opened_def session_ok_def between_def buffer_used_def buffer_ok_def buffer_content_def tidy_def)

lemma healthy_ok: "list_all (healthy n) es \<Longrightarrow> \<forall>m \<in> set (requests es). msg_ok m"
proof (induction es)
  case (Cons e es)
  then show ?case by (cases e) (auto simp: list_all_iff)
qed simp

lemma web_session:
  assumes heap: "he_heap env = granting f" and x: "opened (he_ctl env) interest c th x" and es: "list_all (healthy n) es"
    and room: "length (concat (map (web_reply (he_date env) fs) (requests es))) \<le> 1073741824"
  shows "\<exists>s' x'. client_steps n env web_handlers (web_run env fs) c es ([], th) = Inr s'
    \<and> session_ok (he_ctl env) interest c (concat (map (web_reply (he_date env) fs) (requests es))) s' x' \<and> conn_fd x' = conn_fd x"
proof -
  have env: "env\<lparr>he_heap := granting f\<rparr> = env" using heap by simp
  note w = web_app.session_events [where env = env and f = f and fs = fs and n = n, unfolded env, OF opened_session [OF x] es healthy_ok [OF es]]
  from w room show ?thesis by simp
qed

text \<open>C2. Replies in order. The client of the session keeps the connection open and sends requests in the library's own form, each batch
  whole in one \<open>read\<close> of at most 4096 bytes (\<open>healthy\<close>). Then, whatever way these arrivals, the reads that find nothing, the
  writes of any length and the refused writes interleave, the file server of the samples does not fault, and after every such sequence of
  events what the client received followed by what is in
  the output buffer is the concatenation of the replies to its requests, in the order of the requests; no request is left
  in the input, the connection is open and read from, and as long as output is left the descriptor is registered for writing. The
  replies are less than a gigabyte in all.\<close>

theorem session_replies_in_order:
  assumes heap: "he_heap env = granting f" and x: "opened (he_ctl env) interest c th x" and es: "list_all (healthy n) es"
    and room: "length (concat (map (web_reply (he_date env) fs) (requests es))) \<le> 1073741824"
  shows "\<exists>sent th' x'. client_steps n env web_handlers (web_run env fs) c es ([], th) = Inr (sent, th') \<and> get_conn c th' = Inr x'
    \<and> sent @ buffer_content (conn_out x') = concat (map (web_reply (he_date env) fs) (requests es))
    \<and> buffer_content (conn_in x') = [] \<and> hc_requests x' = [] \<and> hc_status x' = CONNECTED
    \<and> epoll_rd (conn_fd x) (re_io (ht_reactor th'))
    \<and> (buffer_content (conn_out x') \<noteq> [] \<longrightarrow> epoll_wr (conn_fd x) (re_io (ht_reactor th')))"
proof -
  from web_session [OF assms] obtain s' x' where
    s: "client_steps n env web_handlers (web_run env fs) c es ([], th) = Inr s'"
      "session_ok (he_ctl env) interest c (concat (map (web_reply (he_date env) fs) (requests es))) s' x'" "conn_fd x' = conn_fd x" by blast
  then show ?thesis
    by (intro exI [of _ "fst s'"] exI [of _ "snd s'"] exI [of _ x']) (auto simp: session_ok_def between_def watched_def)
qed

text \<open>C1. Every reply arrives: after any interleaving of these events (whole requests in the library's form, without \<open>Connection: close\<close>, each batch in one
  \<open>read\<close>), once the socket accepts bytes more often than there are bytes of
  replies, whatever number each time, the client has received exactly the replies to all its requests, the write interest is
  given up again, and the connection, which no such event closes, is open for the next request.\<close>

theorem session_delivers:
  assumes heap: "he_heap env = granting f" and x: "opened (he_ctl env) interest c th x" and es: "list_all (healthy n) es"
    and room: "length (concat (map (web_reply (he_date env) fs) (requests es))) \<le> 1073741824"
    and ks: "length (concat (map (web_reply (he_date env) fs) (requests es))) < length ks"
  shows "\<exists>th' x'. client_steps n env web_handlers (web_run env fs) c (es @ map Accepts ks) ([], th)
        = Inr (concat (map (web_reply (he_date env) fs) (requests es)), th')
    \<and> get_conn c th' = Inr x' \<and> hc_status x' = CONNECTED \<and> \<not> epoll_wr (conn_fd x) (re_io (ht_reactor th'))
    \<and> epoll_rd (conn_fd x) (re_io (ht_reactor th'))"
proof -
  let ?due = "concat (map (web_reply (he_date env) fs) (requests es))"
  from web_session [OF assms(1-4)] obtain s' x' where
    s: "client_steps n env web_handlers (web_run env fs) c es ([], th) = Inr s'"
      "session_ok (he_ctl env) interest c ?due s' x'" "conn_fd x' = conn_fd x" by blast
  have "?due = fst s' @ buffer_content (conn_out x')" using s(2) unfolding session_ok_def by blast
  then have "length (buffer_content (conn_out x')) < length ks" using ks by (metis add_lessD1 add.commute length_append)
  from session_flushes [OF s(2) this, of n web_handlers "web_run env fs"] obtain th2 x2 where
    f: "client_steps n env web_handlers (web_run env fs) c (map Accepts ks) s' = Inr (?due, th2)"
      "session_ok (he_ctl env) interest c ?due (?due, th2) x2" "conn_fd x2 = conn_fd x'" "\<not> epoll_wr (conn_fd x') (re_io (ht_reactor th2))" by blast
  have "client_steps n env web_handlers (web_run env fs) c (es @ map Accepts ks) ([], th) = Inr (?due, th2)"
    using s(1) f(1) by (simp add: client_steps_append)
  then show ?thesis using f(2-4) s(3) by (intro exI [of _ th2] exI [of _ x2]) (simp add: session_ok_def watched_def)
qed

section \<open>Example\<close>

text \<open>Two requests at once, of which the second names no file, and a write of eleven bytes between them and a third request.\<close>

definition ex_css :: message where
  "ex_css = \<lparr>m_type = GET, m_path = ''/site.css'', m_query = None, m_body = []\<rparr>"

definition ex_events :: "client_event list" where
  "ex_events = [NothingYet, Sends [ex_css, ex_get], Accepts 10, Busy, Sends [ex_css]]"

lemma ex_css_ok: "msg_ok ex_css" "decoded ex_css = ''/site.css''" "length (msg_bytes ex_css) \<le> 200"
proof -
  have "string_from_utf8 ''/site.css'' = Inr ''/site.css''" by code_simp
  then show "msg_ok ex_css" "decoded ex_css = ''/site.css''"
    by (simp_all add: msg_ok_def decoded_def ex_css_def target_def clean_def is_eol_def CR_def LF_def NUL_def)
  show "length (msg_bytes ex_css) \<le> 200"
    by (simp add: msg_bytes_def ex_css_def request_headers_def header_line_def target_def type_name_def)
qed

lemma ex_healthy: "list_all (healthy 9) ex_events"
  using ex_lengths(1) ex_css_ok by (simp add: ex_events_def ex_messages)

lemma ex_opened: "opened list_ctl (\<lambda>k fd. smap_find fd k) 1 (ex_thread []) (ex_conn [])"
proof -
  have "epoll_fine list_ctl (\<lambda>k fd. smap_find fd k) ex_io" using ex_inv by (simp add: reactor_inv_def ex_reactor_def reactor_new_def)
  moreover have "epoll_rd 5 ex_io" by (simp add: epoll_rd_def ex_io_def has_rd_def RD_def)
  ultimately show ?thesis
    using ex_conn_at [of "[]"] by (simp add: opened_def watched_def between_def ex_conn_def buffer_used_def INT_MAX_def ex_thread_def reactor_new_def)
qed

abbreviation ex_due :: string where
  "ex_due \<equiv> file_bytes ''now'' (home @ ''/site.css'') ''body {}'' @ not_found_bytes ''now'' @ file_bytes ''now'' (home @ ''/site.css'') ''body {}''"

lemma ex_replies: "concat (map (web_reply (he_date ex_http) ex_files) (requests ex_events)) = ex_due"
  by (simp add: ex_events_def web_reply_def web_path_def ex_css_ok ex_messages ex_http_def read_file_def ex_files_def)

lemma ex_due_length: "length ex_due \<le> 2000"
proof -
  have n: "to_string 7 = ''7''" by code_simp
  have f: "length (file_bytes ''now'' (home @ ''/site.css'') ''body {}'') \<le> 200"
    unfolding ex_file_bytes by (simp add: header_lines_def header_line_def file_hdrs_def n)
  have p: "length not_found_page = 143" by (simp add: not_found_page_def)
  have "to_string 143 = ''143''" by code_simp
  then have "length (not_found_bytes ''now'') \<le> 1000"
    by (simp add: not_found_bytes_def header_lines_def header_line_def response_hdrs_def p)
  with f show ?thesis by simp
qed

theorem session_replies_in_order_witness:
  "\<exists>sent th' x'. client_steps 9 ex_http web_handlers (web_run ex_http ex_files) 1 ex_events ([], ex_thread []) = Inr (sent, th') \<and> get_conn 1 th' = Inr x'
    \<and> sent @ buffer_content (conn_out x') = ex_due \<and> (buffer_content (conn_out x') \<noteq> [] \<longrightarrow> epoll_wr 5 (re_io (ht_reactor th')))"
proof -
  have h: "he_heap ex_http = granting (\<lambda>_. NUL)" "he_ctl ex_http = list_ctl" "conn_fd (ex_conn []) = 5" by (simp_all add: ex_http_def ex_conn_def)
  have "length (concat (map (web_reply (he_date ex_http) ex_files) (requests ex_events))) \<le> 1073741824"
    unfolding ex_replies using ex_due_length by linarith
  from session_replies_in_order [OF h(1) _ ex_healthy this, unfolded ex_replies h(2,3), OF ex_opened] h(3) show ?thesis by auto
qed

theorem session_delivers_witness:
  "\<exists>th'. client_steps 9 ex_http web_handlers (web_run ex_http ex_files) 1 (ex_events @ map Accepts (replicate 2001 0)) ([], ex_thread [])
     = Inr (ex_due, th') \<and> \<not> epoll_wr 5 (re_io (ht_reactor th'))"
proof -
  have h: "he_heap ex_http = granting (\<lambda>_. NUL)" "he_ctl ex_http = list_ctl" "conn_fd (ex_conn []) = 5" by (simp_all add: ex_http_def ex_conn_def)
  have "length (concat (map (web_reply (he_date ex_http) ex_files) (requests ex_events))) \<le> 1073741824"
    "length (concat (map (web_reply (he_date ex_http) ex_files) (requests ex_events))) < length (replicate 2001 (0 :: nat))"
    unfolding ex_replies length_replicate using ex_due_length by linarith+
  from session_delivers [OF h(1) _ ex_healthy this, unfolded ex_replies h(2), OF ex_opened] h(3) show ?thesis by auto
qed

end
