(* ===== verification/Libio_Webbench.thy ===== *)
theory Libio_Webbench
  imports Libio_Http_Message Libio_Socket
begin

text \<open>
  The benchmark client \<open>src/sample/mywebbench.cc\<close>: its options, the request it sends, the loop of a
  client process and the accounting of the parent. The global variables are a record. \<open>getopt_long\<close>,
  \<open>fork\<close>, \<open>fscanf\<close> on the pipe and the system calls are inputs; the flag \<open>timerexpired\<close>, which the
  handler of \<open>SIGALRM\<close> sets at some time, is read through \<open>be_expired\<close>. What is printed is left out,
  and so is the default action of \<open>SIGPIPE\<close>.
\<close>

section \<open>State\<close>

record wb =
  wb_speed :: int
  wb_failed :: int
  wb_bytes :: int
  wb_http10 :: int
  wb_method :: int
  wb_clients :: int
  wb_force :: int
  wb_reload :: int
  wb_benchtime :: int
  wb_keep_alive :: bool
  wb_host :: string
  wb_port :: int
  wb_request :: string
  wb_req :: request

definition REQUEST_SIZE :: nat where
  "REQUEST_SIZE = 2048"

definition wb_start :: "heap_env \<Rightarrow> wb res" where
  "wb_start e =
     bind_res (request_new e) (\<lambda>r.
       Inr \<lparr>wb_speed = 0, wb_failed = 0, wb_bytes = 0, wb_http10 = 1, wb_method = 0, wb_clients = 1, wb_force = 0,
            wb_reload = 0, wb_benchtime = 30, wb_keep_alive = False, wb_host = ''127.0.0.1'', wb_port = 80,
            wb_request = replicate REQUEST_SIZE NUL, wb_req = r\<rparr>)"

section \<open>Command line\<close>

text \<open>
  What \<open>getopt_long\<close> returns: a character with its argument, or 0 after it has set the variable of a
  long option.
\<close>

datatype wb_option = SetForce | SetReload | SetMethod int | Opt char string

text \<open>\<open>Inl\<close> a status that ends the program, \<open>Inr\<close> the variables it goes on with.\<close>

definition wb_option_step :: "wb_option \<Rightarrow> wb \<Rightarrow> (int + wb) res" where
  "wb_option_step o1 g =
     (case o1 of
        SetForce \<Rightarrow> Inr (Inr (g\<lparr>wb_force := 1\<rparr>))
      | SetReload \<Rightarrow> Inr (Inr (g\<lparr>wb_reload := 1\<rparr>))
      | SetMethod m \<Rightarrow> Inr (Inr (g\<lparr>wb_method := m\<rparr>))
      | Opt c arg \<Rightarrow>
          if c = CHR ''f'' then Inr (Inr (g\<lparr>wb_force := 1\<rparr>))
          else if c = CHR ''r'' then Inr (Inr (g\<lparr>wb_reload := 1\<rparr>))
          else if c = CHR ''9'' then Inr (Inl 1)
          else if c = CHR ''1'' then Inr (Inr (g\<lparr>wb_req := (wb_req g)\<lparr>major := 1, minor := 0\<rparr>\<rparr>))
          else if c = CHR ''2'' then Inr (Inr (g\<lparr>wb_req := (wb_req g)\<lparr>major := 1, minor := 1\<rparr>\<rparr>))
          else if c = CHR ''V'' then Inr (Inl 0)
          else if c = CHR ''t'' then bind_res (atoi arg) (\<lambda>n. Inr (Inr (g\<lparr>wb_benchtime := n\<rparr>)))
          else if c = CHR ''k'' then Inr (Inr (g\<lparr>wb_keep_alive := True\<rparr>))
          else if c = CHR ''p'' then Inr (Inl 1)
          else if c = CHR '':'' \<or> c = CHR ''h'' \<or> c = CHR ''?'' then Inr (Inl 2)
          else if c = CHR ''c'' then bind_res (atoi arg) (\<lambda>n. Inr (Inr (g\<lparr>wb_clients := n\<rparr>)))
          else Inr (Inr g))"

fun wb_options :: "wb_option list \<Rightarrow> wb \<Rightarrow> (int + wb) res" where
  "wb_options [] g = Inr (Inr g)"
| "wb_options (o1 # os) g =
     bind_res (wb_option_step o1 g) (\<lambda>r. case r of Inl st \<Rightarrow> Inr (Inl st) | Inr g1 \<Rightarrow> wb_options os g1)"

text \<open>\<open>url.find_first_of(cs)\<close>: the first character that is one of \<open>cs\<close>.\<close>

fun find_first_of :: "string \<Rightarrow> string \<Rightarrow> nat option" where
  "find_first_of cs [] = None"
| "find_first_of cs (x # s) = (if x \<in> set cs then Some 0 else map_option Suc (find_first_of cs s))"

text \<open>Host and port out of the URL; \<open>substr\<close> throws when it starts behind the end.\<close>

definition wb_url :: "string \<Rightarrow> wb \<Rightarrow> (int + wb) res" where
  "wb_url url g =
     (case find_first_of ''://'' url of
        None \<Rightarrow> Inr (Inl 2)
      | Some i \<Rightarrow>
          if length url < i + 3 then Inl OutOfRange
          else
            let u = drop (i + 3) url in
            case find_chr (CHR '':'') u of
              None \<Rightarrow> Inr (Inr g)
            | Some j \<Rightarrow> bind_res (stoi (drop (j + 1) u)) (\<lambda>p. Inr (Inr (g\<lparr>wb_host := take j u, wb_port := p mod 65536\<rparr>))))"

definition wb_make_request :: "heap_env \<Rightarrow> wb \<Rightarrow> wb res" where
  "wb_make_request e g =
     bind_res (set_request e GET ''/'' None (wb_req g)) (\<lambda>(r, _).
       let r1 = set_header ''Connection'' (if wb_keep_alive g then ''keep-alive'' else ''close'') r in
       bind_res (buffer_new e) (\<lambda>b.
       bind_res (send_to e r1 b) (\<lambda>(r2, b1).
       bind_res (mem_read (originbuf b1) (bufptr b1) (int (buffer_length b1))) (\<lambda>d.
       bind_res (mem_write (wb_request g) 0 d) (\<lambda>m.
         Inr (g\<lparr>wb_req := r2, wb_request := m\<rparr>))))))"

definition wb_defaults :: "wb \<Rightarrow> wb" where
  "wb_defaults g =
     (let g1 = (if wb_clients g = 0 then g\<lparr>wb_clients := 1\<rparr> else g) in
      if wb_benchtime g1 = 0 then g1\<lparr>wb_benchtime := 30\<rparr> else g1)"

text \<open>\<open>main\<close> up to the call of \<open>bench\<close>; \<open>url\<close> is \<open>argv[optind]\<close>, when there is one.\<close>

definition wb_main :: "heap_env \<Rightarrow> wb_option list \<Rightarrow> string option \<Rightarrow> wb \<Rightarrow> (int + wb) res" where
  "wb_main e os url g =
     (if os = [] \<and> url = None then Inr (Inl 2)
      else
        bind_res (wb_options os g) (\<lambda>r.
          case r of
            Inl st \<Rightarrow> Inr (Inl st)
          | Inr g1 \<Rightarrow>
              (case url of
                 None \<Rightarrow> Inr (Inl 2)
               | Some u \<Rightarrow>
                   bind_res (wb_url u (wb_defaults g1)) (\<lambda>r.
                     case r of
                       Inl st \<Rightarrow> Inr (Inl st)
                     | Inr g4 \<Rightarrow> bind_res (wb_make_request e g4) (\<lambda>g5. Inr (Inr g5))))))"

section \<open>The client\<close>

record http_client =
  cl_fd :: int
  cl_address :: string
  cl_port :: int

definition client_new :: "string \<Rightarrow> int \<Rightarrow> http_client" where
  "client_new address port = \<lparr>cl_fd = -1, cl_address = address, cl_port = port\<rparr>"

definition client_connect :: "('k, 'a) sys \<Rightarrow> http_client \<Rightarrow> 'k \<Rightarrow> http_client \<times> 'k" where
  "client_connect y cl k = (case tcp_connect y (cl_address cl) (cl_port cl) k of (fd, k1) \<Rightarrow> (cl\<lparr>cl_fd := fd\<rparr>, k1))"

text \<open>\<open>close\<close> forgets the descriptor only when there is none.\<close>

definition client_close :: "('k, 'a) sys \<Rightarrow> http_client \<Rightarrow> 'k \<Rightarrow> int \<times> http_client \<times> 'k" where
  "client_close y cl k =
     (if 0 < cl_fd cl then case s_close y (cl_fd cl) k of (r, k1) \<Rightarrow> (r, cl, k1)
      else (0, cl\<lparr>cl_fd := -1\<rparr>, k))"

text \<open>
  The surroundings of a client process: the system calls, and a look at \<open>timerexpired\<close>. The sockets are blocking ones, and
  the handler of \<open>SIGALRM\<close> is installed with \<open>SA_RESTART\<close> (\<open>core/signal.hh\<close>), so that a call that waits goes on waiting after the
  alarm: \<open>be_silent\<close> says that a \<open>read\<close> never returns, because the server sends nothing and does not close, \<open>be_full\<close> that a
  \<open>write\<close> never returns, because the socket is full and the server takes nothing.
\<close>

record ('k, 'a) bench_env =
  be_sys :: "('k, 'a) sys"
  be_expired :: "'k \<Rightarrow> bool \<times> 'k"
  be_silent :: "int \<Rightarrow> 'k \<Rightarrow> bool"
  be_full :: "int \<Rightarrow> string \<Rightarrow> 'k \<Rightarrow> bool"

record 'k bench_state =
  bs_g :: wb
  bs_cl :: http_client
  bs_k :: 'k

text \<open>\<open>failed++\<close>, \<open>speed++\<close> and \<open>bytes += n\<close>.\<close>

definition count_failed :: "wb \<Rightarrow> wb res" where
  "count_failed g = bind_res (cint (wb_failed g + 1)) (\<lambda>n. Inr (g\<lparr>wb_failed := n\<rparr>))"

definition count_speed :: "wb \<Rightarrow> wb res" where
  "count_speed g = bind_res (cint (wb_speed g + 1)) (\<lambda>n. Inr (g\<lparr>wb_speed := n\<rparr>))"

definition count_bytes :: "int \<Rightarrow> wb \<Rightarrow> wb res" where
  "count_bytes n g = bind_res (cint (wb_bytes g + n)) (\<lambda>m. Inr (g\<lparr>wb_bytes := m\<rparr>))"

text \<open>The inner loop; False when \<open>read\<close> failed, and no result when it waits for ever.\<close>

fun read_reply :: "nat \<Rightarrow> ('k, 'a) bench_env \<Rightarrow> int \<Rightarrow> wb \<Rightarrow> 'k \<Rightarrow> (bool \<times> wb \<times> 'k) res" where
  "read_reply 0 v fd g k = Inl NoReturn"
| "read_reply (Suc n) v fd g k =
     (case be_expired v k of (t, k1) \<Rightarrow>
        if t then Inr (True, g, k1)
        else if be_silent v fd k1 then Inl NoReturn
        else case s_read (be_sys v) fd 1500 k1 of
          (None, k2) \<Rightarrow> Inr (False, g, k2)
        | (Some d, k2) \<Rightarrow>
            if d = [] then Inr (True, g, k2)
            else bind_res (count_bytes (int (length d)) g) (\<lambda>g1.
              if wb_keep_alive g then Inr (True, g1, k2) else read_reply n v fd g1 k2))"

text \<open>\<open>strlen\<close>: the bytes before the first zero byte of the array.\<close>

definition c_string :: "string \<Rightarrow> string res" where
  "c_string m = (if NUL \<in> set m then Inr (takeWhile (\<lambda>c. c \<noteq> NUL) m) else Inl BadAccess)"

text \<open>One pass through the body of \<open>while (1)\<close>, and how it ends: \<open>return\<close>, \<open>continue\<close> or \<open>goto nexttry\<close>.\<close>

datatype pass_end = Leave | Again | NextTry

definition connect_if :: "bool \<Rightarrow> ('k, 'a) sys \<Rightarrow> http_client \<Rightarrow> 'k \<Rightarrow> http_client \<times> 'k" where
  "connect_if b y cl k = (if b then client_connect y cl k else (cl, k))"

text \<open>The pass from \<open>write\<close> on, with a connected client.\<close>

definition exchange :: "nat \<Rightarrow> ('k, 'a) bench_env \<Rightarrow> string \<Rightarrow> wb \<Rightarrow> http_client \<Rightarrow> 'k \<Rightarrow> (pass_end \<times> 'k bench_state) res" where
  "exchange n v req g cl k =
     (if be_full v (cl_fd cl) req k then Inl NoReturn
      else case s_write (be_sys v) (cl_fd cl) req k of (w, k1) \<Rightarrow>
        if int (length req) \<noteq> w then
          bind_res (count_failed g) (\<lambda>g1.
            case client_close (be_sys v) cl k1 of (_, cl1, k2) \<Rightarrow>
            case connect_if (wb_keep_alive g) (be_sys v) cl1 k2 of (cl2, k3) \<Rightarrow>
              Inr (Again, \<lparr>bs_g = g1, bs_cl = cl2, bs_k = k3\<rparr>))
        else case (if wb_http10 g = 0 then s_shutdown (be_sys v) (cl_fd cl) SHUT_WR k1 else (0, k1)) of (s, k2) \<Rightarrow>
        if s \<noteq> 0 then
          bind_res (count_failed g) (\<lambda>g1.
            case client_close (be_sys v) cl k2 of (_, cl1, k3) \<Rightarrow> Inr (Again, \<lparr>bs_g = g1, bs_cl = cl1, bs_k = k3\<rparr>))
        else
          bind_res (if wb_force g = 0 then read_reply n v (cl_fd cl) g k2 else Inr (True, g, k2)) (\<lambda>(ok, g1, k3).
            if \<not> ok then
              bind_res (count_failed g1) (\<lambda>g2.
                case client_close (be_sys v) cl k3 of (_, cl1, k4) \<Rightarrow> Inr (NextTry, \<lparr>bs_g = g2, bs_cl = cl1, bs_k = k4\<rparr>))
            else case (if wb_keep_alive g1 then (0, cl, k3) else client_close (be_sys v) cl k3) of (r, cl1, k4) \<Rightarrow>
              bind_res (if r \<noteq> 0 then count_failed g1 else count_speed g1) (\<lambda>g2.
                Inr (Again, \<lparr>bs_g = g2, bs_cl = cl1, bs_k = k4\<rparr>))))"

definition bench_pass :: "nat \<Rightarrow> ('k, 'a) bench_env \<Rightarrow> string \<Rightarrow> 'k bench_state \<Rightarrow> (pass_end \<times> 'k bench_state) res" where
  "bench_pass n v req s =
     (let g = bs_g s in
      case be_expired v (bs_k s) of (t, k1) \<Rightarrow>
        if t then
          bind_res (if 0 < wb_failed g then Inr (g\<lparr>wb_failed := wb_failed g - 1\<rparr>) else Inr g) (\<lambda>g1.
            Inr (Leave, \<lparr>bs_g = g1, bs_cl = bs_cl s, bs_k = k1\<rparr>))
        else case connect_if (\<not> wb_keep_alive g) (be_sys v) (bs_cl s) k1 of (cl, k2) \<Rightarrow>
          if cl_fd cl < 0 then
            bind_res (count_failed g) (\<lambda>g1.
              case connect_if (wb_keep_alive g) (be_sys v) cl k2 of (cl1, k3) \<Rightarrow>
                Inr (Again, \<lparr>bs_g = g1, bs_cl = cl1, bs_k = k3\<rparr>))
          else exchange n v req g cl k2)"

text \<open>The label \<open>nexttry\<close>, and the loop; \<open>n\<close> is fuel for the inner loop.\<close>

definition next_try :: "('k, 'a) bench_env \<Rightarrow> 'k bench_state \<Rightarrow> 'k bench_state" where
  "next_try v s =
     (case connect_if (wb_keep_alive (bs_g s)) (be_sys v) (bs_cl s) (bs_k s) of (cl, k) \<Rightarrow> s\<lparr>bs_cl := cl, bs_k := k\<rparr>)"

fun bench_loop :: "nat \<Rightarrow> nat \<Rightarrow> ('k, 'a) bench_env \<Rightarrow> string \<Rightarrow> 'k bench_state \<Rightarrow> 'k bench_state res" where
  "bench_loop 0 n v req s = Inl NoReturn"
| "bench_loop (Suc m) n v req s =
     bind_res (bench_pass n v req s) (\<lambda>(p, s1).
       case p of Leave \<Rightarrow> Inr s1 | Again \<Rightarrow> bench_loop m n v req s1 | NextTry \<Rightarrow> bench_loop m n v req (next_try v s1))"

definition benchcore :: "nat \<Rightarrow> nat \<Rightarrow> ('k, 'a) bench_env \<Rightarrow> wb \<Rightarrow> 'k \<Rightarrow> 'k bench_state res" where
  "benchcore m n v g k =
     bind_res (c_string (wb_request g)) (\<lambda>req.
       bench_loop m n v req (next_try v \<lparr>bs_g = g, bs_cl = client_new (wb_host g) (wb_port g), bs_k = k\<rparr>))"

section \<open>The parent\<close>

text \<open>
  \<open>pids\<close> are the results of \<open>fork\<close>; the loop ends with the number of children and the last result, which
  is 0 in a child, and in the parent too when there was nothing to start.
\<close>

fun fork_loop :: "int \<Rightarrow> int \<Rightarrow> int \<Rightarrow> int list \<Rightarrow> (int \<times> int) res" where
  "fork_loop i n pid pids =
     (if n \<le> i then Inr (i, pid)
      else case pids of
        [] \<Rightarrow> Inl NoReturn
      | p # ps \<Rightarrow> if p \<le> 0 then Inr (i, p) else fork_loop (i + 1) n p ps)"

text \<open>
  The numbers \<open>fscanf(f, "%d %d %d", &i, &j, &k)\<close> stores, one list per call; at the end of the input it
  stores none. \<open>k\<close> is not initialised.
\<close>

fun bench_collect :: "int list list \<Rightarrow> int \<Rightarrow> int option \<Rightarrow> wb \<Rightarrow> (int \<times> wb) res" where
  "bench_collect [] i k g = Inr (i, g)"
| "bench_collect (xs # scans) i k g =
     (let i' = (if xs = [] then i else xs ! 0); k' = (if length xs < 3 then k else Some (xs ! 2)) in
      if length xs < 2 then Inr (i', g)
      else
        bind_res (cint (wb_speed g + i')) (\<lambda>sp.
        bind_res (cint (wb_failed g + xs ! 1)) (\<lambda>fl.
        bind_res (read_member k') (\<lambda>kv.
        bind_res (cint (wb_bytes g + kv)) (\<lambda>bt.
        bind_res (cint (wb_clients g - 1)) (\<lambda>cl.
          let g1 = g\<lparr>wb_speed := sp, wb_failed := fl, wb_bytes := bt, wb_clients := cl\<rparr> in
          if cl = 0 then Inr (i', g1) else bench_collect scans i' k' g1))))))"

record bench_in =
  bi_pipe :: bool
  bi_forks :: "int list"
  bi_fdopen :: bool
  bi_scans :: "int list list"

text \<open>The value \<open>main\<close> returns, the line a child writes to the pipe, the variables and the kernel.\<close>

definition bench :: "nat \<Rightarrow> nat \<Rightarrow> ('k, 'a) bench_env \<Rightarrow> bench_in \<Rightarrow> wb \<Rightarrow> 'k \<Rightarrow> (int \<times> int list option \<times> wb \<times> 'k) res" where
  "bench m n v i g k =
     (case client_connect (be_sys v) (client_new (wb_host g) (wb_port g)) k of (cl, k1) \<Rightarrow>
        if cl_fd cl < 0 then Inr (1, None, g, k1)
        else case client_close (be_sys v) cl k1 of (_, _, k2) \<Rightarrow>
        if \<not> bi_pipe i then Inr (3, None, g, k2)
        else bind_res (fork_loop 0 (wb_clients g) 0 (bi_forks i)) (\<lambda>(started, pid).
          if pid < 0 then Inr (3, None, g, k2)
          else if pid = 0 then
            bind_res (benchcore m n v g k2) (\<lambda>s.
              if \<not> bi_fdopen i then Inr (3, None, bs_g s, bs_k s)
              else Inr (0, Some [wb_speed (bs_g s), wb_failed (bs_g s), wb_bytes (bs_g s)], bs_g s, bs_k s))
          else if \<not> bi_fdopen i then Inr (3, None, g, k2)
          else
            bind_res (bench_collect (bi_scans i) started None (g\<lparr>wb_speed := 0, wb_failed := 0, wb_bytes := 0\<rparr>)) (\<lambda>(st, g1).
              Inr (st, None, g1, k2))))"

section \<open>The totals\<close>

lemma cint_in [simp]: "0 \<le> x \<Longrightarrow> x \<le> INT_MAX \<Longrightarrow> cint x = Inr x"
  by (simp add: cint_def INT_MIN_def)

text \<open>What one child reports.\<close>

definition report_ok :: "int list \<Rightarrow> bool" where
  "report_ok r = (length r = 3 \<and> (\<forall>x \<in> set r. 0 \<le> x))"

abbreviation total :: "nat \<Rightarrow> int list list \<Rightarrow> int" where
  "total j rs \<equiv> sum_list (map (\<lambda>r. r ! j) rs)"

lemma report_nth: "report_ok r \<Longrightarrow> j < 3 \<Longrightarrow> 0 \<le> r ! j"
  by (auto simp: report_ok_def)

lemma total_nonneg: "\<forall>r \<in> set rs. report_ok r \<Longrightarrow> j < 3 \<Longrightarrow> 0 \<le> total j rs"
  by (rule sum_list_nonneg) (auto simp: report_nth)

lemma collect_totals:
  "\<forall>r \<in> set rs. report_ok r \<Longrightarrow> rs \<noteq> [] \<Longrightarrow> wb_clients g = int (length rs) \<Longrightarrow> int (length rs) \<le> INT_MAX \<Longrightarrow>
   0 \<le> wb_speed g \<Longrightarrow> 0 \<le> wb_failed g \<Longrightarrow> 0 \<le> wb_bytes g \<Longrightarrow> wb_speed g + total 0 rs \<le> INT_MAX \<Longrightarrow>
   wb_failed g + total 1 rs \<le> INT_MAX \<Longrightarrow> wb_bytes g + total 2 rs \<le> INT_MAX \<Longrightarrow>
   bench_collect (rs @ rest) i k g = Inr (last rs ! 0, g\<lparr>wb_speed := wb_speed g + total 0 rs, wb_failed := wb_failed g + total 1 rs,
     wb_bytes := wb_bytes g + total 2 rs, wb_clients := 0\<rparr>)"
proof (induction rs arbitrary: i k g)
  case (Cons r rs)
  have r: "length r = 3" "r \<noteq> []" "0 \<le> r ! 0" "0 \<le> r ! 1" "0 \<le> r ! 2"
    using Cons.prems(1) report_nth [of r] by (auto simp: report_ok_def)
  have t: "0 \<le> total 0 rs" "0 \<le> total 1 rs" "0 \<le> total 2 rs" using total_nonneg [of rs] Cons.prems(1) by simp_all
  let ?g = "g\<lparr>wb_speed := wb_speed g + r ! 0, wb_failed := wb_failed g + r ! 1, wb_bytes := wb_bytes g + r ! 2, wb_clients := int (length rs)\<rparr>"
  have step: "bench_collect ((r # rs) @ rest) i k g = (if rs = [] then Inr (r ! 0, ?g) else bench_collect (rs @ rest) (r ! 0) (Some (r ! 2)) ?g)"
    using Cons.prems r t by (simp add: read_member_def Let_def)
  show ?case
  proof (cases "rs = []")
    case True
    then show ?thesis using step by simp
  next
    case False
    have "bench_collect (rs @ rest) (r ! 0) (Some (r ! 2)) ?g = Inr (last rs ! 0, ?g\<lparr>wb_speed := wb_speed ?g + total 0 rs,
      wb_failed := wb_failed ?g + total 1 rs, wb_bytes := wb_bytes ?g + total 2 rs, wb_clients := 0\<rparr>)"
      by (rule Cons.IH) (use Cons.prems False r in auto)
    then show ?thesis using step False by simp
  qed
qed simp

section \<open>The request\<close>

definition bench_headers :: "bool \<Rightarrow> (string, string) smap" where
  "bench_headers keep =
     [(''Connection'', if keep then ''keep-alive'' else ''close''), (''Content-Type'', ''text/html; charset=utf-8'')]"

definition bench_bytes :: "int \<Rightarrow> bool \<Rightarrow> string" where
  "bench_bytes mn keep =
     ''GET / '' @ (if mn = 0 then ''HTTP/1.0'' else ''HTTP/1.1'') @ [CR, LF] @ concat (map header_line (bench_headers keep)) @ [CR, LF]"

text \<open>The global request object before \<open>set_request\<close>: a new one, up to the version.\<close>

definition plain_request :: "wb \<Rightarrow> bool" where
  "plain_request g =
     (\<exists>b mn. wb_req g = (fresh_request b)\<lparr>minor := mn\<rparr> \<and> (mn = 0 \<or> mn = 1) \<and> buffer_ok b \<and> buffer_content b = [] \<and>
        wb_request g = replicate REQUEST_SIZE NUL)"

lemma plain_start: "wb_start (granting f) = Inr g \<Longrightarrow> plain_request g"
  using request_new_fresh [of f] by (auto simp: wb_start_def plain_request_def fresh_request_def)

lemma plain_version: "plain_request g \<Longrightarrow> mn = 0 \<or> mn = 1 \<Longrightarrow> plain_request (g\<lparr>wb_req := (wb_req g)\<lparr>major := 1, minor := mn\<rparr>\<rparr>)"
  by (fastforce simp: plain_request_def fresh_request_def)

lemma plain_update [simp]:
  "plain_request (g\<lparr>wb_force := x\<rparr>) = plain_request g" "plain_request (g\<lparr>wb_reload := x\<rparr>) = plain_request g"
  "plain_request (g\<lparr>wb_method := x\<rparr>) = plain_request g" "plain_request (g\<lparr>wb_benchtime := x\<rparr>) = plain_request g"
  "plain_request (g\<lparr>wb_keep_alive := a\<rparr>) = plain_request g" "plain_request (g\<lparr>wb_clients := x\<rparr>) = plain_request g"
  "plain_request (g\<lparr>wb_host := h, wb_port := x\<rparr>) = plain_request g"
  by (simp_all add: plain_request_def)

lemma outcome_if: "outcome F P a \<Longrightarrow> outcome F P b \<Longrightarrow> outcome F P (if c then a else b)"
  by simp

lemma outcome_any_bind: "(\<And>x. outcome UNIV P (f x)) \<Longrightarrow> outcome UNIV P (bind_res m f)"
  by (cases m) simp_all

lemma plain_step_outcome: "plain_request g \<Longrightarrow> outcome UNIV (\<lambda>r. case r of Inl _ \<Rightarrow> True | Inr g' \<Rightarrow> plain_request g') (wb_option_step o1 g)"
  unfolding wb_option_step_def by (cases o1) (simp_all only: wb_option.case, (intro outcome_if outcome_any_bind | simp add: plain_version)+)

lemma plain_step: "wb_option_step o1 g = Inr (Inr g') \<Longrightarrow> plain_request g \<Longrightarrow> plain_request g'"
  using plain_step_outcome [of g o1] by simp

lemma plain_options: "wb_options os g = Inr (Inr g') \<Longrightarrow> plain_request g \<Longrightarrow> plain_request g'"
proof (induction os g rule: wb_options.induct)
  case (2 o1 os g)
  from "2.prems"(1) obtain r where r: "wb_option_step o1 g = Inr r" "(case r of Inl st \<Rightarrow> Inr (Inl st) | Inr g1 \<Rightarrow> wb_options os g1) = Inr (Inr g')"
    by (auto simp: bind_res_eq_Inr)
  then obtain g1 where "r = Inr g1" by (cases r) auto
  with r "2.IH" "2.prems"(2) show ?case by (auto dest: plain_step)
qed simp

lemma plain_url: "wb_url u g = Inr (Inr g') \<Longrightarrow> plain_request g \<Longrightarrow> plain_request g'"
  by (auto simp: wb_url_def Let_def bind_res_eq_Inr split: option.splits if_splits )

lemma plain_defaults [simp]: "plain_request (wb_defaults g) = plain_request g"
  by (simp add: wb_defaults_def Let_def)

lemma case_goes_on: "((case r of Inl st \<Rightarrow> Inr (Inl st) | Inr x \<Rightarrow> F x) = Inr (Inr y)) = (\<exists>x. r = Inr x \<and> F x = Inr (Inr y))"
  by (cases r) auto

lemma main_stages:
  assumes "wb_main e os url g0 = Inr (Inr g)"
  shows "\<exists>g1 u g4. wb_options os g0 = Inr (Inr g1) \<and> wb_url u (wb_defaults g1) = Inr (Inr g4) \<and> wb_make_request e g4 = Inr g"
  using assms by (fastforce simp: wb_main_def bind_res_eq_Inr case_goes_on split: if_splits option.splits)

lemma bench_bytes_short: "length (bench_bytes mn keep) \<le> 100"
  by (simp add: bench_bytes_def bench_headers_def header_line_def)

lemma bench_bytes_no_nul: "NUL \<notin> set (bench_bytes mn keep)"
  by (simp add: bench_bytes_def bench_headers_def header_line_def NUL_def CR_def LF_def)

lemma c_string_array: "NUL \<notin> set s \<Longrightarrow> 0 < n \<Longrightarrow> c_string (s @ replicate n NUL) = Inr s"
  by (cases n) (auto simp: c_string_def takeWhile_append)

text \<open>The bytes that \<open>make_request\<close> copies fit into the array, with a zero byte behind them.\<close>

lemma make_request_bytes:
  assumes "plain_request g"
  shows "\<exists>g'. wb_make_request (granting f) g = Inr g' \<and> minor (wb_req g') = minor (wb_req g) \<and> wb_keep_alive g' = wb_keep_alive g
    \<and> c_string (wb_request g') = Inr (bench_bytes (minor (wb_req g)) (wb_keep_alive g))"
proof -
  obtain b mn where g: "wb_req g = (fresh_request b)\<lparr>minor := mn\<rparr>" "mn = 0 \<or> mn = 1" "buffer_ok b" "buffer_content b = []"
    "wb_request g = replicate REQUEST_SIZE NUL" using assms by (auto simp: plain_request_def)
  let ?r = "(wb_req g)\<lparr>type := Some GET, uri := ''/'', headers := [(''Content-Type'', ''text/html; charset=utf-8'')],
    firstline := ''GET / HTTP/1.'' @ to_string mn @ [CR, LF]\<rparr>"
  let ?c = "set_header ''Connection'' (if wb_keep_alive g then ''keep-alive'' else ''close'') ?r"
  have sr: "set_request (granting f) GET ''/'' None (wb_req g) = Inr (?r, None)"
    by (simp add: set_request_def g(1) fresh_request_def set_header_def type_name_def)
  have w: "wire ?c = bench_bytes mn (wb_keep_alive g)"
    using g(2,4) by (auto simp: wire_def body_def g(1) set_header_def header_lines_def bench_bytes_def bench_headers_def)
  obtain n where n: "buffer_new (granting f) = Inr n" "buffer_ok n" "buffer_content n = []" "buffer_used n = 0"
    by (auto simp: buffer_new_def buffer_ok_def buffer_content_def buffer_used_def fresh_bytes_def DEFAULT_SIZE_def INT_MAX_def)
  have ok: "buffer_ok (body_buf ?c)" using g(3) by (simp add: set_header_def g(1))
  have room: "buffer_used n + int (length (wire ?c)) \<le> 1073741824" using bench_bytes_short [of mn "wb_keep_alive g"] n(4) w by simp
  from send_to_ok [OF n(2) ok room, of f] obtain bb b1 where s: "send_to (granting f) ?c n = Inr (?c\<lparr>body_buf := bb\<rparr>, b1)"
    "buffer_ok b1" "buffer_content b1 = bench_bytes mn (wb_keep_alive g)" using n(3) w by auto
  let ?d = "bench_bytes mn (wb_keep_alive g)"
  have rd: "mem_read (originbuf b1) (bufptr b1) (int (buffer_length b1)) = Inr ?d"
    using s(2,3) by (simp add: mem_read_eq_Inr buffer_ok_def buffer_length_def buffer_content_def)
  have len: "length ?d \<le> REQUEST_SIZE" "0 < REQUEST_SIZE - length ?d"
    using bench_bytes_short [of mn "wb_keep_alive g"] by (simp_all add: REQUEST_SIZE_def)
  have wr: "mem_write (wb_request g) 0 ?d = Inr (?d @ replicate (REQUEST_SIZE - length ?d) NUL)"
    using len(1) by (simp add: mem_write_def g(5) del: mem_write_length)
  let ?g = "g\<lparr>wb_req := ?c\<lparr>body_buf := bb\<rparr>, wb_request := ?d @ replicate (REQUEST_SIZE - length ?d) NUL\<rparr>"
  have "wb_make_request (granting f) g = Inr ?g"
    using sr n(1) s(1) rd wr by (simp add: wb_make_request_def Let_def)
  moreover have "c_string (wb_request ?g) = Inr ?d" using c_string_array [OF bench_bytes_no_nul len(2)] by simp
  ultimately show ?thesis using g(1) by (intro exI [of _ ?g]) (simp add: set_header_def)
qed

text \<open>The server's parser reads it.\<close>

lemma bench_headers_clean: "list_all clean_header (bench_headers keep)" "smap_ok (bench_headers keep)"
  by (simp_all add: bench_headers_def clean_header_def clean_def trimmed_def is_eol_def CR_def LF_def NUL_def ws_def)

lemma root_decoded: "string_from_utf8 ''/'' = Inr ''/''"
  by code_simp

lemma bench_bytes_parsed:
  assumes b: "buffer_ok b" "buffer_content b = bench_bytes mn keep @ rest" and mn: "mn = 0 \<or> mn = 1" and r: "kind r = REQUEST" "status r = READING_FIRSTLINE" "headers r = []"
  shows "\<exists>r' b'. parse e r b = Inr (ALLREAD, r', b') \<and> type r' = Some GET \<and> uri r' = ''/'' \<and> major r' = 1 \<and> minor r' = mn
    \<and> get_header ''Connection'' r' = Inr (if keep then ''keep-alive'' else ''close'') \<and> buffer_content b' = rest"
proof -
  let ?v = "if mn = 0 then ''HTTP/1.0'' else ''HTTP/1.1''"
  have v: "clean ?v" "parse_protocol ?v = Some (1, mn)" using mn version_line by auto
  have u: "clean (target ''/'' None)" "CHR '' '' \<notin> set (target ''/'' None)"
    by (simp_all add: target_def clean_def is_eol_def CR_def LF_def NUL_def)
  let ?hs = "concat (map header_line (bench_headers keep))"
  have "buffer_content b = type_name GET @ '' '' @ target ''/'' None @ '' '' @ ?v @ [CR, LF] @ ?hs @ [CR, LF] @ rest"
    using b(2) by (simp add: bench_bytes_def type_name_def target_def)
  from parse_request_firstline_version [OF b(1) this r(1,2) u _ root_decoded v, of e] obtain b1 where
    p: "parse e r b = parse_headers_loop e [] [] (r\<lparr>type := Some GET, uri := ''/'', query := query r, major := 1, minor := mn, status := READING_HEADERS\<rparr>) b1"
      "buffer_ok b1" "buffer_content b1 = ?hs @ [CR, LF] @ rest" by (auto simp: query_of_def)
  let ?r = "r\<lparr>type := Some GET, uri := ''/'', query := query r, major := 1, minor := mn, status := READING_HEADERS\<rparr>"
  from parse_header_map [OF p(2) bench_headers_clean _ p(3), of ?r e "[]" "[]"] r(3) obtain b2 where
    h: "parse_headers_loop e [] [] ?r b1 = headers_end e (?r\<lparr>headers := bench_headers keep\<rparr>) b2" "buffer_content b2 = rest" by auto
  have "headers_end e (?r\<lparr>headers := bench_headers keep\<rparr>) b2 = Inr (ALLREAD, ?r\<lparr>headers := bench_headers keep\<rparr>, b2)"
    using r(1) by (simp add: headers_end_def no_body_def read_member_def)
  then show ?thesis using p(1) h by (simp add: get_header_value header_value_def bench_headers_def)
qed

section \<open>Descriptors\<close>

text \<open>The further calls of a client, and the look at the flag, open and close nothing.\<close>

definition bench_contract :: "('k, 'a) bench_env \<Rightarrow> ('k \<Rightarrow> int set) \<Rightarrow> ('k \<Rightarrow> nat set) \<Rightarrow> bool" where
  "bench_contract v fds ais =
     (sys_contract (be_sys v) fds ais \<and> (\<forall>k. fds (snd (be_expired v k)) = fds k) \<and>
      (\<forall>fd s k. fds (snd (s_write (be_sys v) fd s k)) = fds k) \<and> (\<forall>fd n k. fds (snd (s_read (be_sys v) fd n k)) = fds k) \<and>
      (\<forall>fd h k. fds (snd (s_shutdown (be_sys v) fd h k)) = fds k))"

lemma bench_frame:
  assumes "bench_contract v fds ais"
  shows "be_expired v k = (t, k1) \<Longrightarrow> fds k1 = fds k"
    and "s_write (be_sys v) fd req k = (w, k1) \<Longrightarrow> fds k1 = fds k"
    and "s_read (be_sys v) fd n k = (d, k1) \<Longrightarrow> fds k1 = fds k"
    and "s_shutdown (be_sys v) fd h k = (w, k1) \<Longrightarrow> fds k1 = fds k"
    and "sys_contract (be_sys v) fds ais"
  using assms unfolding bench_contract_def by (metis snd_conv)+

text \<open>The descriptors \<open>D\<close> of the start, and the one of the client.\<close>

definition holds_at :: "int set \<Rightarrow> http_client \<Rightarrow> int set \<Rightarrow> bool" where
  "holds_at D cl F = (F = D \<and> cl_fd cl = -1 \<or> F = insert (cl_fd cl) D \<and> cl_fd cl \<notin> D \<and> 0 < cl_fd cl)"

lemma connect_holds:
  assumes "sys_contract y fds ais" and "fds k = D" "0 \<in> D" "-1 \<notin> D" and "client_connect y cl k = (cl', k')"
  shows "holds_at D cl' (fds k')"
proof -
  obtain fd k1 where t: "tcp_connect y (cl_address cl) (cl_port cl) k = (fd, k1)" by (cases "tcp_connect y (cl_address cl) (cl_port cl) k")
  have "fd \<noteq> 0" if "fd \<notin> D" using that assms(3) by auto
  with connect_opens [OF assms(1) _ t] t assms show ?thesis
    by (auto simp: client_connect_def holds_at_def split: if_splits)
qed

lemma close_releases:
  assumes "sys_contract y fds ais" and "holds_at D cl (fds k)" and "client_close y cl k = (r, cl', k')"
  shows "fds k' = D"
  using assms sys_frame(6) [OF assms(1), of "cl_fd cl" k] by (auto simp: client_close_def holds_at_def split: if_splits prod.splits)

definition bench_inv :: "('k \<Rightarrow> int set) \<Rightarrow> int set \<Rightarrow> 'k bench_state \<Rightarrow> bool" where
  "bench_inv fds D s =
     (wb_http10 (bs_g s) \<noteq> 0 \<and> (if wb_keep_alive (bs_g s) then holds_at D (bs_cl s) (fds (bs_k s)) else fds (bs_k s) = D))"

definition pass_inv :: "('k \<Rightarrow> int set) \<Rightarrow> int set \<Rightarrow> bool \<Rightarrow> pass_end \<times> 'k bench_state \<Rightarrow> bool" where
  "pass_inv fds D keep ps =
     (case ps of (p, s) \<Rightarrow> wb_http10 (bs_g s) \<noteq> 0 \<and> wb_keep_alive (bs_g s) = keep \<and> (if p = NextTry then fds (bs_k s) = D else bench_inv fds D s))"

definition same_mode :: "wb \<Rightarrow> wb \<Rightarrow> bool" where
  "same_mode g g' = (wb_keep_alive g' = wb_keep_alive g \<and> wb_http10 g' = wb_http10 g)"

lemma count_mode:
  "outcome UNIV (same_mode g) (count_failed g)" "outcome UNIV (same_mode g) (count_speed g)" "outcome UNIV (same_mode g) (count_bytes n g)"
  by (auto simp: count_failed_def count_speed_def count_bytes_def cint_def same_mode_def)

lemma read_reply_frame:
  assumes c: "bench_contract v fds ais"
  shows "outcome UNIV (\<lambda>(ok, g', k'). same_mode g g' \<and> fds k' = fds k) (read_reply n v fd g k)"
proof (induction n arbitrary: g k)
  case (Suc n)
  obtain t k1 where 1: "be_expired v k = (t, k1)" by (cases "be_expired v k")
  obtain d k2 where 2: "s_read (be_sys v) fd 1500 k1 = (d, k2)" by (cases "s_read (be_sys v) fd 1500 k1")
  have f: "fds k1 = fds k" "fds k2 = fds k" using bench_frame(1) [OF c 1] bench_frame(3) [OF c 2] by simp_all
  have more: "outcome UNIV (\<lambda>(ok, g', k'). same_mode g g' \<and> fds k' = fds k) (bind_res (count_bytes m g) (\<lambda>g1.
      if wb_keep_alive g then Inr (True, g1, k2) else read_reply n v fd g1 k2))" for m
  proof (rule safe_bind [OF count_mode(3)])
    fix g1 assume "same_mode g g1"
    then show "outcome UNIV (\<lambda>(ok, g', k'). same_mode g g' \<and> fds k' = fds k) (if wb_keep_alive g then Inr (True, g1, k2) else read_reply n v fd g1 k2)"
      using f safe_mono [OF Suc.IH [of g1 k2]] by (auto simp: same_mode_def)
  qed
  show ?case using 1 2 f more by (auto simp: same_mode_def split: option.splits)
qed simp

lemma exchange_inv:
  assumes c: "bench_contract v fds ais" and D: "0 \<in> D" "-1 \<notin> D" and h: "holds_at D cl (fds k)" and g: "wb_http10 g \<noteq> 0"
  shows "outcome UNIV (pass_inv fds D (wb_keep_alive g)) (exchange n v req g cl k)"
proof -
  note y = bench_frame(5) [OF c]
  obtain w k1 where 1: "s_write (be_sys v) (cl_fd cl) req k = (w, k1)" by (cases "s_write (be_sys v) (cl_fd cl) req k")
  have h1: "holds_at D cl (fds k1)" using bench_frame(2) [OF c 1] h by simp
  have cl: "fds k' = D" if "client_close (be_sys v) cl j = (r, cl', k')" "holds_at D cl (fds j)" for j r cl' k'
    using close_releases [OF y that(2,1)] .
  have sent: "outcome UNIV (pass_inv fds D (wb_keep_alive g)) (bind_res (if wb_force g = 0 then read_reply n v (cl_fd cl) g k1 else Inr (True, g, k1)) (\<lambda>(ok, g1, k3).
            if \<not> ok then
              bind_res (count_failed g1) (\<lambda>g2.
                case client_close (be_sys v) cl k3 of (_, cl1, k4) \<Rightarrow> Inr (NextTry, \<lparr>bs_g = g2, bs_cl = cl1, bs_k = k4\<rparr>))
            else case (if wb_keep_alive g1 then (0, cl, k3) else client_close (be_sys v) cl k3) of (r, cl1, k4) \<Rightarrow>
              bind_res (if r \<noteq> 0 then count_failed g1 else count_speed g1) (\<lambda>g2.
                Inr (Again, \<lparr>bs_g = g2, bs_cl = cl1, bs_k = k4\<rparr>))))"
  proof (rule safe_bind [where Q = "\<lambda>(ok, g', k'). same_mode g g' \<and> fds k' = fds k1"], goal_cases)
    case 1
    then show ?case using read_reply_frame [OF c] by (simp add: same_mode_def)
  next
    case (2 x)
    obtain ok g1 k3 where x: "x = (ok, g1, k3)" by (cases x)
    with 2 have m: "same_mode g g1" and h3: "holds_at D cl (fds k3)" using h1 by simp_all
    have cn: "outcome UNIV (same_mode g) (count_failed g1)" "outcome UNIV (same_mode g) (count_speed g1)"
      using count_mode(1,2) [of g1] m by (auto simp: same_mode_def elim: safe_mono)
    obtain r cl1 k4 where cc: "client_close (be_sys v) cl k3 = (r, cl1, k4)" by (cases "client_close (be_sys v) cl k3")
    show ?case using m h3 g cc cl [OF cc h3] cn
      by (auto simp: x same_mode_def pass_inv_def bench_inv_def intro!: safe_bind [OF cn(1)] safe_bind [OF cn(2)])
  qed
  show ?thesis
  proof (cases "int (length req) = w")
    case True
    then show ?thesis using 1 g sent by (simp add: exchange_def)
  next
    case False
    obtain r cl1 k2 where cc: "client_close (be_sys v) cl k1 = (r, cl1, k2)" by (cases "client_close (be_sys v) cl k1")
    obtain cl2 k3 where ci: "connect_if (wb_keep_alive g) (be_sys v) cl1 k2 = (cl2, k3)" by (cases "connect_if (wb_keep_alive g) (be_sys v) cl1 k2")
    have "if wb_keep_alive g then holds_at D cl2 (fds k3) else fds k3 = D"
      using ci cl [OF cc h1] connect_holds [OF y _ D] by (auto simp: connect_if_def split: if_splits)
    then show ?thesis using False 1 cc ci g
      by (auto simp: exchange_def pass_inv_def bench_inv_def same_mode_def intro!: safe_bind [OF count_mode(1)])
  qed
qed

lemma bench_pass_inv:
  assumes c: "bench_contract v fds ais" and D: "0 \<in> D" "-1 \<notin> D" and i: "bench_inv fds D s"
  shows "outcome UNIV (pass_inv fds D (wb_keep_alive (bs_g s))) (bench_pass n v req s)"
proof -
  note y = bench_frame(5) [OF c]
  obtain t k1 where 1: "be_expired v (bs_k s) = (t, k1)" by (cases "be_expired v (bs_k s)")
  have f: "fds k1 = fds (bs_k s)" using bench_frame(1) [OF c 1] .
  let ?g = "bs_g s"
  show ?thesis
  proof (cases t)
    case True
    with 1 f i show ?thesis by (simp add: bench_pass_def Let_def pass_inv_def bench_inv_def)
  next
    case False
    obtain cl k2 where ci: "connect_if (\<not> wb_keep_alive ?g) (be_sys v) (bs_cl s) k1 = (cl, k2)"
      by (cases "connect_if (\<not> wb_keep_alive ?g) (be_sys v) (bs_cl s) k1")
    have h: "holds_at D cl (fds k2)"
      using i f ci connect_holds [OF y _ D] by (auto simp: connect_if_def bench_inv_def split: if_splits)
    show ?thesis
    proof (cases "cl_fd cl < 0")
      case True
      obtain cl1 k3 where c2: "connect_if (wb_keep_alive ?g) (be_sys v) cl k2 = (cl1, k3)" by (cases "connect_if (wb_keep_alive ?g) (be_sys v) cl k2")
      have "fds k2 = D" using h True by (auto simp: holds_at_def)
      then have "if wb_keep_alive ?g then holds_at D cl1 (fds k3) else fds k3 = D"
        using c2 connect_holds [OF y _ D] by (auto simp: connect_if_def split: if_splits)
      then show ?thesis using True \<open>\<not> t\<close> 1 ci c2 i
        by (auto simp: bench_pass_def Let_def pass_inv_def bench_inv_def same_mode_def intro!: safe_bind [OF count_mode(1)])
    next
      case F: False
      have "wb_http10 ?g \<noteq> 0" using i by (simp add: bench_inv_def)
      with exchange_inv [OF c D h, of ?g n req] False F 1 ci show ?thesis by (simp add: bench_pass_def Let_def)
    qed
  qed
qed

lemma next_try_inv:
  assumes c: "bench_contract v fds ais" and D: "0 \<in> D" "-1 \<notin> D" and s: "fds (bs_k s) = D" "wb_http10 (bs_g s) \<noteq> 0"
  shows "bench_inv fds D (next_try v s)" "bs_g (next_try v s) = bs_g s"
proof -
  obtain cl k where ci: "connect_if (wb_keep_alive (bs_g s)) (be_sys v) (bs_cl s) (bs_k s) = (cl, k)"
    by (cases "connect_if (wb_keep_alive (bs_g s)) (be_sys v) (bs_cl s) (bs_k s)")
  show "bench_inv fds D (next_try v s)"
    using ci s connect_holds [OF bench_frame(5) [OF c] s(1) D] by (auto simp: next_try_def bench_inv_def connect_if_def split: if_splits)
  show "bs_g (next_try v s) = bs_g s" using ci by (simp add: next_try_def)
qed

lemma bench_loop_inv:
  assumes c: "bench_contract v fds ais" and D: "0 \<in> D" "-1 \<notin> D"
  shows "bench_inv fds D s \<Longrightarrow> outcome UNIV (\<lambda>s'. bench_inv fds D s' \<and> wb_keep_alive (bs_g s') = wb_keep_alive (bs_g s)) (bench_loop m n v req s)"
proof (induction m arbitrary: s)
  case (Suc m)
  show ?case unfolding bench_loop.simps
  proof (rule safe_bind [OF bench_pass_inv [OF c D Suc.prems]], clarify)
    fix p s1 assume p: "pass_inv fds D (wb_keep_alive (bs_g s)) (p, s1)"
    show "outcome UNIV (\<lambda>s'. bench_inv fds D s' \<and> wb_keep_alive (bs_g s') = wb_keep_alive (bs_g s))
       (case p of Leave \<Rightarrow> Inr s1 | Again \<Rightarrow> bench_loop m n v req s1 | NextTry \<Rightarrow> bench_loop m n v req (next_try v s1))"
      using p Suc.IH [of s1] Suc.IH [of "next_try v s1"] next_try_inv [OF c D, of s1] by (cases p) (simp_all add: pass_inv_def)
  qed
qed simp

section \<open>The end of the loop\<close>

text \<open>
  The alarm rings: \<open>T\<close> bounds how often the flag is still seen unset; every look uses one up, and no call gives any back.
\<close>

definition alarm_rings :: "('k, 'a) bench_env \<Rightarrow> ('k \<Rightarrow> nat) \<Rightarrow> bool" where
  "alarm_rings v T =
     ((\<forall>k. T (snd (be_expired v k)) \<le> T k \<and> (fst (be_expired v k) \<or> T (snd (be_expired v k)) < T k)) \<and>
      (\<forall>cl k. T (snd (client_connect (be_sys v) cl k)) \<le> T k) \<and> (\<forall>cl k. T (snd (snd (client_close (be_sys v) cl k))) \<le> T k) \<and>
      (\<forall>fd s k. T (snd (s_write (be_sys v) fd s k)) \<le> T k) \<and> (\<forall>fd n k. T (snd (s_read (be_sys v) fd n k)) \<le> T k) \<and>
      (\<forall>fd h k. T (snd (s_shutdown (be_sys v) fd h k)) \<le> T k))"

lemma alarm_steps:
  assumes "alarm_rings v T"
  shows "be_expired v k = (t, k1) \<Longrightarrow> T k1 \<le> T k \<and> (t \<or> T k1 < T k)"
    and "s_write (be_sys v) fd req k = (w, k1) \<Longrightarrow> T k1 \<le> T k"
    and "s_read (be_sys v) fd n k = (d, k1) \<Longrightarrow> T k1 \<le> T k"
    and "s_shutdown (be_sys v) fd h k = (w, k1) \<Longrightarrow> T k1 \<le> T k"
    and "client_close (be_sys v) cl k = (r, cl', k1) \<Longrightarrow> T k1 \<le> T k"
    and "connect_if b (be_sys v) cl k = (cl', k1) \<Longrightarrow> T k1 \<le> T k"
  using assms unfolding alarm_rings_def connect_if_def by (metis snd_conv fst_conv order_refl prod.inject)+

lemma count_back: "outcome (- {NoReturn}) (\<lambda>_. True) (count_failed g)" "outcome (- {NoReturn}) (\<lambda>_. True) (count_speed g)"
  "outcome (- {NoReturn}) (\<lambda>_. True) (count_bytes n g)"
  by (simp_all add: count_failed_def count_speed_def count_bytes_def cint_def)

text \<open>No call waits for ever: the server takes what is sent, and answers or closes.\<close>

definition server_responds :: "('k, 'a) bench_env \<Rightarrow> bool" where
  "server_responds v = ((\<forall>fd k. \<not> be_silent v fd k) \<and> (\<forall>fd s k. \<not> be_full v fd s k))"

lemma read_reply_back:
  assumes a: "alarm_rings v T" and b: "server_responds v"
  shows "T k < n \<Longrightarrow> outcome (- {NoReturn}) (\<lambda>(ok, g', k'). T k' \<le> T k) (read_reply n v fd g k)"
proof (induction n arbitrary: g k)
  case (Suc n)
  obtain t k1 where 1: "be_expired v k = (t, k1)" by (cases "be_expired v k")
  obtain d k2 where 2: "s_read (be_sys v) fd 1500 k1 = (d, k2)" by (cases "s_read (be_sys v) fd 1500 k1")
  have le: "T k1 \<le> T k" "T k2 \<le> T k" "\<not> t \<Longrightarrow> T k2 < T k"
    using alarm_steps(1) [OF a 1] alarm_steps(3) [OF a 2] by auto
  have more: "\<not> t \<Longrightarrow> outcome (- {NoReturn}) (\<lambda>(ok, g', k'). T k' \<le> T k) (bind_res (count_bytes m g) (\<lambda>g1.
      if wb_keep_alive g then Inr (True, g1, k2) else read_reply n v fd g1 k2))" for m
  proof (rule safe_bind [OF count_back(3)])
    fix g1 assume "\<not> t"
    then have "outcome (- {NoReturn}) (\<lambda>(ok, g', k'). T k' \<le> T k2) (read_reply n v fd g1 k2)" using Suc.IH [of k2 g1] Suc.prems le(3) by simp
    then have "outcome (- {NoReturn}) (\<lambda>(ok, g', k'). T k' \<le> T k) (read_reply n v fd g1 k2)" using le(2) by (auto elim!: safe_mono)
    then show "outcome (- {NoReturn}) (\<lambda>(ok, g', k'). T k' \<le> T k) (if wb_keep_alive g then Inr (True, g1, k2) else read_reply n v fd g1 k2)"
      using le(2) by simp
  qed
  show ?case using 1 2 le more b by (auto simp: server_responds_def split: option.splits)
qed simp

lemma exchange_back:
  assumes a: "alarm_rings v T" and b: "server_responds v" and n: "T k < n"
  shows "outcome (- {NoReturn}) (\<lambda>(p, s'). T (bs_k s') \<le> T k) (exchange n v req g cl k)"
proof -
  obtain w k1 where 1: "s_write (be_sys v) (cl_fd cl) req k = (w, k1)" by (cases "s_write (be_sys v) (cl_fd cl) req k")
  obtain sh k2 where 2: "(if wb_http10 g = 0 then s_shutdown (be_sys v) (cl_fd cl) SHUT_WR k1 else (0, k1)) = (sh, k2)" by fastforce
  have le: "T k1 \<le> T k" "T k2 \<le> T k"
    using alarm_steps(2) [OF a 1] alarm_steps(4) [OF a, of "cl_fd cl" SHUT_WR k1] 2 by (auto split: if_splits intro: order_trans)
  have cl: "T k' \<le> T k" if "client_close (be_sys v) cl' j = (r, cl'', k')" "T j \<le> T k" for cl' j r cl'' k'
    using alarm_steps(5) [OF a that(1)] that(2) by simp
  have ci: "T k' \<le> T k" if "client_close (be_sys v) cl k1 = (r, cl', j)" "connect_if b (be_sys v) cl' j = (cl'', k')" for b cl' j cl'' k' r
    using alarm_steps(6) [OF a that(2)] cl [OF that(1) le(1)] by simp
  have rd: "outcome (- {NoReturn}) (\<lambda>(ok, g', k'). T k' \<le> T k) (if wb_force g = 0 then read_reply n v (cl_fd cl) g k2 else Inr (True, g, k2))"
    using read_reply_back [OF a b, of k2 n "cl_fd cl" g] le(2) n by (auto elim!: safe_mono)
  have reply: "outcome (- {NoReturn}) (\<lambda>(p, s'). T (bs_k s') \<le> T k) (bind_res (if wb_force g = 0 then read_reply n v (cl_fd cl) g k2 else Inr (True, g, k2)) (\<lambda>(ok, g1, k3).
            if \<not> ok then
              bind_res (count_failed g1) (\<lambda>g2.
                case client_close (be_sys v) cl k3 of (_, cl1, k4) \<Rightarrow> Inr (NextTry, \<lparr>bs_g = g2, bs_cl = cl1, bs_k = k4\<rparr>))
            else case (if wb_keep_alive g1 then (0, cl, k3) else client_close (be_sys v) cl k3) of (r, cl1, k4) \<Rightarrow>
              bind_res (if r \<noteq> 0 then count_failed g1 else count_speed g1) (\<lambda>g2.
                Inr (Again, \<lparr>bs_g = g2, bs_cl = cl1, bs_k = k4\<rparr>))))"
    by (rule safe_bind [OF rd])
      (auto intro!: safe_bind [OF count_back(1)] safe_bind [OF count_back(2)] split: prod.splits dest: cl)
  have "\<not> be_full v (cl_fd cl) req k" using b by (simp add: server_responds_def)
  then show ?thesis unfolding exchange_def 1 2 prod.case
    using reply le by (auto intro!: safe_bind [OF count_back(1)] split: prod.splits dest: cl ci)
qed

lemma bench_pass_back:
  assumes a: "alarm_rings v T" and b: "server_responds v" and n: "T (bs_k s) < n"
  shows "outcome (- {NoReturn}) (\<lambda>(p, s'). p = Leave \<or> T (bs_k s') < T (bs_k s)) (bench_pass n v req s)"
proof -
  obtain t k1 where 1: "be_expired v (bs_k s) = (t, k1)" by (cases "be_expired v (bs_k s)")
  obtain cl k2 where 2: "connect_if (\<not> wb_keep_alive (bs_g s)) (be_sys v) (bs_cl s) k1 = (cl, k2)"
    by (cases "connect_if (\<not> wb_keep_alive (bs_g s)) (be_sys v) (bs_cl s) k1")
  have lt: "\<not> t \<Longrightarrow> T k2 < T (bs_k s)" using alarm_steps(1) [OF a 1] alarm_steps(6) [OF a 2] by simp
  have ci: "T k' < T (bs_k s)" if "\<not> t" "connect_if b (be_sys v) cl k2 = (cl'', k')" for b cl'' k'
    using alarm_steps(6) [OF a that(2)] lt that(1) by simp
  have ex: "\<not> t \<Longrightarrow> outcome (- {NoReturn}) (\<lambda>(p, s'). p = Leave \<or> T (bs_k s') < T (bs_k s)) (exchange n v req (bs_g s) cl k2)"
    using exchange_back [OF a b, of k2 n req "bs_g s" cl] lt n by (auto elim!: safe_mono)
  show ?thesis using 1 2 ex
    by (auto simp: bench_pass_def Let_def intro!: safe_bind [OF count_back(1)] split: prod.splits dest: ci)
qed

lemma bench_loop_back:
  fixes s :: "'k bench_state"
  assumes a: "alarm_rings v T" and b: "server_responds v"
  shows "T (bs_k s) < n \<Longrightarrow> T (bs_k s) < m \<Longrightarrow> outcome (- {NoReturn}) (\<lambda>_. True) (bench_loop m n v req s)"
proof (induction m arbitrary: s)
  case (Suc m)
  show ?case unfolding bench_loop.simps
  proof (rule safe_bind [OF bench_pass_back [OF a b Suc.prems(1)]], clarify)
    fix p and s1 :: "'k bench_state" assume p: "p = Leave \<or> T (bs_k s1) < T (bs_k s)"
    have nt: "T (bs_k (next_try v s1)) \<le> T (bs_k s1)"
      using alarm_steps(6) [OF a, of "wb_keep_alive (bs_g s1)" "bs_cl s1" "bs_k s1"] by (simp add: next_try_def split: prod.splits)
    show "outcome (- {NoReturn}) (\<lambda>_. True)
       (case p of Leave \<Rightarrow> Inr s1 | Again \<Rightarrow> bench_loop m n v req s1 | NextTry \<Rightarrow> bench_loop m n v req (next_try v s1))"
      using p nt Suc.prems Suc.IH [of s1] Suc.IH [of "next_try v s1"] by (cases p) auto
  qed
qed simp

section \<open>Properties\<close>


text \<open>
  A silent server stops the benchmark for ever: when the client can connect and write its request and the server
  neither answers nor closes, the process never comes back. The alarm, which has not rung when the client starts to read, does not
  help: the restarted \<open>read\<close> does not look at \<open>timerexpired\<close> again.
\<close>

theorem silent_server_hangs:
  assumes alarm: "\<And>k. fst (be_expired v k) = False" and g: "wb_force g = 0" "wb_http10 g \<noteq> 0" "\<not> wb_keep_alive g"
    and req: "c_string (wb_request g) = Inr req"
    and conn: "\<And>cl k. 0 \<le> cl_fd (fst (client_connect (be_sys v) cl k))"
    and written: "\<And>fd k. fst (s_write (be_sys v) fd req k) = int (length req)" and silent: "\<And>fd k. be_silent v fd k"
  shows "benchcore m n v g k = Inl NoReturn"
proof (cases m)
  case (Suc m')
  have nt: "next_try v \<lparr>bs_g = g, bs_cl = c, bs_k = k\<rparr> = \<lparr>bs_g = g, bs_cl = c, bs_k = k\<rparr>" for c k
    using g(3) by (simp add: next_try_def connect_if_def)
  have r: "read_reply n v fd g k = Inl NoReturn" for fd k
    using alarm [of k] silent by (cases n; cases "be_expired v k") simp_all
  have x: "exchange n v req g cl k = Inl NoReturn" for cl k
    using written [of "cl_fd cl" k] g r by (cases "s_write (be_sys v) (cl_fd cl) req k") (simp add: exchange_def)
  have "bench_pass n v req \<lparr>bs_g = g, bs_cl = c, bs_k = k\<rparr> = Inl NoReturn" for c k
    using alarm [of k] conn [of c "snd (be_expired v k)"] g(3) x
    by (cases "be_expired v k") (auto simp: bench_pass_def Let_def connect_if_def split: prod.split)
  then show ?thesis using req Suc nt by (simp add: benchcore_def)
qed (use req in \<open>simp add: benchcore_def\<close>)

text \<open>C35. A client process of the benchmark ends and leaves nothing open, provided that the server takes what is sent and
  answers or closes whenever the client reads (\<open>server_responds\<close>; without it \<open>silent_server_hangs\<close>): if only finitely many looks at the flag
  come before the alarm (\<open>alarm_rings\<close>), the loop ends with any fuel above that number, whatever the calls return; then no descriptor is
  open that was not open before, but the client's own one in keep-alive mode. (The variable \<open>http10\<close> is 1 from the start; no option sets it to 0.)\<close>

theorem bench_ends_clean:
  assumes c: "bench_contract v fds ais" and a: "alarm_rings v T" and b: "server_responds v"
    and k: "0 \<in> fds k" "-1 \<notin> fds k" and g: "wb_http10 g \<noteq> 0"
    and fuel: "T k < n" "T k < m"
  shows "case benchcore m n v g k of
      Inl f \<Rightarrow> f \<noteq> NoReturn
    | Inr s \<Rightarrow> fds (bs_k s) = (if wb_keep_alive g \<and> 0 < cl_fd (bs_cl s) then insert (cl_fd (bs_cl s)) (fds k) else fds k)"
proof (cases "c_string (wb_request g)")
  case (Inl f)
  then show ?thesis by (auto simp: benchcore_def c_string_def split: if_splits)
next
  case (Inr req)
  let ?s0 = "\<lparr>bs_g = g, bs_cl = client_new (wb_host g) (wb_port g), bs_k = k\<rparr>"
  have i: "bench_inv fds (fds k) (next_try v ?s0)" "bs_g (next_try v ?s0) = g"
    using next_try_inv [OF c k, of ?s0] g by simp_all
  have t: "T (bs_k (next_try v ?s0)) \<le> T k"
    using alarm_steps(6) [OF a, of "wb_keep_alive g" "client_new (wb_host g) (wb_port g)" k] by (simp add: next_try_def split: prod.splits)
  have "outcome (- {NoReturn}) (\<lambda>_. True) (bench_loop m n v req (next_try v ?s0))"
    using bench_loop_back [OF a b, where s = "next_try v ?s0" and n = n and m = m and req = req] t fuel by simp
  moreover have "outcome UNIV (\<lambda>s'. bench_inv fds (fds k) s' \<and> wb_keep_alive (bs_g s') = wb_keep_alive g) (bench_loop m n v req (next_try v ?s0))"
    using bench_loop_inv [OF c k i(1), of m n req] i(2) by simp
  ultimately show ?thesis using Inr
    by (cases "bench_loop m n v req (next_try v ?s0)"; cases "wb_keep_alive g") (auto simp only: benchcore_def bench_inv_def holds_at_def
      bind_res.simps safe_simps sum.case if_True if_False simp_thms Compl_iff singleton_iff neg_0_less_iff_less less_numeral_extra)
qed

text \<open>All children started: the loop ends with their number and the last process id.\<close>

lemma fork_all: "\<forall>p \<in> set pids. 0 < p \<Longrightarrow> 0 < pid \<or> pids \<noteq> [] \<Longrightarrow> \<exists>q. fork_loop i (i + int (length pids)) pid pids = Inr (i + int (length pids), q) \<and> 0 < q"
proof (induction pids arbitrary: i pid)
  case (Cons p ps)
  from Cons.IH [of p "i + 1"] Cons.prems(1) show ?case by (simp add: add.assoc)
qed simp

declare fork_loop.simps [simp del] bench_collect.simps [simp del]

text \<open>C36. The parent's totals are exact: when every child was started and reported, they are the sums over the
  children of what each one counted, and reading stops with the last of them. The value returned, which becomes the exit
  status of the program, is the number of pages of the child that reported last.\<close>

theorem bench_totals_exact:
  assumes connected: "client_connect (be_sys v) (client_new (wb_host g) (wb_port g)) k = (cl, k1)" "0 \<le> cl_fd cl"
    and system: "bi_pipe i" "bi_fdopen i" "\<forall>p \<in> set (bi_forks i). 0 < p" "int (length (bi_forks i)) = wb_clients g"
    and reports: "bi_scans i = rs @ rest" "length rs = length (bi_forks i)" "rs \<noteq> []" "\<forall>r \<in> set rs. report_ok r"
    and range: "wb_clients g \<le> INT_MAX" "total 0 rs \<le> INT_MAX" "total 1 rs \<le> INT_MAX" "total 2 rs \<le> INT_MAX"
  shows "\<exists>g' k'. bench m n v i g k = Inr (last rs ! 0, None, g', k')
    \<and> wb_speed g' = total 0 rs \<and> wb_failed g' = total 1 rs \<and> wb_bytes g' = total 2 rs \<and> wb_clients g' = 0"
proof -
  obtain r cl1 k2 where cc: "client_close (be_sys v) cl k1 = (r, cl1, k2)" by (cases "client_close (be_sys v) cl k1")
  have "bi_forks i \<noteq> []" using reports(2,3) by auto
  with fork_all [OF system(3), of 0 0] obtain q where f: "fork_loop 0 (wb_clients g) 0 (bi_forks i) = Inr (wb_clients g, q)" "0 < q"
    using system(4) by auto
  let ?g = "g\<lparr>wb_speed := 0, wb_failed := 0, wb_bytes := 0\<rparr>"
  have "bench_collect (rs @ rest) (wb_clients g) None ?g = Inr (last rs ! 0, ?g\<lparr>wb_speed := wb_speed ?g + total 0 rs,
    wb_failed := wb_failed ?g + total 1 rs, wb_bytes := wb_bytes ?g + total 2 rs, wb_clients := 0\<rparr>)"
    by (rule collect_totals) (use reports system(4) range in auto)
  then show ?thesis using connected system(1,2) reports(1) cc f by (simp add: bench_def)
qed

section \<open>Examples\<close>

text \<open>
  A kernel with the looks left before the alarm, the open descriptors and the address lists; the
  server takes every request and closes the connection.
\<close>

definition ex_bench :: "(nat \<times> int list \<times> nat list, nat) bench_env" where
  "ex_bench = \<lparr>be_sys =
     \<lparr>s_write = (\<lambda>fd s k. (int (length s), k)), s_eventfd = (\<lambda>k. (-1, k)), s_fcntl = (\<lambda>fd c k. (0, k)), s_setsockopt = (\<lambda>fd p k. (0, k)),
      s_getsockopt = (\<lambda>fd p k. ((-1, 0), k)), s_socketpair = (\<lambda>k. (None, k)),
      s_socket = (\<lambda>c (t, l, a). (fresh_fd l, t, fresh_fd l # l, a)), s_close = (\<lambda>fd (t, l, a). (0, t, filter (\<lambda>x. x \<noteq> fd) l, a)),
      s_bind = (\<lambda>fd a k. (0, k)), s_connect = (\<lambda>fd a k. (0, k)), s_listen = (\<lambda>fd n k. (0, k)), s_accept = (\<lambda>fd k. ((-1, 0), k)),
      s_getnameinfo = (\<lambda>a k. (None, k)), s_getaddrinfo = (\<lambda>n p (t, l, a). (Some (Suc (sum_list a), 0), t, l, Suc (sum_list a) # a)),
      s_freeaddrinfo = (\<lambda>h (t, l, a). (t, l, filter (\<lambda>x. x \<noteq> h) a)), s_inet = (\<lambda>n p. 0), s_shutdown = (\<lambda>fd h k. (0, k)),
      s_read = (\<lambda>fd n k. (Some [], k))\<rparr>,
   be_expired = (\<lambda>(t, x). (t = 0, t - 1, x)), be_silent = (\<lambda>fd k. False), be_full = (\<lambda>fd s k. False)\<rparr>"

lemma ex_bench_contract: "bench_contract ex_bench (\<lambda>k. set (fst (snd k))) (\<lambda>k. set (snd (snd k)))"
proof -
  have "Suc (sum_list a) \<notin> set a" for a :: "nat list" using member_le_sum_list [of _ a] by fastforce
  with fresh_fd show ?thesis unfolding bench_contract_def sys_contract_def Let_def ex_bench_def by (auto simp: order.strict_iff_not)
qed

lemma ex_bench_alarm: "alarm_rings ex_bench fst"
  by (auto simp: alarm_rings_def ex_bench_def client_connect_def client_close_def tcp_connect_def get_socket_def connect_fd_def tcp_getaddrinfo_def
      split: prod.splits)

definition ex_wb :: wb where
  "ex_wb = \<lparr>wb_speed = 0, wb_failed = 0, wb_bytes = 0, wb_http10 = 1, wb_method = 0, wb_clients = 2, wb_force = 0, wb_reload = 0,
     wb_benchtime = 30, wb_keep_alive = False, wb_host = ''localhost'', wb_port = 80, wb_request = ''GET / HTTP/1.1'' @ [CR, LF, CR, LF, NUL],
     wb_req = empty_request\<rparr>"

lemma ex_bench_responds: "server_responds ex_bench"
  by (simp add: server_responds_def ex_bench_def)

theorem bench_ends_clean_witness:
  "case benchcore 10 10 ex_bench ex_wb (3, [0, 1, 2], []) of Inl f \<Rightarrow> f \<noteq> NoReturn | Inr s \<Rightarrow> set (fst (snd (bs_k s))) = {0, 1, 2}"
  using bench_ends_clean [OF ex_bench_contract ex_bench_alarm ex_bench_responds, of "(3, [0, 1, 2], [])" ex_wb 10 10]
  by (simp add: ex_wb_def split: sum.splits)

theorem bench_totals_exact_witness:
  "\<exists>g' k'. bench 5 5 ex_bench \<lparr>bi_pipe = True, bi_forks = [101, 102], bi_fdopen = True, bi_scans = [[7, 0, 700], [5, 1, 500]]\<rparr> ex_wb (3, [0, 1, 2], [])
      = Inr (5, None, g', k')
    \<and> wb_speed g' = 12 \<and> wb_failed g' = 1 \<and> wb_bytes g' = 1200 \<and> wb_clients g' = 0"
proof -
  let ?i = "\<lparr>bi_pipe = True, bi_forks = [101, 102], bi_fdopen = True, bi_scans = [[7, 0, 700], [5, 1, 500]]\<rparr>"
  obtain cl k1 where c: "client_connect (be_sys ex_bench) (client_new (wb_host ex_wb) (wb_port ex_wb)) (3, [0, 1, 2], []) = (cl, k1)" "0 \<le> cl_fd cl"
    by (simp add: client_connect_def client_new_def tcp_connect_def get_socket_def connect_fd_def tcp_getaddrinfo_def ex_bench_def fresh_fd_def)
  show ?thesis
    using bench_totals_exact [OF c, of ?i "[[7, 0, 700], [5, 1, 500]]" "[]"] by (simp add: ex_wb_def report_ok_def INT_MAX_def)
qed

lemma ex_url: "wb_url ''http://localhost:8080'' g = Inr (Inr (g\<lparr>wb_host := ''localhost'', wb_port := 8080\<rparr>))"
proof -
  have "stoi ''8080'' = Inr 8080" by code_simp
  then show ?thesis by (simp add: wb_url_def)
qed


end
