(* ===== verification/Libio_Signal.thy ===== *)
theory Libio_Signal
  imports Libio_Map
begin

text \<open>
  The signal dispatcher of \<open>src/core/signal.hh\<close>: the static map of callbacks, the signal set, and the
  \<open>sigaction\<close> structure it passes to the kernel. The two system calls are a record of functions on a
  kernel state; what a callback does is an argument. The messages printed when a call fails are left out.
\<close>

section \<open>The dispatcher\<close>

text \<open>\<open>struct sigaction\<close>: whether the handler is \<open>__handler\<close>, the mask, and \<open>SA_RESTART\<close>.\<close>

record sigact =
  sa_own :: bool
  sa_mask :: "int set"
  sa_restart :: bool

datatype mask_how = SIG_BLOCK | SIG_UNBLOCK

text \<open>\<open>sigaction\<close> with the null pointer for the new action is \<open>None\<close>.\<close>

record 'k sigsys =
  g_action :: "int \<Rightarrow> sigact option \<Rightarrow> 'k \<Rightarrow> int \<times> 'k"
  g_procmask :: "mask_how \<Rightarrow> int set \<Rightarrow> 'k \<Rightarrow> int \<times> 'k"

text \<open>A callback that \<open>operator[]\<close> has inserted is an empty \<open>std::function\<close>.\<close>

record ('cb, 'k) sigs =
  callback :: "(int, 'cb option \<times> bool) smap"
  sigmask :: "int set"
  sg_sa :: sigact
  sg_kernel :: 'k

definition sig_init :: "('cb, 'k) sigs \<Rightarrow> ('cb, 'k) sigs" where
  "sig_init s = s\<lparr>sigmask := {}, sg_sa := \<lparr>sa_own = True, sa_mask = {}, sa_restart = True\<rparr>\<rparr>"

text \<open>The global object \<open>s\<close> of the header.\<close>

definition sig_new :: "'k \<Rightarrow> ('cb, 'k) sigs" where
  "sig_new k = sig_init \<lparr>callback = [], sigmask = {}, sg_sa = \<lparr>sa_own = False, sa_mask = {}, sa_restart = False\<rparr>, sg_kernel = k\<rparr>"

definition sig_put_flag :: "bool \<Rightarrow> int \<Rightarrow> ('cb, 'k) sigs \<Rightarrow> ('cb, 'k) sigs" where
  "sig_put_flag v sig s =
     (if smap_count sig (callback s)
      then case smap_index (None, False) sig (callback s) of ((f, _), m) \<Rightarrow> s\<lparr>callback := smap_set sig (f, v) m\<rparr>
      else s)"

definition sig_set_persistent :: "int \<Rightarrow> ('cb, 'k) sigs \<Rightarrow> ('cb, 'k) sigs" where
  "sig_set_persistent = sig_put_flag True"

definition sig_set_unpersistent :: "int \<Rightarrow> ('cb, 'k) sigs \<Rightarrow> ('cb, 'k) sigs" where
  "sig_set_unpersistent = sig_put_flag False"

definition sig_set_handler :: "'k sigsys \<Rightarrow> int \<Rightarrow> bool \<Rightarrow> 'cb \<Rightarrow> ('cb, 'k) sigs \<Rightarrow> ('cb, 'k) sigs" where
  "sig_set_handler y sig persistent f s =
     (let mask = insert sig (sigmask s);
          sa = (sg_sa s)\<lparr>sa_mask := mask\<rparr> in
      s\<lparr>callback := smap_set sig (Some f, persistent) (callback s), sigmask := mask, sg_sa := sa,
        sg_kernel := snd (g_action y sig (Some sa) (sg_kernel s))\<rparr>)"

text \<open>\<open>SIG_DFL\<close> is 0, so the cast makes a null pointer of it.\<close>

definition sig_remove :: "'k sigsys \<Rightarrow> int \<Rightarrow> ('cb, 'k) sigs \<Rightarrow> ('cb, 'k) sigs" where
  "sig_remove y sig s =
     (if smap_count sig (callback s)
      then s\<lparr>sigmask := sigmask s - {sig}, callback := smap_erase sig (callback s),
             sg_kernel := snd (g_action y sig None (sg_kernel s))\<rparr>
      else s)"

definition sig_block :: "'k sigsys \<Rightarrow> ('cb, 'k) sigs \<Rightarrow> ('cb, 'k) sigs" where
  "sig_block y s = s\<lparr>sg_kernel := snd (g_procmask y SIG_BLOCK (sigmask s) (sg_kernel s))\<rparr>"

definition sig_unblock :: "'k sigsys \<Rightarrow> ('cb, 'k) sigs \<Rightarrow> ('cb, 'k) sigs" where
  "sig_unblock y s = s\<lparr>sg_kernel := snd (g_procmask y SIG_UNBLOCK (sigmask s) (sg_kernel s))\<rparr>"

text \<open>\<open>__handler\<close>. The callback sees and may change the dispatcher.\<close>

type_synonym ('cb, 'k, 'w) sexec = "'cb \<Rightarrow> 'w \<times> ('cb, 'k) sigs \<Rightarrow> ('w \<times> ('cb, 'k) sigs) res"

definition sig_handler :: "'k sigsys \<Rightarrow> ('cb, 'k, 'w) sexec \<Rightarrow> int \<Rightarrow> 'w \<times> ('cb, 'k) sigs \<Rightarrow> ('w \<times> ('cb, 'k) sigs) res" where
  "sig_handler y exec sig ws =
     (if \<not> smap_count sig (callback (snd ws)) then Inr ws
      else
        case smap_index (None, False) sig (callback (snd ws)) of
          ((None, _), _) \<Rightarrow> Inl BadFunction
        | ((Some f, _), m) \<Rightarrow>
            bind_res (exec f (fst ws, (snd ws)\<lparr>callback := m\<rparr>)) (\<lambda>(w1, s1).
              case smap_index (None, False) sig (callback s1) of
                ((_, persistent), m1) \<Rightarrow>
                  let s2 = s1\<lparr>callback := m1\<rparr> in
                  Inr (w1, if persistent then s2 else sig_remove y sig s2)))"

section \<open>Deliveries\<close>

text \<open>
  What the two calls promise: a successful \<open>sigaction\<close> with an action installs it for that signal and
  no other, a call without one or a failed one changes nothing; masks do not touch the actions.
\<close>

definition sig_contract :: "'k sigsys \<Rightarrow> ('k \<Rightarrow> int \<Rightarrow> sigact option) \<Rightarrow> bool" where
  "sig_contract y disp =
     ((\<forall>sig k. disp (snd (g_action y sig None k)) = disp k) \<and>
      (\<forall>sig a k. disp (snd (g_action y sig (Some a) k)) =
         (if fst (g_action y sig (Some a) k) = -1 then disp k else (disp k)(sig := Some a))) \<and>
      (\<forall>h m k. disp (snd (g_procmask y h m k)) = disp k))"

fun deliver :: "'k sigsys \<Rightarrow> ('cb, 'k, 'w) sexec \<Rightarrow> int \<Rightarrow> nat \<Rightarrow> 'w \<times> ('cb, 'k) sigs \<Rightarrow> ('w \<times> ('cb, 'k) sigs) res" where
  "deliver y exec sig 0 ws = Inr ws"
| "deliver y exec sig (Suc n) ws = bind_res (sig_handler y exec sig ws) (deliver y exec sig n)"

lemma deliver_ignored: "\<not> smap_count sig (callback s) \<Longrightarrow> deliver y exec sig n (w, s) = Inr (w, s)"
  by (induction n) (simp_all add: sig_handler_def)

lemma handler_runs:
  assumes "smap_find sig (callback s) = Some (Some f, p)" and "\<And>w. exec f (w, s) = Inr (g w, s)"
  shows "sig_handler y exec sig (w, s) = Inr (g w, if p then s else sig_remove y sig s)"
  using assms by (simp add: sig_handler_def smap_count_def smap_index_def Let_def)

lemma deliver_persistent:
  assumes "smap_find sig (callback s) = Some (Some f, True)" and "\<And>w. exec f (w, s) = Inr (g w, s)"
  shows "deliver y exec sig n (w, s) = Inr ((g ^^ n) w, s)"
proof -
  have "sig_handler y exec sig (w, s) = Inr (g w, s)" for w using handler_runs [of sig s f True exec g y w] assms by simp
  then show ?thesis by (induction n arbitrary: w) (simp_all add: funpow_swap1)
qed

lemma remove_disp: "sig_contract y disp \<Longrightarrow> disp (sg_kernel (sig_remove y sig s)) = disp (sg_kernel s)"
  by (simp add: sig_remove_def sig_contract_def)

lemma remove_gone: "smap_ok (callback s) \<Longrightarrow> \<not> smap_count sig (callback (sig_remove y sig s))"
  by (simp add: sig_remove_def smap_count_def smap_find_erase)

section \<open>Properties\<close>

text \<open>C29.
  A callback set for a signal runs at every delivery when it is persistent, and otherwise at the first
  one only: of \<open>n\<close> deliveries, all or at most one run it, whatever else is registered. But \<open>remove\<close>
  does not give the signal its default action back, because the null pointer it passes leaves the
  action as it is: the dispatcher stays installed and the signal is ignored from then on. The callback
  leaves the dispatcher alone, and \<open>sigaction\<close> accepts the signal.
\<close>
theorem signal_deliveries:
  assumes c: "sig_contract y disp" and ok: "smap_ok (callback s)" and own: "sa_own (sg_sa s)"
    and run: "\<And>w s. exec f (w, s) = Inr (g w, s)"
    and acc: "fst (g_action y sig (Some ((sg_sa s)\<lparr>sa_mask := insert sig (sigmask s)\<rparr>)) (sg_kernel s)) \<noteq> -1"
  shows "\<exists>s'. deliver y exec sig n (w, sig_set_handler y sig p f s) = Inr ((g ^^ (if p then n else min n 1)) w, s')
    \<and> (\<exists>a. disp (sg_kernel s') sig = Some a \<and> sa_own a) \<and> smap_count sig (callback s') = (p \<or> n = 0)"
proof -
  let ?s = "sig_set_handler y sig p f s"
  have f: "smap_find sig (callback ?s) = Some (Some f, p)" by (simp add: sig_set_handler_def Let_def smap_find_set)
  have d: "disp (sg_kernel ?s) sig = Some ((sg_sa s)\<lparr>sa_mask := insert sig (sigmask s)\<rparr>)"
    using c acc by (simp add: sig_set_handler_def Let_def sig_contract_def)
  have ok': "smap_ok (callback ?s)" using ok by (simp add: sig_set_handler_def Let_def smap_ok_set)
  show ?thesis
  proof (cases n)
    case 0
    then show ?thesis using d own f by (simp add: smap_count_def)
  next
    case (Suc m)
    show ?thesis
    proof (cases p)
      case True
      then show ?thesis using deliver_persistent [of sig ?s f exec g y n w] f run d own
        by (intro exI [of _ ?s]) (auto simp: smap_count_def)
    next
      case False
      have h: "sig_handler y exec sig (w, ?s) = Inr (g w, sig_remove y sig ?s)" using handler_runs [of sig ?s f p exec g y w] f run False by simp
      have gone: "\<not> smap_count sig (callback (sig_remove y sig ?s))" using remove_gone [OF ok'] by simp
      have "deliver y exec sig m (g w, sig_remove y sig ?s) = Inr (g w, sig_remove y sig ?s)" by (rule deliver_ignored [OF gone])
      then show ?thesis using Suc False h d own gone
        by (intro exI [of _ "sig_remove y sig ?s"]) (simp add: remove_disp [OF c])
    qed
  qed
qed

text \<open>A kernel that keeps the actions in a map and accepts every signal.\<close>

definition ex_sigsys :: "(int, sigact) smap sigsys" where
  "ex_sigsys = \<lparr>g_action = (\<lambda>sig a k. (0, case a of None \<Rightarrow> k | Some x \<Rightarrow> smap_set sig x k)), g_procmask = (\<lambda>h m k. (0, k))\<rparr>"

lemma ex_sigsys_contract: "sig_contract ex_sigsys (\<lambda>k sig. smap_find sig k)"
  by (auto simp: sig_contract_def ex_sigsys_def smap_find_set fun_eq_iff)

theorem signal_deliveries_witness:
  "\<exists>s'. deliver ex_sigsys (\<lambda>f (w, s). Inr (w + f, s)) 17 3 (0, sig_set_handler ex_sigsys 17 False (5 :: nat) (sig_new [])) = Inr (5, s')
    \<and> \<not> smap_count 17 (callback s') \<and> (\<exists>a. smap_find 17 (sg_kernel s') = Some a \<and> sa_own a)"
  using signal_deliveries [OF ex_sigsys_contract, of "sig_new []" "\<lambda>f (w, s). Inr (w + f, s)" "5 :: nat" "\<lambda>w. w + 5" 17 3 0 False]
  by (force simp: sig_new_def sig_init_def ex_sigsys_def)

end
