(* ===== verification/Libio_Process.thy ===== *)
theory Libio_Process
  imports Libio_Signal Libio_Buffer Libio_Reactor
begin

text \<open>
  The forking server of \<open>src/model/process_loop.hh\<close>: the master forks its workers, waits for signals with
  \<open>sigsuspend\<close>, reaps the workers that have exited and, when told to terminate, kills the others. Signals
  reach it through the dispatcher of \<open>Libio_Signal\<close>. What the master asks of the system in a round (the
  alarm, the signals it sends) is a list of \<open>mout\<close>.
\<close>

section \<open>State\<close>

definition SIGINT :: int where "SIGINT = 2"
definition SIGKILL :: int where "SIGKILL = 9"
definition SIGALRM :: int where "SIGALRM = 14"
definition SIGCHLD :: int where "SIGCHLD = 17"
definition SIGIO :: int where "SIGIO = 29"

record process_info =
  pi_pid :: int
  pi_channel :: "int \<times> int"
  pi_exited :: bool
  pi_exiting :: bool

text \<open>\<open>make_unique\<close> value-initialises: the channel is zero.\<close>

definition process_info_new :: process_info where
  "process_info_new = \<lparr>pi_pid = -1, pi_channel = (0, 0), pi_exited = False, pi_exiting = False\<rparr>"

record ('q, 'h) process_loop =
  pl_re :: "(select, unit, 'q) reactor"
  pl_size :: int
  pl_readcb :: "'h option"
  pl_writecb :: "'h option"
  pl_errorcb :: "'h option"
  processes :: "process_info list"
  listenfd :: int
  reap :: bool
  sigio :: bool
  sigalrm :: bool
  terminate :: bool
  quit :: bool

definition process_loop_new :: "heap_env \<Rightarrow> 'q \<Rightarrow> ('q, 'h) process_loop res" where
  "process_loop_new e q =
     bind_res (select_new e) (\<lambda>sel.
       Inr \<lparr>pl_re = reactor_new sel q, pl_size = 2, pl_readcb = None, pl_writecb = None, pl_errorcb = None, processes = [],
            listenfd = -1, reap = False, sigio = False, sigalrm = False, terminate = False, quit = False\<rparr>)"

definition pl_resize :: "int \<Rightarrow> ('q, 'h) process_loop \<Rightarrow> ('q, 'h) process_loop" where
  "pl_resize n p = p\<lparr>pl_size := n\<rparr>"

definition pl_set_read_handler :: "'h \<Rightarrow> ('q, 'h) process_loop \<Rightarrow> ('q, 'h) process_loop" where
  "pl_set_read_handler f p = p\<lparr>pl_readcb := Some f\<rparr>"

definition pl_set_write_handler :: "'h \<Rightarrow> ('q, 'h) process_loop \<Rightarrow> ('q, 'h) process_loop" where
  "pl_set_write_handler f p = p\<lparr>pl_writecb := Some f\<rparr>"

definition pl_set_error_handler :: "'h \<Rightarrow> ('q, 'h) process_loop \<Rightarrow> ('q, 'h) process_loop" where
  "pl_set_error_handler f p = p\<lparr>pl_errorcb := Some f\<rparr>"

text \<open>\<open>processes[i]\<close>, not checked.\<close>

definition process_at :: "nat \<Rightarrow> ('q, 'h) process_loop \<Rightarrow> process_info res" where
  "process_at i p = (if i < length (processes p) then Inr (processes p ! i) else Inl BadAccess)"

definition put_process :: "nat \<Rightarrow> process_info \<Rightarrow> ('q, 'h) process_loop \<Rightarrow> ('q, 'h) process_loop" where
  "put_process i x p = p\<lparr>processes := (processes p)[i := x]\<rparr>"

section \<open>Workers\<close>

text \<open>
  \<open>init\<close>. \<open>fork i\<close> is what the \<open>i\<close>-th \<open>fork\<close> returns: 0 in the child, which goes on as worker \<open>i\<close> and
  stays in its loop.
\<close>

datatype role = Master | Worker nat

definition open_channel :: "('q, 'a) sys \<Rightarrow> nat \<Rightarrow> ('q, 'h) process_loop \<Rightarrow> ('q, 'h) process_loop res" where
  "open_channel y i p =
     bind_res (process_at i p) (\<lambda>x.
       case s_socketpair y (re_kernel (pl_re p)) of (sp, q1) \<Rightarrow>
         let x1 = (case sp of None \<Rightarrow> x | Some ch \<Rightarrow> x\<lparr>pi_channel := ch\<rparr>);
             q2 = snd (set_nonblock y (fst (pi_channel x1)) q1);
             q3 = snd (set_nonblock y (snd (pi_channel x1)) q2) in
         Inr (put_process i x1 (p\<lparr>pl_re := (pl_re p)\<lparr>re_kernel := q3\<rparr>\<rparr>)))"

fun init_from :: "('q, 'a) sys \<Rightarrow> (nat \<Rightarrow> int) \<Rightarrow> nat \<Rightarrow> nat \<Rightarrow> ('q, 'h) process_loop \<Rightarrow> (role \<times> ('q, 'h) process_loop) res" where
  "init_from y fork 0 i p = Inr (Master, p)"
| "init_from y fork (Suc n) i p =
     bind_res (open_channel y i (p\<lparr>processes := processes p @ [process_info_new]\<rparr>)) (\<lambda>p1.
       if fork i = 0 then Inr (Worker i, p1)
       else bind_res (process_at i p1) (\<lambda>x. init_from y fork n (Suc i) (put_process i (x\<lparr>pi_pid := fork i\<rparr>) p1)))"

definition pl_init :: "('q, 'a) sys \<Rightarrow> (nat \<Rightarrow> int) \<Rightarrow> ('q, 'h) process_loop \<Rightarrow> (role \<times> ('q, 'h) process_loop) res" where
  "pl_init y fork p = init_from y fork (nat (pl_size p)) 0 p"

text \<open>The callbacks of a worker's reactor: the master's channel, the listening socket, and a client's.\<close>

datatype 'h wcb = FromMaster nat | Listening | Client 'h int

definition worker_setup ::
  "'k epoll_ctl \<Rightarrow> ('q, 'a) sys \<Rightarrow> 'k epoll \<Rightarrow> nat \<Rightarrow> ('q, 'h) process_loop \<Rightarrow> ('k epoll, 'h wcb, 'q) reactor res" where
  "worker_setup ctl y ep i p =
     bind_res (process_at i p) (\<lambda>x.
     bind_res (set_read_handler (epoll_ops ctl) y (fst (pi_channel x)) (FromMaster i) (reactor_new ep (re_kernel (pl_re p)))) (\<lambda>r.
       set_read_handler (epoll_ops ctl) y (listenfd p) Listening r))"

definition if_set ::
  "'h option \<Rightarrow> ('h \<Rightarrow> ('io, 'cb, 'q) reactor \<Rightarrow> ('io, 'cb, 'q) reactor res) \<Rightarrow> ('io, 'cb, 'q) reactor \<Rightarrow> ('io, 'cb, 'q) reactor res" where
  "if_set h f r = (case h of None \<Rightarrow> Inr r | Some g \<Rightarrow> f g r)"

text \<open>The handlers that a new client gets, in a worker and in \<open>src/model/thread_loop.hh\<close>.\<close>

definition set_client_handlers ::
  "'k epoll_ctl \<Rightarrow> ('q, 'a) sys \<Rightarrow> ('h \<Rightarrow> int \<Rightarrow> 'cb) \<Rightarrow> 'h option \<Rightarrow> 'h option \<Rightarrow> 'h option \<Rightarrow> int \<Rightarrow> ('k epoll, 'cb, 'q) reactor \<Rightarrow>
   ('k epoll, 'cb, 'q) reactor res" where
  "set_client_handlers ctl y cb rd wr er fd r =
     bind_res (if_set rd (\<lambda>f. set_read_handler (epoll_ops ctl) y fd (cb f fd)) r) (\<lambda>r1.
     bind_res (if_set wr (\<lambda>f. set_write_handler (epoll_ops ctl) y fd (cb f fd)) r1) (\<lambda>r2.
       if_set er (\<lambda>f. set_error_handler y fd (cb f fd)) r2))"

definition worker_accept ::
  "'k epoll_ctl \<Rightarrow> ('q, 'a) sys \<Rightarrow> ('q, 'h) process_loop \<Rightarrow> ('k epoll, 'h wcb, 'q) reactor \<Rightarrow> ('k epoll, 'h wcb, 'q) reactor res" where
  "worker_accept ctl y p r =
     bind_res (tcp_accept y (listenfd p) [] 0 (re_kernel r)) (\<lambda>(clientfd, addr, port, q).
       let r1 = r\<lparr>re_kernel := q\<rparr> in
       if clientfd \<le> 0 then Inr r1
       else set_client_handlers ctl y Client (pl_readcb p) (pl_writecb p) (pl_errorcb p) clientfd r1)"

text \<open>The message of the master is read from the other end of the channel than the one that is watched.\<close>

definition from_master :: "heap_env \<Rightarrow> sys_read \<Rightarrow> nat \<Rightarrow> ('q, 'h) process_loop \<Rightarrow> buffer res" where
  "from_master e rd i p =
     bind_res (process_at i p) (\<lambda>x.
     bind_res (buffer_new e) (\<lambda>b.
     bind_res (buffer_read e rd (snd (pi_channel x)) (-1) b) (\<lambda>(_, b1). Inr b1)))"

section \<open>The master\<close>

fun mark_from :: "nat \<Rightarrow> nat \<Rightarrow> int \<Rightarrow> ('q, 'h) process_loop \<Rightarrow> ('q, 'h) process_loop res" where
  "mark_from 0 i pid p = Inr p"
| "mark_from (Suc n) i pid p =
     bind_res (process_at i p) (\<lambda>x.
       if pi_pid x = pid then Inr (put_process i (x\<lparr>pi_exited := True\<rparr>) p) else mark_from n (Suc i) pid p)"

text \<open>The loop over \<open>waitpid\<close>, on what it returns; the end of the list stands for 0.\<close>

fun wait_loop :: "int list \<Rightarrow> ('q, 'h) process_loop \<Rightarrow> ('q, 'h) process_loop res" where
  "wait_loop [] p = Inr p"
| "wait_loop (pid # ws) p =
     (if pid = 0 \<or> pid = -1 then Inr p
      else bind_res (mark_from (nat (pl_size p)) 0 pid p) (wait_loop ws))"

datatype mcb = OnInt | OnChld

definition master_exec :: "int list \<Rightarrow> (mcb, 'k, ('q, 'h) process_loop) sexec" where
  "master_exec ws cb = (\<lambda>(p, s).
     case cb of
       OnInt \<Rightarrow> Inr (p\<lparr>terminate := True\<rparr>, s)
     | OnChld \<Rightarrow> bind_res (wait_loop ws (p\<lparr>reap := True\<rparr>)) (\<lambda>p1. Inr (p1, s)))"

text \<open>
  The delivery of a signal. \<open>disp\<close> reads the kernel's table of actions; without an action the default
  applies, which ends the process but for \<open>SIGCHLD\<close>.
\<close>

definition take_signal ::
  "'k sigsys \<Rightarrow> ('k \<Rightarrow> int \<Rightarrow> sigact option) \<Rightarrow> int \<times> int list \<Rightarrow> ('q, 'h) process_loop \<times> (mcb, 'k) sigs \<Rightarrow>
   (('q, 'h) process_loop \<times> (mcb, 'k) sigs) res" where
  "take_signal y disp sw ps =
     (case disp (sg_kernel (snd ps)) (fst sw) of
        None \<Rightarrow> if fst sw = SIGCHLD then Inr ps else Inl (Killed (fst sw))
      | Some a \<Rightarrow> sig_handler y (master_exec (snd sw)) (fst sw) ps)"

fun take_signals ::
  "'k sigsys \<Rightarrow> ('k \<Rightarrow> int \<Rightarrow> sigact option) \<Rightarrow> (int \<times> int list) list \<Rightarrow> ('q, 'h) process_loop \<times> (mcb, 'k) sigs \<Rightarrow>
   (('q, 'h) process_loop \<times> (mcb, 'k) sigs) res" where
  "take_signals y disp [] ps = Inr ps"
| "take_signals y disp (x # xs) ps = bind_res (take_signal y disp x ps) (take_signals y disp xs)"

fun reap_from :: "nat \<Rightarrow> nat \<Rightarrow> bool \<Rightarrow> ('q, 'h) process_loop \<Rightarrow> (bool \<times> ('q, 'h) process_loop) res" where
  "reap_from 0 i lv p = Inr (lv, p)"
| "reap_from (Suc n) i lv p =
     bind_res (process_at i p) (\<lambda>x.
       if pi_pid x = -1 then reap_from n (Suc i) lv p
       else if pi_exited x then reap_from n (Suc i) lv (put_process i (x\<lparr>pi_pid := -1\<rparr>) p)
       else reap_from n (Suc i) True p)"

definition reap_children :: "('q, 'h) process_loop \<Rightarrow> (bool \<times> ('q, 'h) process_loop) res" where
  "reap_children p = reap_from (nat (pl_size p)) 0 False p"

datatype mout = SetTimer int int | Kill int int

fun kill_from :: "int \<Rightarrow> nat \<Rightarrow> nat \<Rightarrow> ('q, 'h) process_loop \<Rightarrow> mout list res" where
  "kill_from sig 0 i p = Inr []"
| "kill_from sig (Suc n) i p =
     bind_res (process_at i p) (\<lambda>x. bind_res (kill_from sig n (Suc i) p) (\<lambda>out. Inr (Kill (pi_pid x) sig # out)))"

definition signal_worker_processes :: "int \<Rightarrow> ('q, 'h) process_loop \<Rightarrow> mout list res" where
  "signal_worker_processes sig p = kill_from sig (nat (pl_size p)) 0 p"

text \<open>The locals of \<open>start\<close> with the objects it works on, and one round of its endless loop.\<close>

record ('q, 'h, 'k) master =
  m_loop :: "('q, 'h) process_loop"
  m_sigs :: "(mcb, 'k) sigs"
  m_live :: bool
  m_delay :: int

definition master_round ::
  "'k sigsys \<Rightarrow> ('k \<Rightarrow> int \<Rightarrow> sigact option) \<Rightarrow> (int \<times> int list) list \<Rightarrow> ('q, 'h, 'k) master \<Rightarrow> (mout list \<times> ('q, 'h, 'k) master) res" where
  "master_round y disp sigs m =
     (let alarm = (if m_delay m \<noteq> 0 then [SetTimer (m_delay m div 1000) (m_delay m mod 1000 * 1000)] else []) in
      bind_res (take_signals y disp sigs (m_loop m, m_sigs m)) (\<lambda>(p, s).
      bind_res (if reap p then reap_children (p\<lparr>reap := False\<rparr>) else Inr (m_live m, p)) (\<lambda>(lv, p1).
        let m1 = m\<lparr>m_loop := p1, m_sigs := s, m_live := lv\<rparr> in
        if \<not> lv \<and> (terminate p1 \<or> quit p1) then Inl (ExitCalled 0)
        else if terminate p1
        then bind_res (signal_worker_processes SIGKILL p1) (\<lambda>out.
               Inr (alarm @ out, m1\<lparr>m_delay := (if m_delay m = 0 then 50 else m_delay m)\<rparr>))
        else Inr (alarm, m1))))"

text \<open>\<open>start\<close> up to the loop, in the master.\<close>

definition pl_start ::
  "'k sigsys \<Rightarrow> ('q, 'a) sys \<Rightarrow> (nat \<Rightarrow> int) \<Rightarrow> string \<Rightarrow> int \<Rightarrow> ('q, 'h) process_loop \<times> (mcb, 'k) sigs \<Rightarrow>
   (role \<times> ('q, 'h, 'k) master) res" where
  "pl_start y sy fork address port ps =
     (case get_nonblock_socket sy (re_kernel (pl_re (fst ps))) of (fd, q1) \<Rightarrow>
      case tcp_bind sy fd address port q1 of (_, q2) \<Rightarrow>
      bind_res (tcp_listen sy fd q2) (\<lambda>(_, q3).
      bind_res (pl_init sy fork ((fst ps)\<lparr>listenfd := fd, pl_re := (pl_re (fst ps))\<lparr>re_kernel := q3\<rparr>\<rparr>)) (\<lambda>(role, p1).
        let s1 = sig_set_handler y SIGINT False OnInt (snd ps);
            s2 = sig_set_handler y SIGCHLD False OnChld s1;
            s3 = s2\<lparr>sg_kernel := snd (g_procmask y SIG_BLOCK {SIGCHLD, SIGALRM, SIGIO, SIGINT} (sg_kernel s2))\<rparr> in
        Inr (role, case role of
          Master \<Rightarrow> \<lparr>m_loop = p1, m_sigs = s3, m_live = True, m_delay = 0\<rparr>
        | Worker i \<Rightarrow> \<lparr>m_loop = p1, m_sigs = snd ps, m_live = True, m_delay = 0\<rparr>))))"

section \<open>Rounds of the master\<close>

text \<open>
  The master's table of workers: as many as \<open>size\<close>, with pids that are positive or -1, no positive one
  twice.
\<close>

definition loop_ok :: "('q, 'h) process_loop \<Rightarrow> bool" where
  "loop_ok p = (length (processes p) = nat (pl_size p)
     \<and> (\<forall>i < length (processes p). \<forall>j < length (processes p).
          pi_pid (processes p ! i) = pi_pid (processes p ! j) \<and> pi_pid (processes p ! i) \<noteq> -1 \<longrightarrow> i = j))"

definition marked :: "int list \<Rightarrow> process_info \<Rightarrow> process_info" where
  "marked ws x = (if pi_pid x \<in> set ws then x\<lparr>pi_exited := True\<rparr> else x)"

definition reaped :: "process_info \<Rightarrow> process_info" where
  "reaped x = (if pi_pid x \<noteq> -1 \<and> pi_exited x then x\<lparr>pi_pid := -1\<rparr> else x)"

definition alive :: "process_info \<Rightarrow> bool" where
  "alive x = (pi_pid x \<noteq> -1 \<and> \<not> pi_exited x)"

lemma marked_fields [simp]: "pi_pid (marked ws x) = pi_pid x" "marked [] x = x"
  by (simp_all add: marked_def)

lemma mark_from_first:
  assumes "i + n = length (processes p)" "pid \<noteq> -1"
    and "\<forall>j < length (processes p). \<forall>k < length (processes p).
      pi_pid (processes p ! j) = pi_pid (processes p ! k) \<and> pi_pid (processes p ! j) \<noteq> -1 \<longrightarrow> j = k"
  shows "mark_from n i pid p = Inr (p\<lparr>processes := take i (processes p) @ map (marked [pid]) (drop i (processes p))\<rparr>)"
  using assms
proof (induction n arbitrary: i)
  case 0
  then show ?case by simp
next
  case (Suc n)
  let ?ps = "processes p"
  have i: "i < length ?ps" using Suc.prems(1) by simp
  have d: "drop i ?ps = ?ps ! i # drop (Suc i) ?ps" using i by (simp add: Cons_nth_drop_Suc)
  show ?case
  proof (cases "pi_pid (?ps ! i) = pid")
    case True
    have "marked [pid] x = x" if "x \<in> set (drop (Suc i) ?ps)" for x
    proof -
      obtain k where k: "k < length ?ps - Suc i" "x = ?ps ! (Suc i + k)" using \<open>x \<in> set (drop (Suc i) ?ps)\<close> by (auto simp: in_set_conv_nth)
      then have "Suc i + k < length ?ps" "i \<noteq> Suc i + k" by simp_all
      then have "pi_pid x \<noteq> pid" using Suc.prems(2,3) True i k(2) by metis
      then show ?thesis by (simp add: marked_def)
    qed
    then have "map (marked [pid]) (drop (Suc i) ?ps) = drop (Suc i) ?ps" by (simp add: map_idI)
    moreover have "?ps[i := y] = take i ?ps @ y # drop (Suc i) ?ps" for y using i by (simp add: upd_conv_take_nth_drop)
    moreover have "marked [pid] (?ps ! i) = (?ps ! i)\<lparr>pi_exited := True\<rparr>" using True by (simp add: marked_def)
    ultimately show ?thesis using True i d by (simp add: process_at_def put_process_def)
  next
    case False
    have "take (Suc i) ?ps = take i ?ps @ [?ps ! i]" using i by (simp add: take_Suc_conv_app_nth)
    moreover have "marked [pid] (?ps ! i) = ?ps ! i" using False by (simp add: marked_def)
    ultimately show ?thesis using Suc.IH [of "Suc i"] Suc.prems False i d by (simp add: process_at_def)
  qed
qed

lemma wait_loop_marks:
  assumes "loop_ok p" and "\<forall>w \<in> set ws. 0 < w"
  shows "wait_loop ws p = Inr (p\<lparr>processes := map (marked ws) (processes p)\<rparr>)"
  using assms
proof (induction ws arbitrary: p)
  case Nil
  then show ?case by (simp add: map_idI)
next
  case (Cons w ws)
  let ?p1 = "p\<lparr>processes := map (marked [w]) (processes p)\<rparr>"
  have w: "w \<noteq> 0" "w \<noteq> -1" using Cons.prems(2) by auto
  have m: "mark_from (nat (pl_size p)) 0 w p = Inr ?p1" using mark_from_first [of 0 "nat (pl_size p)" p w] Cons.prems(1) w by (simp add: loop_ok_def)
  have "loop_ok ?p1" using Cons.prems(1) by (simp add: loop_ok_def)
  moreover have "marked ws \<circ> marked [w] = marked (w # ws)" by (auto simp: marked_def fun_eq_iff)
  ultimately show ?case using Cons.IH [of ?p1] Cons.prems(2) m w by simp
qed

lemma reap_from_reaps:
  assumes "i + n = length (processes p)"
  shows "reap_from n i lv p = Inr (lv \<or> list_ex alive (drop i (processes p)),
    p\<lparr>processes := take i (processes p) @ map reaped (drop i (processes p))\<rparr>)"
  using assms
proof (induction n arbitrary: i lv p)
  case 0
  then show ?case by simp
next
  case (Suc n)
  let ?ps = "processes p"
  have i: "i < length ?ps" using Suc.prems(1) by simp
  have d: "drop i ?ps = ?ps ! i # drop (Suc i) ?ps" "take (Suc i) ?ps = take i ?ps @ [?ps ! i]" using i
    by (simp_all add: Cons_nth_drop_Suc take_Suc_conv_app_nth)
  have u: "take (Suc i) (?ps[i := y]) = take i ?ps @ [y]" "drop (Suc i) (?ps[i := y]) = drop (Suc i) ?ps" for y
    using i by (simp_all add: take_Suc_conv_app_nth)
  have e: "Suc i + n = length ?ps" using Suc.prems by simp
  have x: "reaped y = (if pi_pid y \<noteq> -1 \<and> pi_exited y then y\<lparr>pi_pid := -1\<rparr> else y) \<and> alive y = (pi_pid y \<noteq> -1 \<and> \<not> pi_exited y)" if "y = ?ps ! i" for y
    by (simp add: reaped_def alive_def)
  consider "pi_pid (?ps ! i) = -1" | "pi_pid (?ps ! i) \<noteq> -1" "pi_exited (?ps ! i)" | "pi_pid (?ps ! i) \<noteq> -1" "\<not> pi_exited (?ps ! i)" by blast
  then show ?case
  proof cases
    case 1
    then show ?thesis using Suc.IH [of "Suc i" p lv] e i d x by (simp add: process_at_def)
  next
    case 2
    let ?p1 = "put_process i ((?ps ! i)\<lparr>pi_pid := -1\<rparr>) p"
    have "reap_from (Suc n) i lv p = reap_from n (Suc i) lv ?p1" using 2 i by (simp add: process_at_def)
    also have "\<dots> = Inr (lv \<or> list_ex alive (drop (Suc i) ?ps), p\<lparr>processes := (take i ?ps @ [(?ps ! i)\<lparr>pi_pid := -1\<rparr>]) @ map reaped (drop (Suc i) ?ps)\<rparr>)"
      using Suc.IH [of "Suc i" ?p1 lv] e u by (simp add: put_process_def)
    finally show ?thesis using 2 d x by simp
  next
    case 3
    then show ?thesis using Suc.IH [of "Suc i" p True] e i d x by (simp add: process_at_def)
  qed
qed

lemma kill_from_all:
  "i + n = length (processes p) \<Longrightarrow> kill_from sig n i p = Inr (map (\<lambda>x. Kill (pi_pid x) sig) (drop i (processes p)))"
proof (induction n arbitrary: i)
  case (Suc n)
  then have i: "i < length (processes p)" by simp
  with Suc show ?case by (simp add: process_at_def Cons_nth_drop_Suc [symmetric])
qed simp

text \<open>The master after a round in which \<open>SIGCHLD\<close> came and \<open>waitpid\<close> reported the workers \<open>ws\<close>.\<close>

definition after_chld :: "'k sigsys \<Rightarrow> int list \<Rightarrow> ('q, 'h, 'k) master \<Rightarrow> ('q, 'h, 'k) master" where
  "after_chld y ws m = m\<lparr>m_loop := (m_loop m)\<lparr>processes := map (reaped \<circ> marked ws) (processes (m_loop m)), reap := False\<rparr>,
     m_sigs := sig_remove y SIGCHLD (m_sigs m), m_live := list_ex alive (map (marked ws) (processes (m_loop m))),
     m_delay := (if terminate (m_loop m) \<and> m_delay m = 0 then 50 else m_delay m)\<rparr>"

definition chld_ready :: "('k \<Rightarrow> int \<Rightarrow> sigact option) \<Rightarrow> ('q, 'h, 'k) master \<Rightarrow> bool" where
  "chld_ready disp m = (loop_ok (m_loop m) \<and> smap_find SIGCHLD (callback (m_sigs m)) = Some (Some OnChld, False)
     \<and> disp (sg_kernel (m_sigs m)) SIGCHLD \<noteq> None)"

lemma take_chld:
  assumes "chld_ready disp m" and "\<forall>w \<in> set ws. 0 < w"
  shows "take_signals y disp [(SIGCHLD, ws)] (m_loop m, m_sigs m) =
    Inr ((m_loop m)\<lparr>reap := True, processes := map (marked ws) (processes (m_loop m))\<rparr>, sig_remove y SIGCHLD (m_sigs m))"
proof -
  let ?p = "(m_loop m)\<lparr>reap := True\<rparr>"
  have "loop_ok ?p" using assms(1) by (simp add: chld_ready_def loop_ok_def)
  from wait_loop_marks [OF this assms(2)] have w: "wait_loop ws ?p = Inr (?p\<lparr>processes := map (marked ws) (processes ?p)\<rparr>)" .
  with assms(1) show ?thesis
    by (auto simp: take_signal_def chld_ready_def sig_handler_def smap_count_def smap_index_def master_exec_def Let_def)
qed

lemma master_round_chld:
  assumes r: "chld_ready disp m" and ws: "\<forall>w \<in> set ws. 0 < w"
  shows "\<exists>out. master_round y disp [(SIGCHLD, ws)] m =
    (if \<not> m_live (after_chld y ws m) \<and> (terminate (m_loop m) \<or> quit (m_loop m)) then Inl (ExitCalled 0)
     else Inr (out @ (if terminate (m_loop m) then map (\<lambda>x. Kill (pi_pid x) SIGKILL) (processes (m_loop (after_chld y ws m))) else []),
               after_chld y ws m))"
proof -
  let ?p = "(m_loop m)\<lparr>processes := map (marked ws) (processes (m_loop m)), reap := False\<rparr>"
  have len: "length (processes (m_loop m)) = nat (pl_size (m_loop m))" using r by (simp add: chld_ready_def loop_ok_def)
  have rp: "reap_children ?p = Inr (list_ex alive (processes ?p), ?p\<lparr>processes := map reaped (processes ?p)\<rparr>)"
    using reap_from_reaps [of 0 "nat (pl_size (m_loop m))" ?p False] len by (simp add: reap_children_def)
  let ?p1 = "?p\<lparr>processes := map reaped (processes ?p)\<rparr>"
  have k: "signal_worker_processes SIGKILL ?p1 = Inr (map (\<lambda>x. Kill (pi_pid x) SIGKILL) (processes ?p1))"
    using kill_from_all [of 0 "nat (pl_size (m_loop m))" ?p1 SIGKILL] len by (simp add: signal_worker_processes_def)
  let ?out = "if m_delay m \<noteq> 0 then [SetTimer (m_delay m div 1000) (m_delay m mod 1000 * 1000)] else []"
  show ?thesis using take_chld [OF r ws, of y] rp k
    by (intro exI [of _ ?out]) (cases "terminate (m_loop m)"; simp add: master_round_def after_chld_def Let_def)
qed

lemma take_ignored:
  assumes "\<not> smap_count SIGCHLD (callback s)"
  shows "take_signals y disp (map (Pair SIGCHLD) wss) (p, s) = Inr (p, s)"
  using assms by (induction wss) (auto simp: take_signal_def sig_handler_def split: option.splits)

text \<open>\<open>start\<close> leaves the master ready for the first \<open>SIGCHLD\<close>.\<close>

lemma init_from_pids:
  "init_from y fork n i p = Inr (role, p') \<Longrightarrow> length (processes p) = i \<Longrightarrow> \<forall>j. fork j \<noteq> 0 \<Longrightarrow>
    role = Master \<and> map pi_pid (processes p') = map pi_pid (processes p) @ map fork [i..<i + n] \<and> pl_size p' = pl_size p"
proof (induction n arbitrary: i p)
  case (Suc n)
  from Suc.prems(1,3) obtain p1 x where o: "open_channel y i (p\<lparr>processes := processes p @ [process_info_new]\<rparr>) = Inr p1"
    and r: "init_from y fork n (Suc i) (put_process i (x\<lparr>pi_pid := fork i\<rparr>) p1) = Inr (role, p')"
    by (auto simp: bind_res_eq_Inr)
  from o Suc.prems(2) have p1: "take i (processes p1) = processes p" "length (processes p1) = Suc i" "pl_size p1 = pl_size p"
    by (auto simp: open_channel_def bind_res_eq_Inr process_at_def put_process_def Let_def split: prod.splits)
  then have "processes (put_process i (x\<lparr>pi_pid := fork i\<rparr>) p1) = processes p @ [x\<lparr>pi_pid := fork i\<rparr>]"
    by (simp add: put_process_def upd_conv_take_nth_drop)
  moreover have "[i..<i + Suc n] = i # [Suc i..<Suc i + n]" by (simp add: upt_conv_Cons del: upt_Suc)
  ultimately show ?case using Suc.IH [OF r _ Suc.prems(3)] Suc.prems(2) p1(2,3) by (simp add: put_process_def del: upt_Suc)
qed simp

lemma start_ready:
  assumes c: "sig_contract y disp" and acc: "\<And>sig a k. fst (g_action y sig (Some a) k) \<noteq> -1"
    and f: "\<forall>i. fork i \<noteq> 0" "inj fork" and p: "processes p = []" and st: "pl_start y sy fork address port (p, s) = Inr (role, m)"
  shows "role = Master \<and> chld_ready disp m"
proof -
  obtain fd q1 where s1: "get_nonblock_socket sy (re_kernel (pl_re p)) = (fd, q1)" by fastforce
  obtain b q2 where s2: "tcp_bind sy fd address port q1 = (b, q2)" by fastforce
  let ?p = "\<lambda>q. p\<lparr>listenfd := fd, pl_re := (pl_re p)\<lparr>re_kernel := q\<rparr>\<rparr>"
  from st s1 s2 obtain q p1 where i: "init_from sy fork (nat (pl_size p)) 0 (?p q) = Inr (role, p1)"
    and m: "role = Master \<Longrightarrow> m_loop m = p1 \<and> m_sigs m = (let s2 = sig_set_handler y SIGCHLD False OnChld (sig_set_handler y SIGINT False OnInt s) in
        s2\<lparr>sg_kernel := snd (g_procmask y SIG_BLOCK {SIGCHLD, SIGALRM, SIGIO, SIGINT} (sg_kernel s2))\<rparr>)"
    by (auto simp: pl_start_def pl_init_def bind_res_eq_Inr Let_def)
  from init_from_pids [OF i _ f(1)] p have r: "role = Master" "map pi_pid (processes p1) = map fork [0..<nat (pl_size p)]" "pl_size p1 = pl_size p" by simp_all
  from r(2) have len: "length (processes p1) = nat (pl_size p)" by (metis length_map length_upt minus_nat.diff_0)
  then have "pi_pid (processes p1 ! i) = fork i" if "i < nat (pl_size p)" for i using r(2) that by (metis add_0 length_map nth_map nth_upt)
  then have "loop_ok p1" using f(2) len r(3) by (auto simp: loop_ok_def dest: injD)
  with r(1) m c acc show ?thesis
    by (simp add: chld_ready_def Let_def sig_set_handler_def smap_find_set sig_contract_def SIGCHLD_def SIGINT_def)
qed

section \<open>Properties of the master\<close>

text \<open>C30.
  At the first \<open>SIGCHLD\<close> the master takes stock correctly: whatever workers \<open>waitpid\<close> reports, exactly
  these and those already known to have exited lose their pid, \<open>live\<close> says whether a worker is left, and
  the master exits with status 0 exactly when none is and it was told to terminate or quit.
\<close>
theorem master_reaps:
  assumes "chld_ready disp m" and "\<forall>w \<in> set ws. 0 < w"
  shows "if list_all (\<lambda>x. pi_pid x = -1 \<or> pi_exited x \<or> pi_pid x \<in> set ws) (processes (m_loop m)) \<and> (terminate (m_loop m) \<or> quit (m_loop m))
    then master_round y disp [(SIGCHLD, ws)] m = Inl (ExitCalled 0)
    else \<exists>out m'. master_round y disp [(SIGCHLD, ws)] m = Inr (out, m')
      \<and> processes (m_loop m') = map (\<lambda>x. if pi_pid x \<noteq> -1 \<and> (pi_exited x \<or> pi_pid x \<in> set ws)
            then x\<lparr>pi_pid := -1, pi_exited := True\<rparr> else x) (processes (m_loop m))
      \<and> m_live m' = (\<not> list_all (\<lambda>x. pi_pid x = -1 \<or> pi_exited x \<or> pi_pid x \<in> set ws) (processes (m_loop m)))"
proof -
  let ?ps = "processes (m_loop m)"
  have lv: "m_live (after_chld y ws m) = (\<not> list_all (\<lambda>x. pi_pid x = -1 \<or> pi_exited x \<or> pi_pid x \<in> set ws) ?ps)"
    by (auto simp: after_chld_def alive_def marked_def list_ex_iff list_all_iff)
  have ps: "processes (m_loop (after_chld y ws m)) = map (\<lambda>x. if pi_pid x \<noteq> -1 \<and> (pi_exited x \<or> pi_pid x \<in> set ws)
      then x\<lparr>pi_pid := -1, pi_exited := True\<rparr> else x) ?ps"
    using assms(2) by (auto simp: after_chld_def reaped_def marked_def)
  from master_round_chld [OF assms, of y] lv ps show ?thesis by auto
qed

text \<open>C39.
  A terminating master can kill every process of the system: in the round in which the first \<open>SIGCHLD\<close> arrives, a worker that has been reaped keeps the
  pid -1 in the table, and while another worker is still alive the next round sends \<open>SIGKILL\<close> to each
  pid of the table, so that \<open>kill(-1, SIGKILL)\<close> is called, which addresses every process the caller may
  signal.
\<close>
theorem master_kills_everyone:
  assumes r: "chld_ready disp m" and ws: "\<forall>w \<in> set ws. 0 < w" and t: "terminate (m_loop m)"
    and dead: "x \<in> set (processes (m_loop m))" "pi_pid x \<in> set ws"
    and left: "z \<in> set (processes (m_loop m))" "pi_pid z \<noteq> -1" "\<not> pi_exited z" "pi_pid z \<notin> set ws"
  shows "\<exists>out m'. master_round y disp [(SIGCHLD, ws)] m = Inr (out, m') \<and> Kill (-1) SIGKILL \<in> set out"
proof -
  have "m_live (after_chld y ws m)" using left by (auto simp: after_chld_def alive_def marked_def list_ex_iff)
  moreover have "pi_pid (reaped (marked ws x)) = -1" using dead(2) by (simp add: reaped_def marked_def)
  then have "Kill (-1) SIGKILL \<in> set (map (\<lambda>x. Kill (pi_pid x) SIGKILL) (processes (m_loop (after_chld y ws m))))"
    using dead(1) by (force simp: after_chld_def)
  ultimately show ?thesis using master_round_chld [OF r ws, of y] t by auto
qed

text \<open>
  The master never learns of workers that exit after the first \<open>SIGCHLD\<close>: its handler is not
  persistent, so that later deliveries run nothing, whatever \<open>waitpid\<close> would report. Table and \<open>live\<close>
  stay as they are, and while \<open>live\<close> is set no such round exits.
\<close>
theorem second_sigchld_lost:
  assumes c: "sig_contract y disp" and ok: "smap_ok (callback (m_sigs m))" and r: "chld_ready disp m" and ws: "\<forall>w \<in> set ws. 0 < w"
    and m1: "master_round y disp [(SIGCHLD, ws)] m = Inr (out, m1)" and lv: "m_live m1"
  shows "\<exists>out2 m2. master_round y disp (map (Pair SIGCHLD) wss) m1 = Inr (out2, m2) \<and> processes (m_loop m2) = processes (m_loop m1) \<and> m_live m2"
proof -
  have a: "m1 = after_chld y ws m" using master_round_chld [OF r ws, of y] m1 by (auto split: if_splits)
  then have g: "\<not> smap_count SIGCHLD (callback (m_sigs m1))" using remove_gone [OF ok] by (simp add: after_chld_def)
  have len: "length (processes (m_loop m1)) = nat (pl_size (m_loop m1))" "\<not> reap (m_loop m1)"
    using r a by (simp_all add: chld_ready_def loop_ok_def after_chld_def)
  have k: "signal_worker_processes SIGKILL (m_loop m1) = Inr (map (\<lambda>x. Kill (pi_pid x) SIGKILL) (processes (m_loop m1)))"
    using kill_from_all [of 0 "nat (pl_size (m_loop m1))" "m_loop m1" SIGKILL] len by (simp add: signal_worker_processes_def)
  show ?thesis using take_ignored [OF g, of y disp wss "m_loop m1"] len(2) k lv by (auto simp: master_round_def Let_def)
qed

section \<open>An example master\<close>

text \<open>Two workers, 100 and 101, both alive, and a master that may have been told to terminate.\<close>

definition ex_worker :: "int \<Rightarrow> process_info" where
  "ex_worker pid = process_info_new\<lparr>pi_pid := pid\<rparr>"

definition ex_master :: "bool \<Rightarrow> (unit, unit, (int, sigact) smap) master" where
  "ex_master t = \<lparr>m_loop = \<lparr>pl_re = reactor_new \<lparr>readset_in = None, writeset_in = None, readset_out = None, writeset_out = None,
       sel_size = 0, highest_fd = 0, sel_active = []\<rparr> (), pl_size = 2, pl_readcb = None, pl_writecb = None, pl_errorcb = None,
       processes = [ex_worker 100, ex_worker 101], listenfd = 3, reap = False, sigio = False, sigalrm = False, terminate = t, quit = False\<rparr>,
     m_sigs = sig_set_handler ex_sigsys SIGCHLD False OnChld (sig_new []), m_live = True, m_delay = 0\<rparr>"

lemma ex_master_ready: "chld_ready (\<lambda>k sig. smap_find sig k) (ex_master t)"
  by (auto simp: chld_ready_def loop_ok_def ex_master_def ex_worker_def nth_Cons' sig_set_handler_def Let_def ex_sigsys_def smap_find_set
      split: if_splits)

lemma ex_master_fields: "processes (m_loop (ex_master t)) = [ex_worker 100, ex_worker 101]" "terminate (m_loop (ex_master t)) = t"
  "pi_pid (ex_worker pid) = pid" "\<not> pi_exited (ex_worker pid)"
  by (simp_all add: ex_master_def ex_worker_def process_info_new_def)

theorem master_reaps_witness:
  "master_round ex_sigsys (\<lambda>k sig. smap_find sig k) [(SIGCHLD, [100, 101])] (ex_master True) = Inl (ExitCalled 0)
   \<and> (\<exists>out m'. master_round ex_sigsys (\<lambda>k sig. smap_find sig k) [(SIGCHLD, [101])] (ex_master False) = Inr (out, m')
        \<and> map pi_pid (processes (m_loop m')) = [100, -1] \<and> m_live m')"
  using master_reaps [OF ex_master_ready, of "[100, 101]" True ex_sigsys] master_reaps [OF ex_master_ready, of "[101]" False ex_sigsys]
  by (auto simp: ex_master_fields)

theorem master_kills_everyone_witness:
  "\<exists>out m'. master_round ex_sigsys (\<lambda>k sig. smap_find sig k) [(SIGCHLD, [100])] (ex_master True) = Inr (out, m') \<and> Kill (-1) SIGKILL \<in> set out"
  by (rule master_kills_everyone [OF ex_master_ready, where x = "ex_worker 100" and z = "ex_worker 101"]) (simp_all add: ex_master_fields)

theorem second_sigchld_lost_witness:
  "\<exists>out m1 out2 m2. master_round ex_sigsys (\<lambda>k sig. smap_find sig k) [(SIGCHLD, [100])] (ex_master False) = Inr (out, m1)
    \<and> master_round ex_sigsys (\<lambda>k sig. smap_find sig k) (map (Pair SIGCHLD) [[101]]) m1 = Inr (out2, m2) \<and> m_live m2"
proof -
  obtain out where r: "master_round ex_sigsys (\<lambda>k sig. smap_find sig k) [(SIGCHLD, [100])] (ex_master False) = Inr (out, after_chld ex_sigsys [100] (ex_master False))"
    using master_round_chld [OF ex_master_ready, of "[100]" ex_sigsys False] by (auto simp: ex_master_def)
  have l: "m_live (after_chld ex_sigsys [100] (ex_master False))" by (simp add: after_chld_def ex_master_fields alive_def marked_def)
  have ok: "smap_ok (callback (m_sigs (ex_master False)))" by (simp add: ex_master_def sig_set_handler_def Let_def sig_new_def sig_init_def)
  from second_sigchld_lost [OF ex_sigsys_contract ok ex_master_ready _ r l, of "[[101]]"] r show ?thesis by (simp, blast)
qed

end
