(* ===== verification/Libio_Thread_Loop.thy ===== *)
theory Libio_Thread_Loop
  imports Libio_Process Libio_Thread
begin

text \<open>
  The threaded server of \<open>src/model/thread_loop.hh\<close>: one thread accepts, the others share one queue of
  clients and run a reactor each. The loop over \<open>clientQueue.pop\<close> in the wake-up handlers of different
  threads interleaves at the calls of \<open>pop\<close>, so that one turn of it is a step of its own. The null
  pointer that \<open>cinfo\<close> starts with is \<open>no_client\<close>.
\<close>

section \<open>State\<close>

datatype 'h tcb = TWake nat | TClient 'h int

record ('k, 'q, 'h) thread_info =
  ti_id :: int
  ti_wakeupfd :: int
  ti_re :: "('k epoll, 'h tcb, 'q) reactor"

record client_info =
  ci_fd :: int
  ci_address :: string
  ci_port :: int

definition no_client :: client_info where
  "no_client = \<lparr>ci_fd = -1, ci_address = [], ci_port = 0\<rparr>"

record ('k, 'q, 'h) thread_loop =
  tl_pool :: "nat tpool"
  tl_re :: "(select, int, 'q) reactor"
  tl_threads :: "('k, 'q, 'h) thread_info list"
  tl_clients :: "client_info list"
  tl_size :: int
  tl_readcb :: "'h option"
  tl_writecb :: "'h option"
  tl_errorcb :: "'h option"

definition thread_loop_new :: "heap_env \<Rightarrow> 'q \<Rightarrow> ('k, 'q, 'h) thread_loop res" where
  "thread_loop_new e q =
     bind_res (select_new e) (\<lambda>sel.
       Inr \<lparr>tl_pool = pool_new 4, tl_re = reactor_new sel q, tl_threads = [], tl_clients = [], tl_size = 2,
            tl_readcb = None, tl_writecb = None, tl_errorcb = None\<rparr>)"

definition tl_set_read_handler :: "'h \<Rightarrow> ('k, 'q, 'h) thread_loop \<Rightarrow> ('k, 'q, 'h) thread_loop" where
  "tl_set_read_handler f lp = lp\<lparr>tl_readcb := Some f\<rparr>"

definition tl_set_write_handler :: "'h \<Rightarrow> ('k, 'q, 'h) thread_loop \<Rightarrow> ('k, 'q, 'h) thread_loop" where
  "tl_set_write_handler f lp = lp\<lparr>tl_writecb := Some f\<rparr>"

definition tl_set_error_handler :: "'h \<Rightarrow> ('k, 'q, 'h) thread_loop \<Rightarrow> ('k, 'q, 'h) thread_loop" where
  "tl_set_error_handler f lp = lp\<lparr>tl_errorcb := Some f\<rparr>"

definition tl_resize :: "int \<Rightarrow> ('k, 'q, 'h) thread_loop \<Rightarrow> ('k, 'q, 'h) thread_loop" where
  "tl_resize n lp = lp\<lparr>tl_size := n\<rparr>"

section \<open>Operations\<close>

text \<open>\<open>init\<close>; \<open>eps i\<close> is the \<open>epoll\<close> object of the \<open>i\<close>-th thread and its kernel state.\<close>

definition thread_info_new ::
  "'k epoll_ctl \<Rightarrow> ('q, 'a) sys \<Rightarrow> 'k epoll \<times> 'q \<Rightarrow> nat \<Rightarrow> ('k, 'q, 'h) thread_info res" where
  "thread_info_new ctl y eq i =
     bind_res (create_eventfd y (snd eq)) (\<lambda>(fd, q1).
     bind_res (set_read_handler (epoll_ops ctl) y fd (TWake i) (reactor_new (fst eq) q1)) (\<lambda>r.
       Inr \<lparr>ti_id = int i, ti_wakeupfd = fd, ti_re = r\<rparr>))"

fun tl_init_from ::
  "'k epoll_ctl \<Rightarrow> ('q, 'a) sys \<Rightarrow> (nat \<Rightarrow> 'k epoll \<times> 'q) \<Rightarrow> nat \<Rightarrow> nat \<Rightarrow> ('k, 'q, 'h) thread_loop \<Rightarrow> ('k, 'q, 'h) thread_loop res" where
  "tl_init_from ctl y eps 0 i lp = Inr lp"
| "tl_init_from ctl y eps (Suc n) i lp =
     bind_res (thread_info_new ctl y (eps i) i) (\<lambda>th.
       tl_init_from ctl y eps n (Suc i) (lp\<lparr>tl_threads := tl_threads lp @ [th], tl_pool := pool_push i (tl_pool lp)\<rparr>))"

definition tl_init ::
  "'k epoll_ctl \<Rightarrow> ('q, 'a) sys \<Rightarrow> (nat \<Rightarrow> 'k epoll \<times> 'q) \<Rightarrow> ('k, 'q, 'h) thread_loop \<Rightarrow> ('k, 'q, 'h) thread_loop res" where
  "tl_init ctl y eps lp = tl_init_from ctl y eps (nat (tl_size lp)) 0 (lp\<lparr>tl_pool := pool_resize (nat (tl_size lp)) (tl_pool lp)\<rparr>)"

definition tl_thread_at :: "int \<Rightarrow> ('k, 'q, 'h) thread_loop \<Rightarrow> ('k, 'q, 'h) thread_info res" where
  "tl_thread_at i lp = (if 0 \<le> i \<and> nat i < length (tl_threads lp) then Inr (tl_threads lp ! nat i) else Inl BadAccess)"

definition put_re :: "nat \<Rightarrow> ('k epoll, 'h tcb, 'q) reactor \<Rightarrow> ('k, 'q, 'h) thread_loop \<Rightarrow> ('k, 'q, 'h) thread_loop" where
  "put_re i r lp = lp\<lparr>tl_threads := (tl_threads lp)[i := (tl_threads lp ! i)\<lparr>ti_re := r\<rparr>]\<rparr>"

text \<open>The loop of \<open>wakeup_random\<close>, on the values of \<open>rand()\<close>; it runs only when \<open>size\<close> is positive.\<close>

fun tl_wake :: "('q, 'a) sys \<Rightarrow> nat \<Rightarrow> int list \<Rightarrow> ('k, 'q, 'h) thread_loop \<Rightarrow> ('k, 'q, 'h) thread_loop res" where
  "tl_wake y 0 rands lp = Inr lp"
| "tl_wake y (Suc n) [] lp = Inl NoReturn"
| "tl_wake y (Suc n) (x # rands) lp =
     bind_res (tl_thread_at (x mod tl_size lp) lp) (\<lambda>th.
       let r = (ti_re th)\<lparr>re_kernel := snd (s_write y (ti_wakeupfd th) ''0x123456'' (re_kernel (ti_re th)))\<rparr> in
       tl_wake y n rands (put_re (nat (x mod tl_size lp)) r lp))"

definition tl_wakeup_random :: "('q, 'a) sys \<Rightarrow> int \<Rightarrow> int list \<Rightarrow> ('k, 'q, 'h) thread_loop \<Rightarrow> ('k, 'q, 'h) thread_loop res" where
  "tl_wakeup_random y n rands lp = tl_wake y (nat (if tl_size lp < n then tl_size lp else n)) rands lp"

text \<open>The handler of the listening socket, with the client it has pushed, if any.\<close>

definition tl_accept ::
  "('q, 'a) sys \<Rightarrow> int \<Rightarrow> int list \<Rightarrow> ('k, 'q, 'h) thread_loop \<Rightarrow> (client_info list \<times> ('k, 'q, 'h) thread_loop) res" where
  "tl_accept y fd rands lp =
     bind_res (tcp_accept y fd [] 0 (re_kernel (tl_re lp))) (\<lambda>(clientfd, addr, port, q).
       let lp1 = lp\<lparr>tl_re := (tl_re lp)\<lparr>re_kernel := q\<rparr>\<rparr>;
           c = \<lparr>ci_fd = clientfd, ci_address = addr, ci_port = port\<rparr> in
       if clientfd \<le> 0 then Inr ([], lp1)
       else bind_res (tl_wakeup_random y 2 rands (lp1\<lparr>tl_clients := snd (lq_push c (tl_clients lp1))\<rparr>)) (\<lambda>lp2. Inr ([c], lp2)))"

text \<open>One turn of the loop in the wake-up handler of thread \<open>i\<close>, with the client it has taken, if any.\<close>

definition tl_take ::
  "'k epoll_ctl \<Rightarrow> ('q, 'a) sys \<Rightarrow> nat \<Rightarrow> ('k, 'q, 'h) thread_loop \<Rightarrow> (client_info list \<times> ('k, 'q, 'h) thread_loop) res" where
  "tl_take ctl y i lp =
     (case lq_pop no_client (tl_clients lp) of (ok, c, cs) \<Rightarrow>
        if \<not> ok then Inr ([], lp)
        else
          bind_res (tl_thread_at (int i) lp) (\<lambda>th.
          bind_res (set_client_handlers ctl y TClient (tl_readcb lp) (tl_writecb lp) (tl_errorcb lp) (ci_fd c) (ti_re th)) (\<lambda>r.
            Inr ([c], put_re i r (lp\<lparr>tl_clients := cs\<rparr>)))))"

fun tl_take_all ::
  "nat \<Rightarrow> 'k epoll_ctl \<Rightarrow> ('q, 'a) sys \<Rightarrow> nat \<Rightarrow> ('k, 'q, 'h) thread_loop \<Rightarrow> ('k, 'q, 'h) thread_loop res" where
  "tl_take_all 0 ctl y i lp = Inl NoReturn"
| "tl_take_all (Suc n) ctl y i lp =
     bind_res (tl_take ctl y i lp) (\<lambda>(got, lp1). if got = [] then Inr lp1 else tl_take_all n ctl y i lp1)"

text \<open>The whole handler, when no other thread takes part; a turn per client and one more is enough.\<close>

definition tl_on_wakeup ::
  "heap_env \<Rightarrow> sys_read \<Rightarrow> 'k epoll_ctl \<Rightarrow> ('q, 'a) sys \<Rightarrow> nat \<Rightarrow> ('k, 'q, 'h) thread_loop \<Rightarrow> ('k, 'q, 'h) thread_loop res" where
  "tl_on_wakeup e rd ctl y i lp =
     bind_res (buffer_new e) (\<lambda>b.
     bind_res (tl_thread_at (int i) lp) (\<lambda>th.
     bind_res (buffer_read e rd (ti_wakeupfd th) (-1) b) (\<lambda>_.
       tl_take_all (Suc (length (tl_clients lp))) ctl y i lp)))"

definition tl_start ::
  "heap_env \<Rightarrow> 'k epoll_ctl \<Rightarrow> ('q, 'a) sys \<Rightarrow> (nat \<Rightarrow> 'k epoll \<times> 'q) \<Rightarrow> string \<Rightarrow> int \<Rightarrow> ('k, 'q, 'h) thread_loop \<Rightarrow>
   (int \<times> ('k, 'q, 'h) thread_loop) res" where
  "tl_start e ctl y eps address port lp =
     bind_res (tl_init ctl y eps lp) (\<lambda>lp1.
       case get_nonblock_socket y (re_kernel (tl_re lp1)) of (fd, q1) \<Rightarrow>
       case tcp_bind y fd address port q1 of (_, q2) \<Rightarrow>
       bind_res (tcp_listen y fd q2) (\<lambda>(_, q3).
       bind_res (set_read_handler (select_ops e) y fd fd ((tl_re lp1)\<lparr>re_kernel := q3\<rparr>)) (\<lambda>r.
         Inr (fd, lp1\<lparr>tl_re := r\<rparr>))))"

section \<open>Interleaved runs\<close>

text \<open>
  The kernel's side of the \<open>eventfd\<close>s: whether one is readable, and the effect of the \<open>read\<close> with which the
  wake-up handler starts. As \<open>eventfd(2)\<close> documents, one that was written to is readable.
\<close>

record 'q eventfds =
  ev_ready :: "int \<Rightarrow> 'q \<Rightarrow> bool"
  ev_read :: "int \<Rightarrow> 'q \<Rightarrow> 'q"

definition wakes :: "('q, 'a) sys \<Rightarrow> 'q eventfds \<Rightarrow> int set \<Rightarrow> bool" where
  "wakes y ev W = (\<forall>fd \<in> W. \<forall>q. ev_ready ev fd (snd (s_write y fd ''0x123456'' q)))"

definition tl_signalled :: "'q eventfds \<Rightarrow> ('k, 'q, 'h) thread_loop \<Rightarrow> nat \<Rightarrow> bool" where
  "tl_signalled ev lp i =
     (i < length (tl_threads lp) \<and> (let th = tl_threads lp ! i in ev_ready ev (ti_wakeupfd th) (re_kernel (ti_re th))))"

definition tl_drain :: "'q eventfds \<Rightarrow> nat \<Rightarrow> ('k, 'q, 'h) thread_loop \<Rightarrow> ('k, 'q, 'h) thread_loop" where
  "tl_drain ev i lp =
     (let th = tl_threads lp ! i; r = ti_re th in put_re i (r\<lparr>re_kernel := ev_read ev (ti_wakeupfd th) (re_kernel r)\<rparr>) lp)"

text \<open>
  Events in the order in which they happen, with the clients that were accepted and who took which. The
  reactor of a thread starts the handler (\<open>Waking\<close>) only when the thread's descriptor is readable; the threads in \<open>busy\<close> are in the
  handler, and only they take clients, until \<open>pop\<close> finds the queue empty. An event that cannot happen changes nothing.
\<close>

datatype tl_event = Accepting int "int list" | Waking nat | Taking nat

fun tl_run ::
  "'k epoll_ctl \<Rightarrow> ('q, 'a) sys \<Rightarrow> 'q eventfds \<Rightarrow> tl_event list \<Rightarrow> ('k, 'q, 'h) thread_loop \<Rightarrow> nat list \<Rightarrow>
   (client_info list \<times> (nat \<times> client_info) list \<times> ('k, 'q, 'h) thread_loop \<times> nat list) res" where
  "tl_run ctl y ev [] lp busy = Inr ([], [], lp, busy)"
| "tl_run ctl y ev (Accepting fd rands # evs) lp busy =
     bind_res (tl_accept y fd rands lp) (\<lambda>(cs, lp1).
     bind_res (tl_run ctl y ev evs lp1 busy) (\<lambda>(acc, got, lp2, b). Inr (cs @ acc, got, lp2, b)))"
| "tl_run ctl y ev (Waking i # evs) lp busy =
     (if tl_signalled ev lp i \<and> i \<notin> set busy then tl_run ctl y ev evs (tl_drain ev i lp) (i # busy)
      else tl_run ctl y ev evs lp busy)"
| "tl_run ctl y ev (Taking i # evs) lp busy =
     (if i \<notin> set busy then tl_run ctl y ev evs lp busy
      else
        bind_res (tl_take ctl y i lp) (\<lambda>(cs, lp1).
        bind_res (tl_run ctl y ev evs lp1 (if cs = [] then filter (\<lambda>j. j \<noteq> i) busy else busy)) (\<lambda>(acc, got, lp2, b).
          Inr (acc, map (Pair i) cs @ got, lp2, b))))"

definition reads_with :: "int \<Rightarrow> 'cb \<Rightarrow> ('io, 'cb, 'q) reactor \<Rightarrow> bool" where
  "reads_with fd cb r = (\<exists>ch. smap_find fd (channels r) = Some (Some ch) \<and> readcb ch = Some cb)"

definition same_setup :: "('k, 'q, 'h) thread_loop \<Rightarrow> ('k, 'q, 'h) thread_loop \<Rightarrow> bool" where
  "same_setup lp lp' = (tl_readcb lp' = tl_readcb lp \<and> tl_writecb lp' = tl_writecb lp \<and> tl_errorcb lp' = tl_errorcb lp
     \<and> tl_size lp' = tl_size lp \<and> length (tl_threads lp') = length (tl_threads lp)
     \<and> map ti_wakeupfd (tl_threads lp') = map ti_wakeupfd (tl_threads lp))"

lemma set_handlers_keep_reads:
  assumes "reads_with j c r"
  shows "set_read_handler ops y fd cb r = Inr r' \<Longrightarrow> j \<noteq> fd \<Longrightarrow> reads_with j c r'"
    and "set_write_handler ops y fd cb r = Inr r' \<Longrightarrow> reads_with j c r'"
    and "set_error_handler y fd cb r = Inr r' \<Longrightarrow> reads_with j c r'"
  using assms
  by (auto simp: reads_with_def set_read_handler_def set_write_handler_def set_error_handler_def init_channel_def put_channel_def add_read_def add_write_def
      io_call_def bind_res_eq_Inr smap_find_set smap_count_def channel_at_def smap_index_def split: if_splits option.splits)

lemma set_read_reads: "set_read_handler ops y fd cb r = Inr r' \<Longrightarrow> reads_with fd cb r'"
  by (auto simp: reads_with_def set_read_handler_def put_channel_def bind_res_eq_Inr smap_find_set)

lemma client_handlers_read:
  assumes "set_client_handlers ctl y cb (Some f) wr er fd r = Inr r'"
  shows "reads_with fd (cb f fd) r' \<and> (\<forall>j c. reads_with j c r \<and> j \<noteq> fd \<longrightarrow> reads_with j c r')"
proof -
  from assms obtain r1 r2 where r1: "set_read_handler (epoll_ops ctl) y fd (cb f fd) r = Inr r1"
    and r2: "if_set wr (\<lambda>f. set_write_handler (epoll_ops ctl) y fd (cb f fd)) r1 = Inr r2"
    and r': "if_set er (\<lambda>f. set_error_handler y fd (cb f fd)) r2 = Inr r'"
    by (auto simp: set_client_handlers_def if_set_def bind_res_eq_Inr)
  have "reads_with j c r2" if "reads_with j c r1" for j c
    using r2 that set_handlers_keep_reads(2) [OF that] by (cases wr) (auto simp: if_set_def)
  moreover have "reads_with j c r'" if "reads_with j c r2" for j c
    using r' that set_handlers_keep_reads(3) [OF that] by (cases er) (auto simp: if_set_def)
  moreover note set_read_reads [OF r1] set_handlers_keep_reads(1) [OF _ r1]
  ultimately show ?thesis by blast
qed

lemma put_re_simps [simp]:
  "same_setup lp (put_re i r lp)" "tl_clients (put_re i r lp) = tl_clients lp" "tl_size (put_re i r lp) = tl_size lp"
  by (simp_all add: same_setup_def put_re_def map_update)
    (metis list_update_beyond list_update_id length_map linorder_not_less nth_map)

lemma same_setup_trans: "same_setup a b \<Longrightarrow> same_setup b c \<Longrightarrow> same_setup a c"
  by (simp add: same_setup_def)

lemma put_re_nth: "i < length (tl_threads lp) \<Longrightarrow> ti_re (tl_threads (put_re i r lp) ! j) = (if i = j then r else ti_re (tl_threads lp ! j))"
  by (simp add: put_re_def)

lemma tl_wake_keeps:
  "tl_wake y n rands lp = Inr lp' \<Longrightarrow> same_setup lp lp' \<and> tl_clients lp' = tl_clients lp
    \<and> (\<forall>i < length (tl_threads lp). channels (ti_re (tl_threads lp' ! i)) = channels (ti_re (tl_threads lp ! i)))"
proof (induction y n rands lp rule: tl_wake.induct)
  case (3 y n x rands lp)
  let ?i = "nat (x mod tl_size lp)"
  from "3.prems" obtain th where th: "tl_thread_at (x mod tl_size lp) lp = Inr th" by (auto simp: bind_res_eq_Inr)
  let ?r = "(ti_re th)\<lparr>re_kernel := snd (s_write y (ti_wakeupfd th) ''0x123456'' (re_kernel (ti_re th)))\<rparr>"
  have i: "?i < length (tl_threads lp)" "th = tl_threads lp ! ?i" using th by (auto simp: tl_thread_at_def split: if_splits)
  from "3.prems" th have "tl_wake y n rands (put_re ?i ?r lp) = Inr lp'" by (simp add: Let_def)
  with "3.IH" [OF th] have ih: "same_setup (put_re ?i ?r lp) lp' \<and> tl_clients lp' = tl_clients lp
    \<and> (\<forall>i < length (tl_threads lp). channels (ti_re (tl_threads lp' ! i)) = channels (ti_re (tl_threads (put_re ?i ?r lp) ! i)))"
    by (simp add: put_re_def)
  then show ?case using i same_setup_trans [OF put_re_simps(1)] by (auto simp: put_re_nth)
qed (simp_all add: same_setup_def)

lemma tl_accept_queues:
  assumes "tl_accept y fd rands lp = Inr (cs, lp')"
  shows "same_setup lp lp' \<and> tl_clients lp' = tl_clients lp @ cs
    \<and> (\<forall>i < length (tl_threads lp). channels (ti_re (tl_threads lp' ! i)) = channels (ti_re (tl_threads lp ! i)))"
  using assms
  by (auto simp: tl_accept_def tl_wakeup_random_def bind_res_eq_Inr Let_def lq_push_def same_setup_def dest!: tl_wake_keeps split: if_splits)

lemma tl_take_serves:
  assumes t: "tl_take ctl y i lp = Inr (cs, lp')" and f: "tl_readcb lp = Some f"
  shows "same_setup lp lp' \<and> tl_clients lp = cs @ tl_clients lp' \<and> (\<forall>c \<in> set cs. i < length (tl_threads lp) \<and>
      reads_with (ci_fd c) (TClient f (ci_fd c)) (ti_re (tl_threads lp' ! i)))
    \<and> (\<forall>j < length (tl_threads lp). \<forall>fd. reads_with fd (TClient f fd) (ti_re (tl_threads lp ! j))
          \<longrightarrow> reads_with fd (TClient f fd) (ti_re (tl_threads lp' ! j)))"
proof (cases rule: lq.pop_cases [of "tl_clients lp" no_client])
  case empty
  with t show ?thesis by (simp add: tl_take_def same_setup_def)
next
  case (front c q)
  with t f obtain th r where th: "tl_thread_at (int i) lp = Inr th"
    and r: "set_client_handlers ctl y TClient (Some f) (tl_writecb lp) (tl_errorcb lp) (ci_fd c) (ti_re th) = Inr r"
    and lp': "cs = [c]" "lp' = put_re i r (lp\<lparr>tl_clients := q\<rparr>)"
    by (auto simp: tl_take_def bind_res_eq_Inr)
  have i: "i < length (tl_threads lp)" "th = tl_threads lp ! i" using th by (auto simp: tl_thread_at_def split: if_splits)
  have "same_setup lp lp'" using lp'(2) put_re_simps(1) [of "lp\<lparr>tl_clients := q\<rparr>" i r] by (simp add: same_setup_def)
  moreover have "reads_with fd (TClient f fd) r" if "reads_with fd (TClient f fd) (ti_re th)" for fd
    using client_handlers_read [OF r] that by (cases "fd = ci_fd c") auto
  ultimately show ?thesis using client_handlers_read [OF r] lp' i front(2) by (auto simp: put_re_nth)
qed

section \<open>Wake-ups\<close>

text \<open>Nobody's signal is taken back by \<open>wakeup_random\<close>, and every thread it picks is signalled.\<close>

lemma same_setup_fd: "same_setup lp lp' \<Longrightarrow> i < length (tl_threads lp) \<Longrightarrow> ti_wakeupfd (tl_threads lp' ! i) = ti_wakeupfd (tl_threads lp ! i)"
  unfolding same_setup_def by (metis nth_map)

lemma same_setup_wakes: "same_setup lp lp' \<Longrightarrow> wakes y ev (set (map ti_wakeupfd (tl_threads lp))) \<Longrightarrow> wakes y ev (set (map ti_wakeupfd (tl_threads lp')))"
  by (simp only: same_setup_def)

lemma tl_wake_signals:
  "tl_wake y n rands lp = Inr lp' \<Longrightarrow> wakes y ev (set (map ti_wakeupfd (tl_threads lp))) \<Longrightarrow>
    (\<forall>i. tl_signalled ev lp i \<longrightarrow> tl_signalled ev lp' i) \<and> (0 < n \<longrightarrow> (\<exists>i. tl_signalled ev lp' i))"
proof (induction y n rands lp rule: tl_wake.induct)
  case (3 y n x rands lp)
  let ?i = "nat (x mod tl_size lp)"
  from "3.prems"(1) obtain th where th: "tl_thread_at (x mod tl_size lp) lp = Inr th" by (auto simp: bind_res_eq_Inr)
  let ?r = "(ti_re th)\<lparr>re_kernel := snd (s_write y (ti_wakeupfd th) ''0x123456'' (re_kernel (ti_re th)))\<rparr>"
  let ?lp = "put_re ?i ?r lp"
  have i: "?i < length (tl_threads lp)" "th = tl_threads lp ! ?i" using th by (auto simp: tl_thread_at_def split: if_splits)
  have w: "wakes y ev (set (map ti_wakeupfd (tl_threads ?lp)))" by (rule same_setup_wakes [OF put_re_simps(1) "3.prems"(2)])
  from "3.prems"(1) th have "tl_wake y n rands ?lp = Inr lp'" by (simp add: Let_def)
  with "3.IH" [OF th] w have ih: "\<forall>i. tl_signalled ev ?lp i \<longrightarrow> tl_signalled ev lp' i" by (simp add: Let_def)
  have "ev_ready ev (ti_wakeupfd th) (re_kernel ?r)" using "3.prems"(2) i by (simp add: wakes_def)
  then have "tl_signalled ev ?lp ?i" "\<forall>j. tl_signalled ev lp j \<longrightarrow> tl_signalled ev ?lp j"
    using i by (auto simp: tl_signalled_def put_re_def Let_def nth_list_update)
  with ih show ?case by blast
qed simp_all

lemma tl_accept_signals:
  assumes a: "tl_accept y fd rands lp = Inr (cs, lp')" and w: "wakes y ev (set (map ti_wakeupfd (tl_threads lp)))" and n: "0 < tl_size lp"
  shows "(\<forall>i. tl_signalled ev lp i \<longrightarrow> tl_signalled ev lp' i) \<and> (cs \<noteq> [] \<longrightarrow> (\<exists>i. tl_signalled ev lp' i))"
proof -
  obtain c ad p q where t: "tcp_accept y fd [] 0 (re_kernel (tl_re lp)) = Inr (c, ad, p, q)" using a by (auto simp: tl_accept_def bind_res_eq_Inr)
  let ?lp1 = "lp\<lparr>tl_re := (tl_re lp)\<lparr>re_kernel := q\<rparr>\<rparr>"
  show ?thesis
  proof (cases "c \<le> 0")
    case True
    with a t show ?thesis by (auto simp: tl_accept_def tl_signalled_def)
  next
    case False
    let ?lp2 = "?lp1\<lparr>tl_clients := tl_clients lp @ [\<lparr>ci_fd = c, ci_address = ad, ci_port = p\<rparr>]\<rparr>"
    from a t False have k: "tl_wake y (nat (if tl_size lp < 2 then tl_size lp else 2)) rands ?lp2 = Inr lp'"
      by (auto simp: tl_accept_def tl_wakeup_random_def lq_push_def Let_def bind_res_eq_Inr)
    have "0 < nat (if tl_size lp < 2 then tl_size lp else 2)" using n by simp
    with tl_wake_signals [OF k, of ev] w show ?thesis by (auto simp: tl_signalled_def)
  qed
qed

text \<open>What holds between two events: the threads in the handler exist, and while a client waits one of them, or one that is signalled, will see it.\<close>

definition tl_attended :: "'q eventfds \<Rightarrow> ('k, 'q, 'h) thread_loop \<Rightarrow> nat list \<Rightarrow> bool" where
  "tl_attended ev lp busy =
     ((\<forall>i \<in> set busy. i < length (tl_threads lp)) \<and> (tl_clients lp \<noteq> [] \<longrightarrow> (\<exists>i < length (tl_threads lp). i \<in> set busy \<or> tl_signalled ev lp i)))"

lemma tl_drain_simps:
  "same_setup lp (tl_drain ev i lp)" "tl_clients (tl_drain ev i lp) = tl_clients lp"
  "i < length (tl_threads lp) \<Longrightarrow> channels (ti_re (tl_threads (tl_drain ev i lp) ! j)) = channels (ti_re (tl_threads lp ! j))"
  by (simp_all add: tl_drain_def Let_def put_re_nth)

lemma tl_attended_steps:
  assumes "tl_attended ev lp busy"
  shows "tl_accept y fd rands lp = Inr (cs, lp1) \<Longrightarrow> wakes y ev (set (map ti_wakeupfd (tl_threads lp))) \<Longrightarrow> 0 < tl_size lp \<Longrightarrow> tl_attended ev lp1 busy"
    and "tl_signalled ev lp i \<Longrightarrow> tl_attended ev (tl_drain ev i lp) (i # busy)"
    and "i \<in> set busy \<Longrightarrow> tl_take ctl y i lp = Inr (cs, lp2) \<Longrightarrow> tl_readcb lp = Some f \<Longrightarrow>
      tl_attended ev lp2 (if cs = [] then filter (\<lambda>j. j \<noteq> i) busy else busy)"
proof -
  have b: "\<forall>i \<in> set busy. i < length (tl_threads lp)" "tl_clients lp \<noteq> [] \<Longrightarrow> \<exists>i < length (tl_threads lp). i \<in> set busy \<or> tl_signalled ev lp i"
    using assms by (simp_all add: tl_attended_def)
  show "tl_attended ev lp1 busy"
    if a: "tl_accept y fd rands lp = Inr (cs, lp1)" "wakes y ev (set (map ti_wakeupfd (tl_threads lp)))" "0 < tl_size lp"
  proof -
    note q = tl_accept_queues [OF a(1)] and s = tl_accept_signals [OF a]
    have l: "length (tl_threads lp1) = length (tl_threads lp)" using q by (simp add: same_setup_def)
    have "\<exists>i < length (tl_threads lp1). i \<in> set busy \<or> tl_signalled ev lp1 i" if "tl_clients lp1 \<noteq> []"
    proof (cases "cs = []")
      case True
      then have "tl_clients lp \<noteq> []" using q that by simp
      then show ?thesis using b(2) s l by auto
    next
      case False
      then show ?thesis using s by (auto simp: tl_signalled_def)
    qed
    then show ?thesis using b(1) l by (simp add: tl_attended_def)
  qed
  show "tl_attended ev (tl_drain ev i lp) (i # busy)" if "tl_signalled ev lp i"
    using that b(1) tl_drain_simps(1) [of lp ev i] by (auto simp: tl_attended_def tl_signalled_def same_setup_def)
  show "tl_attended ev lp2 (if cs = [] then filter (\<lambda>j. j \<noteq> i) busy else busy)"
    if t: "i \<in> set busy" "tl_take ctl y i lp = Inr (cs, lp2)" "tl_readcb lp = Some f"
  proof -
    have e: "tl_clients lp = []" if "cs = []"
      using t(2) that by (cases rule: lq.pop_cases [of "tl_clients lp" no_client]) (auto simp: tl_take_def bind_res_eq_Inr)
    note q = tl_take_serves [OF t(2,3)]
    then have "length (tl_threads lp2) = length (tl_threads lp)" by (simp add: same_setup_def)
    then show ?thesis using q e b(1) t(1) by (auto simp: tl_attended_def)
  qed
qed

lemma tl_run_serves:
  "tl_run ctl y ev evs lp b0 = Inr (acc, got, lp', busy) \<Longrightarrow> tl_readcb lp = Some f \<Longrightarrow> 0 < tl_size lp \<Longrightarrow>
   wakes y ev (set (map ti_wakeupfd (tl_threads lp))) \<Longrightarrow> tl_attended ev lp b0 \<Longrightarrow>
   same_setup lp lp' \<and> map snd got @ tl_clients lp' = tl_clients lp @ acc \<and> tl_attended ev lp' busy
    \<and> (\<forall>(i, c) \<in> set got. i < length (tl_threads lp') \<and> reads_with (ci_fd c) (TClient f (ci_fd c)) (ti_re (tl_threads lp' ! i)))
    \<and> (\<forall>j < length (tl_threads lp). \<forall>fd. reads_with fd (TClient f fd) (ti_re (tl_threads lp ! j))
          \<longrightarrow> reads_with fd (TClient f fd) (ti_re (tl_threads lp' ! j)))"
proof (induction ctl y ev evs lp b0 arbitrary: acc got rule: tl_run.induct)
  case (1 ctl y ev lp busy)
  then show ?case by (simp add: same_setup_def)
next
  case (2 ctl y ev fd rands evs lp b0)
  from "2.prems"(1) obtain cs lp1 acc1 where a: "tl_accept y fd rands lp = Inr (cs, lp1)"
    and r: "tl_run ctl y ev evs lp1 b0 = Inr (acc1, got, lp', busy)" "acc = cs @ acc1" by (auto simp: bind_res_eq_Inr)
  note q = tl_accept_queues [OF a] and s = same_setup_wakes [OF _ "2.prems"(4), of lp1]
  have p: "tl_readcb lp1 = Some f" "0 < tl_size lp1" using q "2.prems"(2,3) by (simp_all add: same_setup_def)
  note t = tl_attended_steps(1) [OF "2.prems"(5) a "2.prems"(4,3)]
  from "2.IH" [OF a refl r(1) p s t] q r(2) show ?case by (auto simp: same_setup_def reads_with_def)
next
  case (3 ctl y ev i evs lp b0)
  show ?case
  proof (cases "tl_signalled ev lp i \<and> i \<notin> set b0")
    case True
    let ?lp = "tl_drain ev i lp"
    have i: "i < length (tl_threads lp)" using True by (simp add: tl_signalled_def)
    note d = tl_drain_simps(1) [of lp ev i] tl_drain_simps(2) [of ev i lp] tl_drain_simps(3) [OF i, of ev]
    have p: "tl_readcb ?lp = Some f" "0 < tl_size ?lp" using d(1) "3.prems"(2,3) by (simp_all add: same_setup_def)
    from "3.prems"(1) True have "tl_run ctl y ev evs ?lp (i # b0) = Inr (acc, got, lp', busy)" by simp
    from "3.IH"(1) [OF True this p same_setup_wakes [OF d(1) "3.prems"(4)] tl_attended_steps(2) [OF "3.prems"(5) conjunct1 [OF True]]]
    show ?thesis using d by (auto simp: same_setup_def reads_with_def)
  next
    case False
    with "3.IH"(2) [OF False] "3.prems" show ?thesis by auto
  qed
next
  case (4 ctl y ev i evs lp b0)
  show ?case
  proof (cases "i \<in> set b0")
    case True
    from "4.prems"(1) True obtain cs lp1 got1 where a: "tl_take ctl y i lp = Inr (cs, lp1)"
      and r: "tl_run ctl y ev evs lp1 (if cs = [] then filter (\<lambda>j. j \<noteq> i) b0 else b0) = Inr (acc, got1, lp', busy)" "got = map (Pair i) cs @ got1"
      by (auto simp: bind_res_eq_Inr)
    note q = tl_take_serves [OF a "4.prems"(2)]
    have p: "tl_readcb lp1 = Some f" "0 < tl_size lp1" using q "4.prems"(2,3) by (simp_all add: same_setup_def)
    have w: "wakes y ev (set (map ti_wakeupfd (tl_threads lp1)))" using q same_setup_wakes [OF _ "4.prems"(4)] by blast
    have "\<not> i \<notin> set b0" using True by simp
    note ih = "4.IH"(2) [OF this a refl r(1) p w tl_attended_steps(3) [OF "4.prems"(5) True a "4.prems"(2)]]
    have "map snd (map (Pair i) cs) = cs" by (simp add: o_def)
    then show ?thesis using ih q r(2) by (auto simp: same_setup_def o_def)
  next
    case False
    with "4.IH"(1) [OF False] "4.prems" show ?thesis by simp
  qed
qed

section \<open>Properties\<close>

text \<open>C14.
  However accepting and the threads interleave, no client is lost, served twice or forgotten: the clients taken by the
  threads, in the order in which they were taken, followed by those still queued are the clients that
  were accepted, in the order of arrival; each client that was taken
  has the read handler of the application on its descriptor in the reactor of the thread that took it; and as long as a client
  is queued, some thread is in its wake-up handler or has a wake-up pending that will start it, so that when the threads have come to
  rest every accepted client has been taken. The loop starts with an empty queue and no handler running, has at least one thread, and an
  \<open>eventfd\<close> that was written to is readable.
\<close>
theorem clients_served_once:
  assumes "tl_run ctl y ev evs lp [] = Inr (acc, got, lp', busy)" and "tl_readcb lp = Some f"
    and "tl_clients lp = []" and "0 < tl_size lp" and "wakes y ev (set (map ti_wakeupfd (tl_threads lp)))"
  shows "map snd got @ tl_clients lp' = acc
    \<and> (\<forall>(i, c) \<in> set got. i < length (tl_threads lp') \<and> reads_with (ci_fd c) (TClient f (ci_fd c)) (ti_re (tl_threads lp' ! i)))
    \<and> (tl_clients lp' \<noteq> [] \<longrightarrow> (\<exists>i < length (tl_threads lp'). i \<in> set busy \<or> tl_signalled ev lp' i))"
proof -
  have "tl_attended ev lp []" using assms(3) by (simp add: tl_attended_def)
  with tl_run_serves [OF assms(1,2,4,5)] assms(3) show ?thesis by (simp add: tl_attended_def)
qed

section \<open>An example\<close>

text \<open>
  Two threads, and a kernel in which every \<open>accept\<close> brings a client; the first list in the kernel of a thread are the descriptors
  that were written to.
\<close>

definition ex_accepting :: "(int list \<times> nat list, nat) sys" where
  "ex_accepting = ex_sys\<lparr>s_getnameinfo := \<lambda>a k. (Some (''peer'', ''80''), k), s_write := \<lambda>fd s (l, a). (int (length s), fd # l, a)\<rparr>"

definition ex_eventfds :: "(int list \<times> nat list) eventfds" where
  "ex_eventfds = \<lparr>ev_ready = (\<lambda>fd (l, a). fd \<in> set l), ev_read = (\<lambda>fd (l, a). (filter (\<lambda>x. x \<noteq> fd) l, a))\<rparr>"

definition ex_loop :: "((int, int) smap, int list \<times> nat list, unit) thread_loop" where
  "ex_loop = \<lparr>tl_pool = pool_new 0, tl_re = reactor_new \<lparr>readset_in = None, writeset_in = None, readset_out = None, writeset_out = None,
       sel_size = 0, highest_fd = 0, sel_active = []\<rparr> ([3], []),
     tl_threads = map (\<lambda>i. \<lparr>ti_id = i, ti_wakeupfd = 10 + i, ti_re = reactor_new ex_io ([], [])\<rparr>) [0, 1],
     tl_clients = [], tl_size = 2, tl_readcb = Some (), tl_writecb = None, tl_errorcb = None\<rparr>"

definition ex_events :: "tl_event list" where
  "ex_events = [Taking 0, Accepting 3 [0, 1], Accepting 3 [1, 1], Waking 1, Taking 1, Waking 0, Taking 0, Taking 1, Taking 0, Waking 0, Accepting 3 [0, 0]]"

lemma ex_loop_runs:
  "case tl_run list_ctl ex_accepting ex_eventfds ex_events ex_loop [] of Inl _ \<Rightarrow> False
   | Inr (acc, got, lp, busy) \<Rightarrow> map ci_fd acc = [4, 8, 16] \<and> map fst got = [1, 0] \<and> map (ci_fd \<circ> snd) got = [4, 8]
       \<and> busy = [] \<and> tl_signalled ex_eventfds lp 0 \<and> \<not> tl_signalled ex_eventfds lp 1"
  by code_simp

lemma ex_wakes: "wakes ex_accepting ex_eventfds W"
  by (auto simp: wakes_def ex_accepting_def ex_eventfds_def)

theorem clients_served_once_witness:
  "\<exists>acc got lp busy. tl_run list_ctl ex_accepting ex_eventfds ex_events ex_loop [] = Inr (acc, got, lp, busy) \<and> map fst got = [1, 0] \<and> map snd got @ tl_clients lp = acc
    \<and> (\<forall>(i, c) \<in> set got. reads_with (ci_fd c) (TClient () (ci_fd c)) (ti_re (tl_threads lp ! i)))
    \<and> (tl_clients lp \<noteq> [] \<longrightarrow> (\<exists>i. i \<in> set busy \<or> tl_signalled ex_eventfds lp i))"
proof -
  obtain acc got lp busy where r: "tl_run list_ctl ex_accepting ex_eventfds ex_events ex_loop [] = Inr (acc, got, lp, busy)" "map fst got = [1, 0]"
    using ex_loop_runs by (auto split: sum.splits)
  have "tl_readcb ex_loop = Some ()" "tl_clients ex_loop = []" "0 < tl_size ex_loop" by (simp_all add: ex_loop_def)
  from clients_served_once [OF r(1) this ex_wakes] r show ?thesis by auto
qed

end
