(* ===== verification/Libio_Proactor.thy ===== *)
theory Libio_Proactor
  imports Libio_Reactor Libio_Lock
begin

text \<open>
  The proactor of \<open>src/model/proactor.hh\<close>: operations are queued per descriptor and direction, the
  handlers of a reactor move the first one of a ready descriptor to a common queue, and the threads in
  \<open>run\<close> take them from there. A queued callback is an \<open>operation\<close>, which also says how it was submitted;
  the code keeps the callback alone. A closure \<open>[this, socket]\<close> is a value of \<open>phandler\<close>.
\<close>

section \<open>Operations on a descriptor\<close>

record 'b operation =
  o_write :: bool
  o_fd :: int
  o_cb :: 'b

datatype phandler = OnRead int | OnWrite int

record 'b descriptor_data =
  write_queue :: "'b operation list"
  read_queue :: "'b operation list"

record 'b pdata =
  stopped :: bool
  inloop :: bool
  ops :: "(int, 'b descriptor_data) smap"
  op_queue :: "'b operation list"

definition pdata_new :: "'b pdata" where
  "pdata_new = \<lparr>stopped = False, inloop = False, ops = [], op_queue = []\<rparr>"

definition init_descriptor :: "int \<Rightarrow> 'b pdata \<Rightarrow> 'b pdata" where
  "init_descriptor fd d =
     (if smap_count fd (ops d) then d else d\<lparr>ops := smap_set fd \<lparr>write_queue = [], read_queue = []\<rparr> (ops d)\<rparr>)"

definition data_at :: "int \<Rightarrow> 'b pdata \<Rightarrow> 'b descriptor_data res" where
  "data_at fd d = (case smap_find fd (ops d) of None \<Rightarrow> Inl NullDeref | Some x \<Rightarrow> Inr x)"

definition put_data :: "int \<Rightarrow> 'b descriptor_data \<Rightarrow> 'b pdata \<Rightarrow> 'b pdata" where
  "put_data fd x d = d\<lparr>ops := smap_set fd x (ops d)\<rparr>"

definition async_write ::
  "('io, 'i) io_ops \<Rightarrow> ('q, 'a) sys \<Rightarrow> int \<Rightarrow> 'b \<Rightarrow> 'b pdata \<times> ('io, phandler, 'q) reactor \<Rightarrow> ('b pdata \<times> ('io, phandler, 'q) reactor) res" where
  "async_write io y socket f dr =
     (if socket < 0 then Inr dr
      else
        let d = init_descriptor socket (fst dr) in
        bind_res (data_at socket d) (\<lambda>x.
        let d1 = put_data socket (x\<lparr>write_queue := write_queue x @ [\<lparr>o_write = True, o_fd = socket, o_cb = f\<rparr>]\<rparr>) d in
        bind_res (set_write_handler io y socket (OnWrite socket) (snd dr)) (\<lambda>r. Inr (d1, r))))"

definition async_read ::
  "('io, 'i) io_ops \<Rightarrow> ('q, 'a) sys \<Rightarrow> int \<Rightarrow> 'b \<Rightarrow> 'b pdata \<times> ('io, phandler, 'q) reactor \<Rightarrow> ('b pdata \<times> ('io, phandler, 'q) reactor) res" where
  "async_read io y socket f dr =
     (if socket < 0 then Inr dr
      else
        let d = init_descriptor socket (fst dr) in
        bind_res (data_at socket d) (\<lambda>x.
        let d1 = put_data socket (x\<lparr>read_queue := read_queue x @ [\<lparr>o_write = False, o_fd = socket, o_cb = f\<rparr>]\<rparr>) d in
        bind_res (set_read_handler io y socket (OnRead socket) (snd dr)) (\<lambda>r. Inr (d1, r))))"

definition async_accept ::
  "('io, 'i) io_ops \<Rightarrow> ('q, 'a) sys \<Rightarrow> int \<Rightarrow> 'b \<Rightarrow> 'b pdata \<times> ('io, phandler, 'q) reactor \<Rightarrow> ('b pdata \<times> ('io, phandler, 'q) reactor) res" where
  "async_accept = async_read"

text \<open>
  The two closures. \<open>remove_write_handler\<close> and \<open>remove_read_handler\<close> destroy the closure that is running,
  and its captured \<open>this\<close> and \<open>socket\<close> are used afterwards: undefined behaviour. Where the compiler
  keeps both in registers (\<open>kept\<close>), the code goes on as if nothing had happened.
\<close>

definition forget_idle :: "int \<Rightarrow> 'b pdata \<Rightarrow> 'b pdata res" where
  "forget_idle socket d =
     bind_res (data_at socket d) (\<lambda>x.
       Inr (if read_queue x = [] \<and> write_queue x = [] then d\<lparr>ops := smap_erase socket (ops d)\<rparr> else d))"

definition on_writable ::
  "bool \<Rightarrow> ('io, 'i) io_ops \<Rightarrow> int \<Rightarrow> 'b pdata \<times> ('io, phandler, 'q) reactor \<Rightarrow> ('b pdata \<times> ('io, phandler, 'q) reactor) res" where
  "on_writable kept io socket dr =
     (if \<not> smap_count socket (ops (fst dr)) then Inr dr
      else
        bind_res (data_at socket (fst dr)) (\<lambda>x.
          case write_queue x of
            [] \<Rightarrow> Inr dr
          | c # cs \<Rightarrow>
              let d1 = put_data socket (x\<lparr>write_queue := cs\<rparr>) ((fst dr)\<lparr>op_queue := snd (lq_push c (op_queue (fst dr)))\<rparr>) in
              bind_res (if cs = [] then remove_write_handler io socket (snd dr) else Inr (snd dr)) (\<lambda>r.
              if cs = [] \<and> \<not> kept then Inl BadAccess
              else bind_res (forget_idle socket d1) (\<lambda>d2. Inr (d2, r)))))"

definition on_readable ::
  "bool \<Rightarrow> ('io, 'i) io_ops \<Rightarrow> int \<Rightarrow> 'b pdata \<times> ('io, phandler, 'q) reactor \<Rightarrow> ('b pdata \<times> ('io, phandler, 'q) reactor) res" where
  "on_readable kept io socket dr =
     (if \<not> smap_count socket (ops (fst dr)) then Inr dr
      else
        bind_res (data_at socket (fst dr)) (\<lambda>x.
          case read_queue x of
            [] \<Rightarrow> Inr dr
          | c # cs \<Rightarrow>
              let d1 = put_data socket (x\<lparr>read_queue := cs\<rparr>) ((fst dr)\<lparr>op_queue := snd (lq_push c (op_queue (fst dr)))\<rparr>) in
              bind_res (if cs = [] then remove_read_handler io socket (snd dr) else Inr (snd dr)) (\<lambda>r.
              if cs = [] \<and> \<not> kept then Inl BadAccess
              else bind_res (forget_idle socket d1) (\<lambda>d2. Inr (d2, r)))))"

fun pro_exec :: "bool \<Rightarrow> ('io, 'i) io_ops \<Rightarrow> ('io, phandler, 'q, 'b pdata) rexec" where
  "pro_exec kept io (OnRead socket) dr = on_readable kept io socket dr"
| "pro_exec kept io (OnWrite socket) dr = on_writable kept io socket dr"

section \<open>The threads in \<open>run\<close>\<close>

text \<open>
  Where a thread is in \<open>run\<close>: at the test of \<open>stopped\<close>, at the test of \<open>op_queue\<close>, before \<open>pop\<close>, behind it
  with what it got, before \<open>notify_one\<close>, in a callback with the operations it is still to submit, at the
  test of \<open>ops\<close> and \<open>inloop\<close>, before the mutex that guards the loop, in the loop, before the mutex of
  the waiting branch, in \<open>wait\<close>, and awake in \<open>wait\<close> before it has the mutex again.
\<close>

datatype 'b ppc =
    Test | Look | Popping | Popped "'b operation option" | Notify "'b operation option" | Calling "'b operation list"
  | LookOps | WantLoop | InLoop | WantWait | Sleeping | Awake | Returned

record ('io, 'q, 'b) pro =
  p_data :: "'b pdata"
  p_task :: "('io, phandler, 'q) reactor"
  p_owner :: "nat option"
  p_pcs :: "'b ppc list"

text \<open>What is observed of a step: an operation that was submitted, or one whose callback starts.\<close>

datatype 'b plabel = Submit "'b operation" | Start "'b operation"

text \<open>What happens around \<open>run\<close>: the multiplexer, the system calls, and the operations that a callback submits.\<close>

record ('io, 'i, 'q, 'a, 'b) penv =
  pe_kept :: bool
  pe_io :: "('io, 'i) io_ops"
  pe_sys :: "('q, 'a) sys"
  pe_acts :: "'b \<Rightarrow> 'b operation list"

definition goto :: "nat \<Rightarrow> 'b ppc \<Rightarrow> ('io, 'q, 'b) pro \<Rightarrow> ('io, 'q, 'b) pro" where
  "goto t pc s = s\<lparr>p_pcs := (p_pcs s)[t := pc]\<rparr>"

definition submit :: "('io, 'i, 'q, 'a, 'b) penv \<Rightarrow> 'b operation \<Rightarrow> ('io, 'q, 'b) pro \<Rightarrow> ('b plabel list \<times> ('io, 'q, 'b) pro) res" where
  "submit env a s =
     bind_res (if o_write a then async_write (pe_io env) (pe_sys env) (o_fd a) (o_cb a) (p_data s, p_task s)
               else async_read (pe_io env) (pe_sys env) (o_fd a) (o_cb a) (p_data s, p_task s)) (\<lambda>(d, r).
       Inr (if o_fd a < 0 then [] else [Submit a], s\<lparr>p_data := d, p_task := r\<rparr>))"

definition called :: "('io, 'i, 'q, 'a, 'b) penv \<Rightarrow> 'b operation option \<Rightarrow> 'b ppc" where
  "called env x = (case x of None \<Rightarrow> Test | Some c \<Rightarrow> Calling (pe_acts env (o_cb c)))"

text \<open>When thread \<open>t\<close> can take a step: the steps that lock need the mutex.\<close>

fun locks :: "'b ppc \<Rightarrow> bool" where
  "locks (Notify x) = True"
| "locks (Calling (a # as)) = (0 \<le> o_fd a)"
| "locks WantLoop = True"
| "locks WantWait = True"
| "locks Awake = True"
| "locks _ = False"

definition pro_enabled :: "nat \<Rightarrow> ('io, 'q, 'b) pro \<Rightarrow> bool" where
  "pro_enabled t s =
     (t < length (p_pcs s) \<and> p_pcs s ! t \<noteq> Sleeping \<and> p_pcs s ! t \<noteq> Returned \<and> (locks (p_pcs s ! t) \<longrightarrow> p_owner s = None))"

text \<open>
  The step; \<open>i\<close> is what a round of the reactor takes from outside, \<open>k\<close> the sleeper that \<open>notify_one\<close>
  wakes. A round of the reactor, which holds the mutex, is one step.
\<close>

definition wait_on :: "nat \<Rightarrow> ('io, 'q, 'b) pro \<Rightarrow> ('io, 'q, 'b) pro" where
  "wait_on t s = goto t (if \<not> lq_empty (op_queue (p_data s)) \<or> stopped (p_data s) then Test else Sleeping) s"

definition loop_once :: "('io, 'i, 'q, 'a, 'b) penv \<Rightarrow> 'i round_in \<Rightarrow> nat \<Rightarrow> ('io, 'q, 'b) pro \<Rightarrow> ('io, 'q, 'b) pro res" where
  "loop_once env i t s =
     bind_res (reactor_loop (pe_io env) (pro_exec (pe_kept env) (pe_io env)) False True [i] (p_data s, p_task s)) (\<lambda>(d, r).
       Inr (goto t Test (s\<lparr>p_data := d\<lparr>inloop := False\<rparr>, p_task := r, p_owner := None\<rparr>)))"

definition pro_step ::
  "('io, 'i, 'q, 'a, 'b) penv \<Rightarrow> 'i round_in \<Rightarrow> nat option \<Rightarrow> nat \<Rightarrow> ('io, 'q, 'b) pro \<Rightarrow> ('b plabel list \<times> ('io, 'q, 'b) pro) res" where
  "pro_step env i k t s =
     (case p_pcs s ! t of
        Test \<Rightarrow> Inr ([], goto t (if stopped (p_data s) then Returned else Look) s)
      | Look \<Rightarrow> Inr ([], goto t (if lq_empty (op_queue (p_data s)) then LookOps else Popping) s)
      | Popping \<Rightarrow>
          (case op_queue (p_data s) of
             [] \<Rightarrow> Inr ([], goto t (Popped None) s)
           | c # q \<Rightarrow> Inr ([Start c], goto t (Popped (Some c)) (s\<lparr>p_data := (p_data s)\<lparr>op_queue := q\<rparr>\<rparr>)))
      | Popped x \<Rightarrow> Inr ([], goto t (if lq_empty (op_queue (p_data s)) then called env x else Notify x) s)
      | Notify x \<Rightarrow> Inr ([], goto t (called env x) (case k of None \<Rightarrow> s | Some j \<Rightarrow> goto j Awake s))
      | Calling as \<Rightarrow>
          (case as of
             [] \<Rightarrow> Inr ([], goto t Test s)
           | a # bs \<Rightarrow> bind_res (submit env a s) (\<lambda>(l, s1). Inr (l, goto t (Calling bs) s1)))
      | LookOps \<Rightarrow> Inr ([], goto t (if ops (p_data s) \<noteq> [] \<and> \<not> inloop (p_data s) then WantLoop else WantWait) s)
      | WantLoop \<Rightarrow> Inr ([], goto t InLoop (s\<lparr>p_owner := Some t, p_data := (p_data s)\<lparr>inloop := True\<rparr>\<rparr>))
      | InLoop \<Rightarrow> bind_res (loop_once env i t s) (\<lambda>s1. Inr ([], s1))
      | WantWait \<Rightarrow> Inr ([], wait_on t s)
      | Awake \<Rightarrow> Inr ([], wait_on t s)
      | Sleeping \<Rightarrow> Inr ([], s)
      | Returned \<Rightarrow> Inr ([], s))"

text \<open>Runs: steps of the threads, spurious wake-ups, and submissions from outside.\<close>

definition wakes :: "nat option \<Rightarrow> ('io, 'q, 'b) pro \<Rightarrow> bool" where
  "wakes k s = (case k of None \<Rightarrow> Sleeping \<notin> set (p_pcs s) | Some j \<Rightarrow> j < length (p_pcs s) \<and> p_pcs s ! j = Sleeping)"

inductive pro_thread_step :: "('io, 'i, 'q, 'a, 'b) penv \<Rightarrow> ('io, 'q, 'b) pro \<Rightarrow> 'b plabel list \<Rightarrow> ('io, 'q, 'b) pro \<Rightarrow> bool"
  for env where
  move: "pro_enabled t s \<Longrightarrow> wakes k s \<Longrightarrow> pro_step env i k t s = Inr (l, s') \<Longrightarrow> pro_thread_step env s l s'"
| spurious: "t < length (p_pcs s) \<Longrightarrow> p_pcs s ! t = Sleeping \<Longrightarrow> pro_thread_step env s [] (goto t Awake s)"

inductive pro_run :: "('io, 'i, 'q, 'a, 'b) penv \<Rightarrow> ('io, 'q, 'b) pro \<Rightarrow> 'b plabel list \<Rightarrow> ('io, 'q, 'b) pro \<Rightarrow> bool"
  for env s where
  run_start: "pro_run env s [] s"
| run_thread: "pro_run env s ls s1 \<Longrightarrow> pro_thread_step env s1 l s2 \<Longrightarrow> pro_run env s (ls @ l) s2"
| run_outside: "pro_run env s ls s1 \<Longrightarrow> p_owner s1 = None \<or> o_fd a < 0 \<Longrightarrow> submit env a s1 = Inr (l, s2) \<Longrightarrow> pro_run env s (ls @ l) s2"

definition pro_new :: "('io, phandler, 'q) reactor \<Rightarrow> nat \<Rightarrow> ('io, 'q, 'b) pro" where
  "pro_new r n = \<lparr>p_data = pdata_new, p_task = r, p_owner = None, p_pcs = replicate n Test\<rparr>"

section \<open>What callbacks keep, the loop keeps\<close>

definition cb_keeps :: "('w \<Rightarrow> bool) \<Rightarrow> ('io, 'cb, 'q, 'w) rexec \<Rightarrow> bool" where
  "cb_keeps I exec = (\<forall>cb wr. I (fst wr) \<longrightarrow> outcome UNIV (\<lambda>wr'. I (fst wr')) (exec cb wr))"

lemma timer_exec_keeps: "cb_keeps I exec \<Longrightarrow> exec_keeps UNIV (\<lambda>wr. I (fst wr)) (timer_exec exec)"
  unfolding exec_keeps_def timer_exec_def cb_keeps_def
  by (auto split: prod.splits intro!: safe_bind [where Q = "\<lambda>wr'. I (fst wr')"])

lemma with_timers_fst [simp]: "fst (with_timers x) = fst (fst x)"
  by (cases x) (auto simp: with_timers_def split: prod.splits)

lemma cb_keepsD: "cb_keeps I exec \<Longrightarrow> I (fst wr) \<Longrightarrow> outcome UNIV (\<lambda>wr'. I (fst wr')) (exec cb wr)"
  unfolding cb_keeps_def by blast

lemma run_handler_keeps:
  assumes "cb_keeps I exec" and "I (fst wr)"
  shows "outcome UNIV (\<lambda>wr'. I (fst wr')) (run_handler ready cbof exec fd wr)"
  using cb_keepsD [OF assms] assms(2)
  by (cases "ready fd (re_io (snd wr))"; cases "channel_at fd (snd wr)") (auto simp: run_handler_def split: option.splits)

lemma dispatch_keeps: "cb_keeps I exec \<Longrightarrow> I (fst wr) \<Longrightarrow> outcome UNIV (\<lambda>wr'. I (fst wr')) (dispatch io exec fds wr)"
proof (induction fds arbitrary: wr)
  case (Cons fd fds)
  show ?case unfolding dispatch.simps
    by (rule safe_bind [OF run_handler_keeps [OF Cons.prems]])
      (rule safe_bind [OF run_handler_keeps [OF Cons.prems(1)]], assumption, rule Cons.IH [OF Cons.prems(1)])
qed simp

lemma round_keeps:
  fixes exec :: "('io, 'cb, 'q, 'w) rexec"
  assumes k: "cb_keeps I exec" and i: "I (fst wr)"
  shows "outcome UNIV (\<lambda>wr'. I (fst wr')) (reactor_round io exec nonblock inp wr)"
proof -
  note t = timer_exec_keeps [OF k]
  have ct: "outcome UNIV (\<lambda>(t, wr'). I (fst wr')) (choose_timeout exec nonblock inp wr)"
  proof -
    have "outcome UNIV (\<lambda>(t, wr'). I (fst wr'))
      (bind_res (shortest_time (timer_fuel inp) (timer_exec exec) (clock1 inp) (clock2 inp) (wr, re_time (snd wr)))
        (\<lambda>(timeout, x). Inr (timeout, with_timers x)))"
      by (rule safe_bind [OF shortest_time_world [OF t]]) (use i in auto)
    then show ?thesis using i by (simp add: choose_timeout_def)
  qed
  have rt: "outcome UNIV (\<lambda>wr'. I (fst wr')) (run_timers exec inp wr1)" if "I (fst wr1)" for wr1
    unfolding run_timers_def by (rule safe_bind [OF time_process_world [OF t]]) (use that in auto)
  have dp: "outcome UNIV (\<lambda>wr'. I (fst wr')) (bind_res (dispatch io exec fds wr2) (\<lambda>(w3, r3). Inr (w3, clean_channels r3)))" if "I (fst wr2)" for fds wr2
    by (rule safe_bind [OF dispatch_keeps [OF k that]]) auto
  show ?thesis unfolding reactor_round_def
  proof (rule safe_bind [OF ct], clarify)
    fix tm and w1 :: 'w and r1 :: "('io, 'cb, 'q) reactor"
    assume w1: "I (fst (w1, r1))"
    show "outcome UNIV (\<lambda>wr'. I (fst wr')) (bind_res (io_listen io (answer inp tm) (re_io (snd (w1, r1)))) (\<lambda>(res, s).
        bind_res (run_timers exec inp (fst (w1, r1), (snd (w1, r1))\<lparr>re_io := s\<rparr>)) (\<lambda>wr2.
        bind_res (dispatch io exec (io_active io (re_io (snd wr2))) wr2) (\<lambda>(w3, r3). Inr (w3, clean_channels r3)))))"
      by (rule safe_bind [where Q = "\<lambda>_. True"], simp add: safe_iff) (clarify, rule safe_bind [OF rt], use w1 in simp, rule dp)
  qed
qed

lemma loop_keeps:
  "cb_keeps I exec \<Longrightarrow> I (fst wr) \<Longrightarrow> reactor_loop io exec nonblock once ins wr = Inr wr' \<Longrightarrow> I (fst wr')"
proof (induction ins arbitrary: wr)
  case Nil
  then show ?case by (simp add: reactor_loop.simps [of _ _ _ _ "[]"] split: if_splits)
next
  case (Cons i ins)
  have "I (fst wr1)" if "reactor_round io exec nonblock i wr = Inr wr1" for wr1
    using round_keeps [OF Cons.prems(1,2)] that by (rule safe_Inr_D)
  with Cons show ?case by (fastforce simp: reactor_loop.simps [of _ _ _ _ "i # ins"] bind_res_eq_Inr split: if_splits)
qed

section \<open>Operations start once and in order\<close>

definition queue_of :: "bool \<Rightarrow> int \<Rightarrow> 'b pdata \<Rightarrow> 'b operation list" where
  "queue_of w fd d = (case smap_find fd (ops d) of None \<Rightarrow> [] | Some x \<Rightarrow> if w then write_queue x else read_queue x)"

definition ops_of :: "bool \<Rightarrow> int \<Rightarrow> 'b operation list \<Rightarrow> 'b operation list" where
  "ops_of w fd l = filter (\<lambda>c. o_write c = w \<and> o_fd c = fd) l"

fun submitted :: "'b plabel list \<Rightarrow> 'b operation list" where
  "submitted [] = []"
| "submitted (Submit a # ls) = a # submitted ls"
| "submitted (Start a # ls) = submitted ls"

fun started :: "'b plabel list \<Rightarrow> 'b operation list" where
  "started [] = []"
| "started (Submit a # ls) = started ls"
| "started (Start a # ls) = a # started ls"

lemma submitted_append [simp]: "submitted (xs @ ys) = submitted xs @ submitted ys"
  by (induction xs rule: submitted.induct) auto

lemma started_append [simp]: "started (xs @ ys) = started xs @ started ys"
  by (induction xs rule: started.induct) auto

lemma ops_of_append [simp]: "ops_of w fd (xs @ ys) = ops_of w fd xs @ ops_of w fd ys" "ops_of w fd [] = []"
  by (simp_all add: ops_of_def)

lemma ops_of_one: "ops_of w fd [c] = (if o_write c = w \<and> o_fd c = fd then [c] else [])"
  by (simp add: ops_of_def)

text \<open>\<open>subs\<close> have been submitted, \<open>sts\<close> started.\<close>

definition ops_inv :: "'b operation list \<Rightarrow> 'b operation list \<Rightarrow> 'b pdata \<Rightarrow> bool" where
  "ops_inv subs sts d =
     (smap_ok (ops d) \<and> (\<forall>w fd. ops_of w fd subs = ops_of w fd sts @ ops_of w fd (op_queue d) @ queue_of w fd d)
      \<and> (\<forall>w fd. \<forall>c \<in> set (queue_of w fd d). o_write c = w \<and> o_fd c = fd))"

lemma forget_idle_keeps:
  assumes i: "ops_inv subs sts d" and f: "forget_idle socket d = Inr d'"
  shows "ops_inv subs sts d'"
proof -
  have ok: "smap_ok (ops d)" using i by (simp add: ops_inv_def)
  obtain x where x: "smap_find socket (ops d) = Some x"
    and d': "d' = (if read_queue x = [] \<and> write_queue x = [] then d\<lparr>ops := smap_erase socket (ops d)\<rparr> else d)"
    using f by (auto simp: forget_idle_def data_at_def bind_res_eq_Inr split: option.splits)
  have "queue_of w fd d' = queue_of w fd d" for w fd using x d' ok by (simp add: queue_of_def smap_find_erase)
  moreover have "op_queue d' = op_queue d" "smap_ok (ops d')" using d' ok by simp_all
  ultimately show ?thesis using i by (simp add: ops_inv_def)
qed

lemma moved_keeps:
  assumes i: "ops_inv subs sts d" and x: "data_at socket d = Inr x" and q: "queue_of w socket d = c # cs"
    and y: "(if w then write_queue y = cs \<and> read_queue y = read_queue x else read_queue y = cs \<and> write_queue y = write_queue x)"
  shows "ops_inv subs sts (put_data socket y (d\<lparr>op_queue := snd (lq_push c (op_queue d))\<rparr>))" (is "ops_inv _ _ ?d")
proof -
  have c: "o_write c = w" "o_fd c = socket" using i q unfolding ops_inv_def by (metis list.set_intros(1))+
  have qs: "queue_of v fd ?d = (if fd = socket \<and> v = w then cs else queue_of v fd d)" for v fd
    using x y by (auto simp: queue_of_def put_data_def data_at_def smap_find_set split: option.splits if_splits)
  have oq: "op_queue ?d = op_queue d @ [c]" by (simp add: put_data_def lq_push_def)
  have tags: "\<forall>e \<in> set (queue_of v fd d). o_write e = v \<and> o_fd e = fd" for v fd using i by (simp add: ops_inv_def)
  have eqs: "ops_of v fd subs = ops_of v fd sts @ ops_of v fd (op_queue d) @ queue_of v fd d" for v fd using i by (simp add: ops_inv_def)
  have "ops_of v fd subs = ops_of v fd sts @ ops_of v fd (op_queue ?d) @ queue_of v fd ?d" for v fd
  proof (cases "fd = socket \<and> v = w")
    case True
    then have "ops_of v fd [c] = [c]" using c by (simp add: ops_of_one)
    then show ?thesis unfolding oq qs ops_of_append using eqs [of v fd] q True by simp
  next
    case False
    then have "ops_of v fd [c] = []" using c by (auto simp: ops_of_one)
    then show ?thesis unfolding oq qs ops_of_append if_not_P [OF False] using eqs [of v fd] by simp
  qed
  moreover have "\<forall>e \<in> set (queue_of v fd ?d). o_write e = v \<and> o_fd e = fd" for v fd
  proof
    fix e
    assume "e \<in> set (queue_of v fd ?d)"
    then have "e \<in> set (queue_of v fd d)" unfolding qs using q by (cases "fd = socket \<and> v = w") auto
    then show "o_write e = v \<and> o_fd e = fd" by (rule bspec [OF tags])
  qed
  moreover have "smap_ok (ops ?d)" using i by (simp add: ops_inv_def put_data_def)
  ultimately show ?thesis by (simp add: ops_inv_def)
qed

lemma handlers_keep: "cb_keeps (ops_inv subs sts) (pro_exec kept io)"
proof -
  have "ops_inv subs sts (fst dr')" if i: "ops_inv subs sts (fst dr)" and e: "pro_exec kept io cb dr = Inr dr'" for cb dr dr'
  proof (cases cb)
    case (OnRead socket)
    show ?thesis
    proof (cases "smap_find socket (ops (fst dr))")
      case None
      with i e OnRead show ?thesis by (simp add: on_readable_def smap_count_def)
    next
      case (Some x)
      then have x: "data_at socket (fst dr) = Inr x" "smap_count socket (ops (fst dr))" by (simp_all add: data_at_def smap_count_def)
      show ?thesis
      proof (cases "read_queue x")
        case Nil
        with i e OnRead x show ?thesis by (simp add: on_readable_def)
      next
        case (Cons c cs)
        let ?d = "put_data socket (x\<lparr>read_queue := cs\<rparr>) ((fst dr)\<lparr>op_queue := snd (lq_push c (op_queue (fst dr)))\<rparr>)"
        have "queue_of False socket (fst dr) = c # cs" using Some Cons by (simp add: queue_of_def)
        from moved_keeps [OF i x(1) this] have "ops_inv subs sts ?d" by simp
        moreover have "forget_idle socket ?d = Inr (fst dr')" using e OnRead x Cons by (auto simp: on_readable_def Let_def bind_res_eq_Inr split: if_splits)
        ultimately show ?thesis by (rule forget_idle_keeps)
      qed
    qed
  next
    case (OnWrite socket)
    show ?thesis
    proof (cases "smap_find socket (ops (fst dr))")
      case None
      with i e OnWrite show ?thesis by (simp add: on_writable_def smap_count_def)
    next
      case (Some x)
      then have x: "data_at socket (fst dr) = Inr x" "smap_count socket (ops (fst dr))" by (simp_all add: data_at_def smap_count_def)
      show ?thesis
      proof (cases "write_queue x")
        case Nil
        with i e OnWrite x show ?thesis by (simp add: on_writable_def)
      next
        case (Cons c cs)
        let ?d = "put_data socket (x\<lparr>write_queue := cs\<rparr>) ((fst dr)\<lparr>op_queue := snd (lq_push c (op_queue (fst dr)))\<rparr>)"
        have "queue_of True socket (fst dr) = c # cs" using Some Cons by (simp add: queue_of_def)
        from moved_keeps [OF i x(1) this] have "ops_inv subs sts ?d" by simp
        moreover have "forget_idle socket ?d = Inr (fst dr')" using e OnWrite x Cons by (auto simp: on_writable_def Let_def bind_res_eq_Inr split: if_splits)
        ultimately show ?thesis by (rule forget_idle_keeps)
      qed
    qed
  qed
  then show ?thesis unfolding cb_keeps_def safe_iff by blast
qed

lemma init_descriptor_data: "\<exists>x. data_at fd (init_descriptor fd d) = Inr x"
  by (auto simp: data_at_def init_descriptor_def smap_count_def smap_find_set)

lemma init_descriptor_keeps:
  "queue_of w j (init_descriptor fd d) = queue_of w j d" "op_queue (init_descriptor fd d) = op_queue d"
  "smap_ok (ops d) \<Longrightarrow> smap_ok (ops (init_descriptor fd d))"
  by (auto simp: queue_of_def init_descriptor_def smap_count_def smap_find_set)

lemma pushed_keeps:
  assumes i: "ops_inv subs sts d" and x: "data_at (o_fd a) (init_descriptor (o_fd a) d) = Inr x"
    and y: "y = (if o_write a then x\<lparr>write_queue := write_queue x @ [a]\<rparr> else x\<lparr>read_queue := read_queue x @ [a]\<rparr>)"
  shows "ops_inv (subs @ [a]) sts (put_data (o_fd a) y (init_descriptor (o_fd a) d))" (is "ops_inv _ _ ?d")
proof -
  have qs: "queue_of v fd ?d = queue_of v fd d @ ops_of v fd [a]" for v fd
    using x y init_descriptor_keeps(1) [of v fd "o_fd a" d]
    by (auto simp: queue_of_def put_data_def data_at_def smap_find_set ops_of_one split: option.splits)
  have oq: "op_queue ?d = op_queue d" by (simp add: put_data_def init_descriptor_keeps)
  have eqs: "ops_of v fd subs = ops_of v fd sts @ ops_of v fd (op_queue d) @ queue_of v fd d" for v fd using i by (simp add: ops_inv_def)
  have tags: "\<forall>e \<in> set (queue_of v fd d). o_write e = v \<and> o_fd e = fd" for v fd using i by (simp add: ops_inv_def)
  have "smap_ok (ops ?d)" using i init_descriptor_keeps(3) [of d "o_fd a"] by (simp add: ops_inv_def put_data_def)
  moreover have "\<forall>e \<in> set (queue_of v fd ?d). o_write e = v \<and> o_fd e = fd" for v fd
  proof
    fix e
    assume "e \<in> set (queue_of v fd ?d)"
    then have "e \<in> set (queue_of v fd d) \<or> e \<in> set (ops_of v fd [a])" unfolding qs by simp
    then show "o_write e = v \<and> o_fd e = fd" using bspec [OF tags] by (auto simp: ops_of_def split: if_splits)
  qed
  moreover have "ops_of v fd (subs @ [a]) = ops_of v fd sts @ ops_of v fd (op_queue ?d) @ queue_of v fd ?d" for v fd
    unfolding qs oq ops_of_append eqs [of v fd] by simp
  ultimately show ?thesis unfolding ops_inv_def by blast
qed

lemma submit_keeps:
  assumes i: "ops_inv subs sts (p_data s)" and e: "submit env a s = Inr (l, s')"
  shows "ops_inv (subs @ submitted l) (sts @ started l) (p_data s')"
proof (cases "o_fd a < 0")
  case True
  with e i show ?thesis by (cases "o_write a") (auto simp: submit_def async_write_def async_read_def)
next
  case False
  obtain x where x: "data_at (o_fd a) (init_descriptor (o_fd a) (p_data s)) = Inr x" using init_descriptor_data by blast
  have "o_write a \<Longrightarrow> \<lparr>o_write = True, o_fd = o_fd a, o_cb = o_cb a\<rparr> = a" "\<not> o_write a \<Longrightarrow> \<lparr>o_write = False, o_fd = o_fd a, o_cb = o_cb a\<rparr> = a"
    by (cases a, simp)+
  with pushed_keeps [OF i x refl] x e False show ?thesis
    by (cases "o_write a") (auto simp: submit_def async_write_def async_read_def bind_res_eq_Inr Let_def)
qed

lemma goto_data [simp]: "p_data (goto t pc s) = p_data s" "p_task (goto t pc s) = p_task s" "p_owner (goto t pc s) = p_owner s"
  by (simp_all add: goto_def)

lemma ops_inv_flags [simp]: "ops_inv subs sts (d\<lparr>inloop := b\<rparr>) = ops_inv subs sts d"
  by (simp add: ops_inv_def queue_of_def)

lemma loop_once_keeps: "ops_inv subs sts (p_data s) \<Longrightarrow> loop_once env i t s = Inr s' \<Longrightarrow> ops_inv subs sts (p_data s')"
  using loop_keeps [OF handlers_keep, of subs sts "(p_data s, p_task s)"]
  by (fastforce simp: loop_once_def bind_res_eq_Inr)

lemma pop_keeps:
  assumes "ops_inv subs sts d" and "op_queue d = c # q"
  shows "ops_inv subs (sts @ [c]) (d\<lparr>op_queue := q\<rparr>)"
proof -
  have "ops_of w fd (c # q) = ops_of w fd [c] @ ops_of w fd q" for w fd by (simp add: ops_of_def)
  with assms show ?thesis by (simp add: ops_inv_def queue_of_def)
qed

lemma pro_step_keeps:
  assumes i: "ops_inv subs sts (p_data s)" and e: "pro_step env inp k t s = Inr (l, s')"
  shows "ops_inv (subs @ submitted l) (sts @ started l) (p_data s')"
proof (cases "p_pcs s ! t")
  case Popping
  with e i pop_keeps [OF i] show ?thesis by (auto simp: pro_step_def split: list.splits)
next
  case (Calling as)
  with e i show ?thesis by (auto simp: pro_step_def bind_res_eq_Inr split: list.splits dest: submit_keeps [OF i])
next
  case InLoop
  with e loop_once_keeps [OF i] show ?thesis by (auto simp: pro_step_def bind_res_eq_Inr)
qed (use e i in \<open>auto simp: pro_step_def wait_on_def split: option.splits\<close>)

lemma pro_run_keeps:
  assumes r: "pro_run env s ls s'" and "ops_inv [] [] (p_data s)"
  shows "ops_inv (submitted ls) (started ls) (p_data s')"
  using r
proof (induction rule: pro_run.induct)
  case run_start
  then show ?case using assms(2) by simp
next
  case (run_thread ls s1 l s2)
  from run_thread(2) show ?case
  proof (cases rule: pro_thread_step.cases)
    case (move t k i)
    with pro_step_keeps [OF run_thread(3)] show ?thesis by simp
  next
    case (spurious t)
    with run_thread(3) show ?thesis by simp
  qed
next
  case (run_outside ls s1 a l s2)
  with submit_keeps show ?case by fastforce
qed

section \<open>One thread in the loop\<close>

definition loop_owned :: "('io, 'q, 'b) pro \<Rightarrow> bool" where
  "loop_owned s = ((\<forall>t. (t < length (p_pcs s) \<and> p_pcs s ! t = InLoop) = (p_owner s = Some t)) \<and> inloop (p_data s) = (p_owner s \<noteq> None))"

lemma loop_owned_goto:
  assumes "loop_owned s" and "t < length (p_pcs s)" and "p_pcs s ! t \<noteq> InLoop" and "pc \<noteq> InLoop"
  shows "loop_owned (goto t pc s)"
  using assms by (auto simp: loop_owned_def goto_def nth_list_update)

lemma loop_owned_data:
  "inloop d = inloop (p_data s) \<Longrightarrow> loop_owned (s\<lparr>p_data := d\<rparr>) = loop_owned s"
  "inloop d = inloop (p_data s) \<Longrightarrow> loop_owned (s\<lparr>p_data := d, p_task := r\<rparr>) = loop_owned s"
  by (simp_all add: loop_owned_def)

lemma submit_loop_owned: "submit env a s = Inr (l, s') \<Longrightarrow> loop_owned s' = loop_owned s \<and> p_pcs s' = p_pcs s"
  by (cases "o_write a"; cases "o_fd a < 0")
    (auto simp: submit_def async_write_def async_read_def bind_res_eq_Inr Let_def loop_owned_data put_data_def init_descriptor_def)

lemma goto_length [simp]: "length (p_pcs (goto t pc s)) = length (p_pcs s)"
  by (simp add: goto_def)

lemma pro_step_loop_owned:
  assumes i: "loop_owned s" and en: "pro_enabled t s" and w: "wakes k s" and e: "pro_step env inp k t s = Inr (l, s')"
  shows "loop_owned s' \<and> length (p_pcs s') = length (p_pcs s)"
proof -
  have t: "t < length (p_pcs s)" using en by (simp add: pro_enabled_def)
  show ?thesis
  proof (cases "p_pcs s ! t")
    case Popping
    with e i t show ?thesis by (auto simp: pro_step_def loop_owned_goto loop_owned_data split: list.splits)
  next
    case (Notify x)
    have c: "called env x \<noteq> InLoop" by (simp add: called_def split: option.splits)
    show ?thesis
    proof (cases k)
      case None
      with e Notify i t c show ?thesis by (auto simp: pro_step_def loop_owned_goto)
    next
      case (Some j)
      then have j: "j < length (p_pcs s)" "p_pcs s ! j = Sleeping" using w by (simp_all add: wakes_def)
      then have "loop_owned (goto j Awake s)" using i by (simp add: loop_owned_goto)
      moreover have "p_pcs (goto j Awake s) ! t \<noteq> InLoop" using Notify t by (cases "j = t") (simp_all add: goto_def)
      ultimately have "loop_owned (goto t (called env x) (goto j Awake s))" using t c by (simp add: loop_owned_goto)
      with e Notify Some show ?thesis by (auto simp: pro_step_def)
    qed
  next
    case (Popped x)
    have "called env x \<noteq> InLoop" by (simp add: called_def split: option.splits)
    with e Popped i t show ?thesis by (auto simp: pro_step_def loop_owned_goto)
  next
    case (Calling as)
    show ?thesis
    proof (cases as)
      case Nil
      with e Calling i t show ?thesis by (auto simp: pro_step_def loop_owned_goto)
    next
      case (Cons a bs)
      with e Calling obtain s1 where "submit env a s = Inr (l, s1)" "s' = goto t (Calling bs) s1" by (auto simp: pro_step_def bind_res_eq_Inr)
      with submit_loop_owned [of env a s l s1] i t Calling show ?thesis by (simp add: loop_owned_goto)
    qed
  next
    case WantLoop
    have "p_owner s = None" using en WantLoop by (simp add: pro_enabled_def)
    with e WantLoop i t show ?thesis by (auto simp: pro_step_def goto_def loop_owned_def nth_list_update split: if_splits)
  next
    case InLoop
    have "(t < length (p_pcs s) \<and> p_pcs s ! t = InLoop) = (p_owner s = Some t)" using i unfolding loop_owned_def by blast
    then have o: "p_owner s = Some t" using t InLoop by simp
    have u: "j = t" if "j < length (p_pcs s)" "p_pcs s ! j = InLoop" for j
      using i that o unfolding loop_owned_def by (metis option.inject)
    obtain d r where s': "s' = goto t Test (s\<lparr>p_data := d\<lparr>inloop := False\<rparr>, p_task := r, p_owner := None\<rparr>)"
      using e InLoop by (auto simp: pro_step_def loop_once_def bind_res_eq_Inr)
    have "(p_pcs s)[t := Test] ! j \<noteq> InLoop" if "j < length (p_pcs s)" for j
      using that u [OF that] by (cases "j = t") auto
    then show ?thesis unfolding s' loop_owned_def by (auto simp: goto_def)
  qed (use e i t in \<open>auto simp: pro_step_def wait_on_def loop_owned_goto\<close>)
qed

lemma pro_run_loop_owned:
  "pro_run env s ls s' \<Longrightarrow> loop_owned s \<Longrightarrow> loop_owned s' \<and> length (p_pcs s') = length (p_pcs s)"
proof (induction rule: pro_run.induct)
  case (run_thread ls s1 l s2)
  from run_thread(2) show ?case
  proof (cases rule: pro_thread_step.cases)
    case (move t k i)
    with pro_step_loop_owned run_thread(3,4) show ?thesis by fastforce
  next
    case (spurious t)
    with run_thread(3,4) show ?thesis by (simp add: loop_owned_goto)
  qed
next
  case (run_outside ls s1 a l s2)
  with submit_loop_owned [of env a s1 l s2] show ?case by simp
qed simp

section \<open>Threads that fall asleep\<close>

lemma thread_moves:
  assumes "pro_run env s ls s1" and "pro_enabled t s1" and "pro_step env inp k t s1 = Inr ([], s2)" and "wakes k s1"
  shows "pro_run env s ls s2"
  using run_thread [OF assms(1) move [OF assms(2,4,3)]] by simp

definition idle :: "('io, 'q, 'b) pro \<Rightarrow> bool" where
  "idle s = (p_owner s = None \<and> ops (p_data s) = [] \<and> op_queue (p_data s) = [] \<and> \<not> stopped (p_data s))"

lemma wakes_some: "\<exists>k. wakes k s"
proof (cases "Sleeping \<in> set (p_pcs s)")
  case True
  then obtain j where "j < length (p_pcs s)" "p_pcs s ! j = Sleeping" by (auto simp: in_set_conv_nth)
  then show ?thesis by (intro exI [of _ "Some j"]) (simp add: wakes_def)
qed (auto intro!: exI [of _ None] simp: wakes_def)

lemma one_falls_asleep:
  assumes i: "idle s" and t: "t < length (p_pcs s)" and pc: "p_pcs s ! t = Test"
  shows "pro_run env s [] (goto t Sleeping s)"
proof -
  have g: "p_pcs (goto t pc s) ! t = pc" "goto t pc2 (goto t pc s) = goto t pc2 s" "idle (goto t pc s)" for pc pc2
    using t i by (simp_all add: goto_def idle_def)
  have st: "pro_run env s [] (goto t pc2 s)"
    if "pro_run env s [] (goto t pc1 s)" "pc1 \<noteq> Sleeping" "pc1 \<noteq> Returned"
      "\<And>k. pro_step env undefined k t (goto t pc1 s) = Inr ([], goto t pc2 s)" for pc1 pc2
  proof -
    obtain k where "wakes k (goto t pc1 s)" using wakes_some by blast
    moreover have "pro_enabled t (goto t pc1 s)" using that(2,3) t g(1) i by (simp add: pro_enabled_def idle_def)
    ultimately show ?thesis using thread_moves [OF that(1) _ that(4)] by blast
  qed
  have "goto t Test s = s" using list_update_id [of "p_pcs s" t] pc by (simp add: goto_def)
  then have "pro_run env s [] (goto t Test s)" by (simp add: run_start)
  then have "pro_run env s [] (goto t Look s)" by (rule st) (use g i in \<open>simp_all add: pro_step_def idle_def\<close>)
  then have "pro_run env s [] (goto t LookOps s)" by (rule st) (use g i in \<open>simp_all add: pro_step_def idle_def lq_empty_def\<close>)
  then have "pro_run env s [] (goto t WantWait s)" by (rule st) (use g i in \<open>simp_all add: pro_step_def idle_def\<close>)
  then show ?thesis by (rule st) (use g i in \<open>simp_all add: pro_step_def wait_on_def idle_def lq_empty_def\<close>)
qed

definition asleep :: "('io, phandler, 'q) reactor \<Rightarrow> nat \<Rightarrow> nat \<Rightarrow> ('io, 'q, 'b) pro" where
  "asleep r n m = \<lparr>p_data = pdata_new, p_task = r, p_owner = None, p_pcs = replicate m Sleeping @ replicate (n - m) Test\<rparr>"

lemma run_append: "pro_run env s1 ls2 s2 \<Longrightarrow> pro_run env s ls1 s1 \<Longrightarrow> pro_run env s (ls1 @ ls2) s2"
proof (induction rule: pro_run.induct)
  case (run_thread ls s1 l s2)
  then show ?case using pro_run.run_thread [of env s "ls1 @ ls" s1 l s2] by simp
next
  case (run_outside ls s1 a l s2)
  then show ?case using pro_run.run_outside [of env s "ls1 @ ls" s1 a l s2] by simp
qed simp

lemma all_fall_asleep: "m \<le> n \<Longrightarrow> pro_run env (pro_new r n :: ('io, 'q, 'b) pro) [] (asleep r n m)"
proof (induction m)
  case 0
  show ?case by (simp add: asleep_def pro_new_def run_start)
next
  case (Suc m)
  let ?s = "asleep r n m :: ('io, 'q, 'b) pro"
  have "idle ?s" by (simp add: asleep_def idle_def pdata_new_def)
  moreover have "m < length (p_pcs ?s)" "p_pcs ?s ! m = Test" using Suc.prems by (simp_all add: asleep_def nth_append)
  ultimately have one: "pro_run env ?s [] (goto m Sleeping ?s)" by (rule one_falls_asleep)
  have "replicate (n - m) (Test :: 'b ppc) = Test # replicate (n - Suc m) Test" using Suc.prems by (metis Suc_diff_Suc Suc_le_lessD replicate_Suc)
  then have "goto m Sleeping ?s = asleep r n (Suc m)"
    unfolding asleep_def goto_def by (simp add: list_update_append replicate_app_Cons_same)
  with run_append [OF one] Suc show ?case by fastforce
qed

text \<open>Asleep, or woken for nothing.\<close>

definition dozing :: "('io, 'q, 'b) pro \<Rightarrow> bool" where
  "dozing s = (op_queue (p_data s) = [] \<and> \<not> stopped (p_data s) \<and> set (p_pcs s) \<subseteq> {Sleeping, Awake})"

lemma dozing_goto: "dozing s \<Longrightarrow> pc \<in> {Sleeping, Awake} \<Longrightarrow> dozing (goto t pc s)"
  using set_update_subset_insert [of "p_pcs s" t pc] by (auto simp: dozing_def goto_def)

lemma submit_dozing: "dozing s \<Longrightarrow> submit env a s = Inr (l, s') \<Longrightarrow> dozing s' \<and> started l = []"
  by (cases "o_write a"; cases "o_fd a < 0")
    (auto simp: submit_def async_write_def async_read_def bind_res_eq_Inr Let_def dozing_def put_data_def init_descriptor_def split: if_splits)

lemma thread_dozing:
  assumes d: "dozing s" and st: "pro_thread_step env s l s'"
  shows "dozing s' \<and> l = []"
  using st
proof (cases rule: pro_thread_step.cases)
  case (move t k i)
  then have t: "t < length (p_pcs s)" "p_pcs s ! t \<noteq> Sleeping" by (simp_all add: pro_enabled_def)
  have "p_pcs s ! t \<in> {Sleeping, Awake}" using d nth_mem [OF t(1)] unfolding dozing_def by blast
  then have pc: "p_pcs s ! t = Awake" using t(2) by simp
  then have "s' = goto t Sleeping s \<and> l = []" using move(3) d by (auto simp: pro_step_def wait_on_def dozing_def lq_empty_def)
  then show ?thesis using dozing_goto [OF d] by simp
next
  case (spurious t)
  then show ?thesis using dozing_goto [OF d] by simp
qed

lemma run_dozing: "pro_run env s ls s' \<Longrightarrow> dozing s \<Longrightarrow> dozing s' \<and> started ls = []"
proof (induction rule: pro_run.induct)
  case (run_thread ls s1 l s2)
  then show ?case using thread_dozing [of s1 env l s2] by auto
next
  case (run_outside ls s1 a l s2)
  then show ?case using submit_dozing [of s1 env a l s2] by auto
qed simp

section \<open>Properties\<close>


text \<open>C38.
  The reactor of a proactor is driven by at most one thread at a time: in every interleaving a thread is
  in the loop exactly when it owns the mutex and \<open>inloop\<close> is set, and no operation can be submitted
  meanwhile, neither from outside nor by a callback: whoever does so waits for the next event.
\<close>
theorem one_thread_loops:
  assumes "pro_run env (pro_new r n) ls s" and "t < n" and "p_pcs s ! t = InLoop"
  shows "p_owner s = Some t \<and> inloop (p_data s) \<and> (\<forall>j < n. p_pcs s ! j = InLoop \<longrightarrow> j = t)
    \<and> (\<forall>j a bs. p_pcs s ! j = Calling (a # bs) \<and> 0 \<le> o_fd a \<longrightarrow> \<not> pro_enabled j s)"
proof -
  have "loop_owned (pro_new r n)" by (auto simp: pro_new_def pdata_new_def loop_owned_def)
  from pro_run_loop_owned [OF assms(1) this] have l: "loop_owned s" "length (p_pcs s) = n" by (simp_all add: pro_new_def)
  have o: "p_owner s = Some t" using l assms(2,3) unfolding loop_owned_def by metis
  moreover have "inloop (p_data s)" using l(1) o by (simp add: loop_owned_def)
  moreover have "j = t" if "j < n" "p_pcs s ! j = InLoop" for j
    using l that o unfolding loop_owned_def by (metis option.inject)
  ultimately show ?thesis by (auto simp: pro_enabled_def)
qed

text \<open>
  An operation that is submitted when all threads wait is never served: nothing notifies them. Any
  number of threads that enter \<open>run\<close> before there are operations can fall asleep, and from then on no
  operation is started, whatever is submitted from outside and whatever the descriptors do, spurious
  wake-ups included.
\<close>
theorem submission_unnoticed:
  "\<exists>s. pro_run env (pro_new r n) [] s \<and> set (p_pcs s) \<subseteq> {Sleeping} \<and> p_owner s = None \<and> p_data s = pdata_new \<and> p_task s = r \<and>
     (\<forall>ls s'. pro_run env s ls s' \<longrightarrow> started ls = [] \<and> set (p_pcs s') \<subseteq> {Sleeping, Awake}
        \<and> ops_of w fd (submitted ls) = queue_of w fd (p_data s'))"
proof -
  let ?s = "asleep r n n :: ('a, 'b, 'c) pro"
  have run: "pro_run env (pro_new r n) [] ?s" by (rule all_fall_asleep) simp
  have d: "dozing ?s" by (auto simp: dozing_def asleep_def pdata_new_def)
  have inv: "ops_inv [] [] (p_data ?s)" by (simp add: asleep_def pdata_new_def ops_inv_def queue_of_def)
  have "started ls = [] \<and> set (p_pcs s') \<subseteq> {Sleeping, Awake} \<and> ops_of w fd (submitted ls) = queue_of w fd (p_data s')"
    if r: "pro_run env ?s ls s'" for ls s'
    using run_dozing [OF r d] pro_run_keeps [OF r inv] by (simp add: dozing_def ops_inv_def)
  moreover have "set (p_pcs ?s) \<subseteq> {Sleeping} \<and> p_owner ?s = None \<and> p_data ?s = pdata_new \<and> p_task ?s = r" by (auto simp: asleep_def)
  ultimately show ?thesis using run by blast
qed

section \<open>An example\<close>

text \<open>Threads that run one after the other while none sleeps.\<close>

fun pro_play ::
  "('io, 'i, 'q, 'a, 'b) penv \<Rightarrow> 'i round_in \<Rightarrow> nat list \<Rightarrow> ('io, 'q, 'b) pro \<Rightarrow> ('b plabel list \<times> ('io, 'q, 'b) pro) option" where
  "pro_play env i [] s = Some ([], s)"
| "pro_play env i (t # ts) s =
     (if pro_enabled t s \<and> Sleeping \<notin> set (p_pcs s) then
        case pro_step env i None t s of
          Inl _ \<Rightarrow> None
        | Inr (l, s1) \<Rightarrow> (case pro_play env i ts s1 of None \<Rightarrow> None | Some (ls, s2) \<Rightarrow> Some (l @ ls, s2))
      else None)"

lemma pro_play_run: "pro_play env i ts s = Some (ls, s') \<Longrightarrow> pro_run env s0 ls0 s \<Longrightarrow> pro_run env s0 (ls0 @ ls) s'"
proof (induction env i ts s arbitrary: ls ls0 rule: pro_play.induct)
  case (2 env i t ts s)
  from "2.prems"(1) obtain l s1 ls2 where st: "pro_enabled t s" "Sleeping \<notin> set (p_pcs s)" "pro_step env i None t s = Inr (l, s1)"
      "pro_play env i ts s1 = Some (ls2, s')" "ls = l @ ls2"
    by (auto split: if_splits sum.splits option.splits)
  have "wakes None s" using st(2) by (simp add: wakes_def)
  then have "pro_run env s0 (ls0 @ l) s1" using run_thread [OF "2.prems"(2)] move [OF st(1) _ st(3)] by blast
  from "2.IH" [OF _ st(3) refl st(4) this] st show ?case by simp
qed simp

text \<open>The callback 0 writes an answer to descriptor 5, which is readable.\<close>

definition ex_op :: "bool \<Rightarrow> nat \<Rightarrow> nat operation" where
  "ex_op w b = \<lparr>o_write = w, o_fd = 5, o_cb = b\<rparr>"

definition ex_penv :: "((int, int) smap epoll, (int \<times> int) list option, int list \<times> nat list, nat, nat) penv" where
  "ex_penv = \<lparr>pe_kept = True, pe_io = epoll_ops list_ctl, pe_sys = ex_sys, pe_acts = (\<lambda>b. if b = 0 then [ex_op True 1] else [])\<rparr>"

definition ex_task :: "((int, int) smap epoll, phandler, int list \<times> nat list) reactor" where
  "ex_task = reactor_new (ex_io\<lparr>ep_events := [], ep_kernel := []\<rparr>) ([], [])"

definition ex_pro :: "((int, int) smap epoll, int list \<times> nat list, nat) pro" where
  "ex_pro = (case submit ex_penv (ex_op False 0) (pro_new ex_task 2) of Inr (_, s) \<Rightarrow> s | Inl _ \<Rightarrow> pro_new ex_task 2)"

lemma ex_submit:
  assumes "p_data s = pdata_new" and "p_task s = ex_task"
  shows "\<exists>d r. submit ex_penv (ex_op False 0) s = Inr ([Submit (ex_op False 0)], s\<lparr>p_data := d, p_task := r\<rparr>)"
proof -
  have "\<exists>d r. async_read (epoll_ops list_ctl) ex_sys 5 (0 :: nat) (pdata_new, ex_task) = Inr (d, r)"
    by (simp add: async_read_def Let_def init_descriptor_def data_at_def smap_count_def pdata_new_def set_read_handler_def init_channel_def ex_task_def
        reactor_new_def add_read_def io_call_def epoll_ops_def channel_at_def smap_index_def split: prod.splits)
  then obtain d r where "async_read (epoll_ops list_ctl) ex_sys 5 (0 :: nat) (pdata_new, ex_task) = Inr (d, r)" by blast
  with assms show ?thesis by (intro exI [of _ d] exI [of _ r]) (simp add: submit_def ex_penv_def ex_op_def)
qed

lemma ex_pro_run: "pro_run ex_penv (pro_new ex_task 2) [Submit (ex_op False 0)] ex_pro"
proof -
  obtain d r where s: "submit ex_penv (ex_op False 0) (pro_new ex_task 2) = Inr ([Submit (ex_op False 0)], (pro_new ex_task 2)\<lparr>p_data := d, p_task := r\<rparr>)"
    using ex_submit [of "pro_new ex_task 2"] by (auto simp: pro_new_def)
  then have "ex_pro = (pro_new ex_task 2)\<lparr>p_data := d, p_task := r\<rparr>" by (simp add: ex_pro_def)
  with run_outside [OF run_start _ s] show ?thesis by (simp add: pro_new_def)
qed

lemma ex_plays:
  "case pro_play ex_penv ex_round [0, 0, 0, 0, 1] ex_pro of None \<Rightarrow> False | Some (ls, s) \<Rightarrow> p_pcs s ! 0 = InLoop"
  "case pro_play ex_penv ex_round [0, 0, 0, 0, 0, 0, 0, 0, 0, 0] ex_pro of None \<Rightarrow> False
   | Some (ls, s) \<Rightarrow> ls = [Start (ex_op False 0), Submit (ex_op True 1)] \<and> queue_of True 5 (p_data s) = [ex_op True 1]"
  by code_simp+


theorem one_thread_loops_witness:
  "\<exists>ls s. pro_run ex_penv (pro_new ex_task 2) ls s \<and> p_owner s = Some 0 \<and> inloop (p_data s)"
proof -
  obtain ls s where p: "pro_play ex_penv ex_round [0, 0, 0, 0, 1] ex_pro = Some (ls, s)" "p_pcs s ! 0 = InLoop"
    using ex_plays(1) by (auto split: option.splits)
  note r = pro_play_run [OF p(1) ex_pro_run]
  from one_thread_loops [OF r _ p(2)] r show ?thesis by auto
qed

theorem submission_unnoticed_witness:
  "\<exists>s s'. pro_run ex_penv (pro_new ex_task 3) [] s \<and> pro_run ex_penv s [Submit (ex_op False 0)] s' \<and> queue_of False 5 (p_data s') = [ex_op False 0]"
proof -
  from submission_unnoticed [of ex_penv ex_task 3 False 5] obtain s where
    s: "pro_run ex_penv (pro_new ex_task 3) [] s" "p_owner s = None" "p_data s = pdata_new" "p_task s = ex_task"
    and a: "\<forall>ls s'. pro_run ex_penv s ls s' \<longrightarrow> started ls = [] \<and> set (p_pcs s') \<subseteq> {Sleeping, Awake}
        \<and> ops_of False 5 (submitted ls) = queue_of False 5 (p_data s')" by blast
  obtain s' where "submit ex_penv (ex_op False 0) s = Inr ([Submit (ex_op False 0)], s')"
    using ex_submit [OF s(3,4)] by blast
  from run_outside [OF run_start _ this] s(2) have r: "pro_run ex_penv s [Submit (ex_op False 0)] s'" by simp
  with a have "ops_of False 5 (submitted [Submit (ex_op False 0)]) = queue_of False 5 (p_data s')" by blast
  with s(1) r show ?thesis by (intro exI [of _ s] exI [of _ s']) (simp add: ops_of_def ex_op_def)
qed

end
