(* ===== verification/Libio_Bench.thy ===== *)
theory Libio_Bench
  imports Libio_Reactor "HOL-Library.Signed_Division"
begin

text \<open>
  The multiplexer benchmark \<open>src/sample/bench.cc\<close>: a reactor over \<open>epoll\<close> that watches the read ends
  of a ring of pipes. A handler takes one byte out of its pipe and, as long as bytes are left to
  write, puts one into the next pipe. The global variables are the record \<open>ring\<close>, the reactor
  \<open>re\<close> is threaded beside it, and a callback is the number of its pipe. The kernel is the record
  \<open>sys\<close> with \<open>pipe\<close> and \<open>setrlimit\<close> as further arguments; the argument \<open>ask\<close> is what one round of the
  loop takes from outside (clock readings, answer of \<open>epoll_wait\<close>), given the state in which the
  round begins. The time measurement and its output are left out.
\<close>

section \<open>Definitions\<close>

text \<open>An element of the array \<open>pipes\<close> that no call of \<open>pipe\<close> has written yet is \<open>None\<close>.\<close>

record ring =
  num_pipes :: int
  num_active :: int
  num_writes :: int
  pipes :: "int option list"
  countread :: int
  fired :: int
  writes :: int

definition ring_start :: ring where
  "ring_start = \<lparr>num_pipes = 0, num_active = 0, num_writes = 0, pipes = [], countread = 0, fired = 0, writes = 0\<rparr>"

definition pipe_at :: "int \<Rightarrow> ring \<Rightarrow> int res" where
  "pipe_at j g =
     (if 0 \<le> j \<and> j < int (length (pipes g))
      then (case pipes g ! nat j of None \<Rightarrow> Inl Uninitialised | Some fd \<Rightarrow> Inr fd) else Inl BadAccess)"

text \<open>\<open>write(pipes[j], "a", 1)\<close>; what it returns is ignored.\<close>

definition write_pipe :: "('k, 'a) sys \<Rightarrow> int \<Rightarrow> ring \<Rightarrow> 'k \<Rightarrow> 'k res" where
  "write_pipe y j g k = bind_res (pipe_at j g) (\<lambda>fd. Inr (snd (s_write y fd ''a'' k)))"

text \<open>\<open>int nexti = i + 1; if (nexti >= num_pipes) nexti -= num_pipes;\<close>\<close>

definition next_pipe :: "ring \<Rightarrow> int \<Rightarrow> int res" where
  "next_pipe g i = bind_res (cint (i + 1)) (\<lambda>n. if num_pipes g \<le> n then cint (n - num_pipes g) else Inr n)"

text \<open>\<open>readcb\<close>; the sum of an \<open>int\<close> and the \<open>ssize_t\<close> that \<open>read\<close> returns is converted to \<open>int\<close>.\<close>

definition ring_readcb :: "('k, 'a) sys \<Rightarrow> int \<Rightarrow> ring \<Rightarrow> 'k \<Rightarrow> (ring \<times> 'k) res" where
  "ring_readcb y i g k =
     bind_res (cint (2 * i)) (\<lambda>j.
     bind_res (pipe_at j g) (\<lambda>fd.
       case s_read y fd 1 k of (got, k1) \<Rightarrow>
         let g1 = g\<lparr>countread := to_int (countread g + (case got of None \<Rightarrow> -1 | Some s \<Rightarrow> int (length s)))\<rparr> in
         if writes g1 = 0 then Inr (g1, k1)
         else
           bind_res (next_pipe g1 i) (\<lambda>nexti.
           bind_res (cint (2 * nexti)) (\<lambda>j2.
           bind_res (cint (j2 + 1)) (\<lambda>j3.
           bind_res (write_pipe y j3 g1 k1) (\<lambda>k2.
           bind_res (cint (writes g1 - 1)) (\<lambda>w.
           bind_res (cint (fired g1 + 1)) (\<lambda>f. Inr (g1\<lparr>writes := w, fired := f\<rparr>, k2)))))))))"

text \<open>The closure that \<open>main\<close> registers, as the reactor runs it.\<close>

definition ring_exec :: "('q, 'a) sys \<Rightarrow> ('k epoll, int, 'q, ring) rexec" where
  "ring_exec y i gr =
     (case gr of (g, r) \<Rightarrow>
        bind_res (ring_readcb y i g (re_kernel r)) (\<lambda>(g1, k). Inr (g1, r\<lparr>re_kernel := k\<rparr>)))"

type_synonym ('k, 'q) ring_state = "ring \<times> ('k epoll, int, 'q) reactor"

type_synonym ('k, 'q) ring_ask = "('k, 'q) ring_state \<Rightarrow> (int \<times> int) list option round_in"

text \<open>\<open>re.loop(true, true)\<close>: one round, without waiting.\<close>

definition ring_loop ::
  "('q, 'a) sys \<Rightarrow> 'k epoll_ctl \<Rightarrow> ('k, 'q) ring_ask \<Rightarrow> ('k, 'q) ring_state \<Rightarrow> ('k, 'q) ring_state res" where
  "ring_loop y ctl ask gr = reactor_loop (epoll_ops ctl) (ring_exec y) True True [ask gr] gr"

text \<open>The first bytes, one into every \<open>space\<close>-th pipe.\<close>

fun fire_pipes :: "('q, 'a) sys \<Rightarrow> int \<Rightarrow> int list \<Rightarrow> ('k, 'q) ring_state \<Rightarrow> ('k, 'q) ring_state res" where
  "fire_pipes y space [] gr = Inr gr"
| "fire_pipes y space (i # is) gr =
     bind_res (cint (i * space)) (\<lambda>j.
     bind_res (cint (j + 1)) (\<lambda>j1.
     bind_res (write_pipe y j1 (fst gr) (re_kernel (snd gr))) (\<lambda>k.
     bind_res (cint (fired (fst gr) + 1)) (\<lambda>f.
       fire_pipes y space is ((fst gr)\<lparr>fired := f\<rparr>, (snd gr)\<lparr>re_kernel := k\<rparr>)))))"

text \<open>The loop \<open>do re.loop(true, true), xcount++ while (countread != fired)\<close>, with fuel.\<close>

fun ring_rounds ::
  "('q, 'a) sys \<Rightarrow> 'k epoll_ctl \<Rightarrow> ('k, 'q) ring_ask \<Rightarrow> nat \<Rightarrow> int \<Rightarrow> ('k, 'q) ring_state \<Rightarrow>
   (int \<times> ('k, 'q) ring_state) res" where
  "ring_rounds y ctl ask 0 xcount gr = Inl NoReturn"
| "ring_rounds y ctl ask (Suc n) xcount gr =
     bind_res (ring_loop y ctl ask gr) (\<lambda>gr1.
     bind_res (cint (xcount + 1)) (\<lambda>x.
       if countread (fst gr1) \<noteq> fired (fst gr1) then ring_rounds y ctl ask n x gr1 else Inr (x, gr1)))"

text \<open>
  \<open>run_once\<close>; the result is the pair it prints when rounds and reads differ. The processor traps a
  division by zero (\<open>SIGFPE\<close>, signal 8).
\<close>

definition run_once ::
  "('q, 'a) sys \<Rightarrow> 'k epoll_ctl \<Rightarrow> ('k, 'q) ring_ask \<Rightarrow> nat \<Rightarrow> ('k, 'q) ring_state \<Rightarrow>
   ((int \<times> int) option \<times> ('k, 'q) ring_state) res" where
  "run_once y ctl ask fuel gr =
     (let g = (fst gr)\<lparr>countread := 0, fired := 0, writes := num_writes (fst gr)\<rparr> in
      if num_active g = 0 then Inl (Killed 8)
      else
        bind_res (cint (num_pipes g sdiv num_active g)) (\<lambda>q.
        bind_res (cint (q * 2)) (\<lambda>space.
        bind_res (ring_loop y ctl ask (g, snd gr)) (\<lambda>gr1.
        bind_res (fire_pipes y space [0..num_active (fst gr1) - 1] gr1) (\<lambda>gr2.
        bind_res (ring_rounds y ctl ask fuel 0 gr2) (\<lambda>(xcount, gr3).
          Inr (if xcount \<noteq> countread (fst gr3) then Some (xcount, countread (fst gr3)) else None, gr3)))))))"

text \<open>The options that \<open>getopt\<close> returns, each with its argument; an unknown one is reported and skipped.\<close>

fun ring_options :: "(char \<times> string) list \<Rightarrow> ring \<Rightarrow> ring res" where
  "ring_options [] g = Inr g"
| "ring_options ((c, arg) # os) g =
     bind_res (if c = CHR ''n'' then bind_res (atoi arg) (\<lambda>n. Inr (g\<lparr>num_pipes := n\<rparr>))
               else if c = CHR ''a'' then bind_res (atoi arg) (\<lambda>n. Inr (g\<lparr>num_active := n\<rparr>))
               else if c = CHR ''w'' then bind_res (atoi arg) (\<lambda>n. Inr (g\<lparr>num_writes := n\<rparr>))
               else Inr g)
       (ring_options os)"

text \<open>The loop that opens the pipes \<open>i\<close> and registers their handlers.\<close>

fun open_pipes ::
  "('q, 'a) sys \<Rightarrow> ('q \<Rightarrow> (int \<times> int) option \<times> 'q) \<Rightarrow> 'k epoll_ctl \<Rightarrow> int list \<Rightarrow> ('k, 'q) ring_state \<Rightarrow>
   ('k, 'q) ring_state res" where
  "open_pipes y mkpipe ctl [] gr = Inr gr"
| "open_pipes y mkpipe ctl (i # is) gr =
     (case mkpipe (re_kernel (snd gr)) of
        (None, _) \<Rightarrow> Inl (ExitCalled (-1))
      | (Some (p, q), k) \<Rightarrow>
          let g1 = (fst gr)\<lparr>pipes := (pipes (fst gr))[nat (2 * i) := Some p, nat (2 * i + 1) := Some q]\<rparr> in
          bind_res (pipe_at (2 * i) g1) (\<lambda>fd.
          bind_res (set_read_handler (epoll_ops ctl) y fd i ((snd gr)\<lparr>re_kernel := k\<rparr>)) (\<lambda>r1.
            open_pipes y mkpipe ctl is (g1, r1))))"

primrec ring_runs ::
  "('q, 'a) sys \<Rightarrow> 'k epoll_ctl \<Rightarrow> ('k, 'q) ring_ask \<Rightarrow> nat \<Rightarrow> nat \<Rightarrow> ('k, 'q) ring_state \<Rightarrow>
   ((int \<times> int) option list \<times> ('k, 'q) ring_state) res" where
  "ring_runs y ctl ask fuel 0 gr = Inr ([], gr)"
| "ring_runs y ctl ask fuel (Suc n) gr =
     bind_res (run_once y ctl ask fuel gr) (\<lambda>(m, gr1).
     bind_res (ring_runs y ctl ask fuel n gr1) (\<lambda>(ms, gr2). Inr (m # ms, gr2)))"

text \<open>\<open>main\<close>; the default of \<open>num_writes\<close> is taken from the default of \<open>num_pipes\<close>, before the options are read.\<close>

definition ring_setup ::
  "heap_env \<Rightarrow> ('q, 'a) sys \<Rightarrow> ('q \<Rightarrow> (int \<times> int) option \<times> 'q) \<Rightarrow> (int \<Rightarrow> bool) \<Rightarrow> 'k epoll_ctl \<Rightarrow>
   (char \<times> string) list \<Rightarrow> ('k epoll, int, 'q) reactor \<Rightarrow> ('k, 'q) ring_state res" where
  "ring_setup e y mkpipe setrlimit ctl opts r =
     bind_res (ring_options opts (ring_start\<lparr>num_pipes := 100, num_active := 1, num_writes := 50\<rparr>)) (\<lambda>g.
     bind_res (cint (num_pipes g * 2)) (\<lambda>n.
     bind_res (cint (n + 50)) (\<lambda>limit.
       if \<not> setrlimit limit then Inl (ExitCalled 1)
       else if n < 0 \<or> \<not> can_alloc e (n * 4) then Inl BadAlloc
       else open_pipes y mkpipe ctl [0..num_pipes g - 1] (g\<lparr>pipes := replicate (nat n) None\<rparr>, r))))"

definition ring_main ::
  "heap_env \<Rightarrow> ('q, 'a) sys \<Rightarrow> ('q \<Rightarrow> (int \<times> int) option \<times> 'q) \<Rightarrow> (int \<Rightarrow> bool) \<Rightarrow> 'k epoll_ctl \<Rightarrow>
   ('k, 'q) ring_ask \<Rightarrow> nat \<Rightarrow> (char \<times> string) list \<Rightarrow> ('k epoll, int, 'q) reactor \<Rightarrow>
   (int \<times> (int \<times> int) option list \<times> ('k, 'q) ring_state) res" where
  "ring_main e y mkpipe setrlimit ctl ask fuel opts r =
     bind_res (ring_setup e y mkpipe setrlimit ctl opts r) (\<lambda>gr.
     bind_res (ring_runs y ctl ask fuel 25 gr) (\<lambda>(out, gr1). Inr (0, out, ((fst gr1)\<lparr>pipes := []\<rparr>, snd gr1))))"

section \<open>The kernel\<close>

text \<open>
  Pipes as \<open>pipe(7)\<close> describes them, seen through the list \<open>made\<close> of the pipes there are (read end,
  write end) and the number \<open>held\<close> of bytes in the pipe of a read end: a new pipe is empty and its
  ends are new descriptors, a read of one byte from a pipe that has one returns it, a write to a
  pipe that has room (\<open>cap\<close> bytes) puts it there, and \<open>fcntl\<close> moves no byte.
\<close>

definition pipe_contract ::
  "('q, 'a) sys \<Rightarrow> ('q \<Rightarrow> (int \<times> int) option \<times> 'q) \<Rightarrow> ('q \<Rightarrow> (int \<times> int) list) \<Rightarrow> ('q \<Rightarrow> int \<Rightarrow> nat) \<Rightarrow> nat \<Rightarrow> bool" where
  "pipe_contract y mkpipe made held cap =
     ((\<forall>k p q k1. mkpipe k = (Some (p, q), k1) \<longrightarrow> 0 \<le> p \<and> p \<notin> fst ` set (made k) \<and>
         made k1 = made k @ [(p, q)] \<and> held k1 = (held k)(p := 0)) \<and>
      (\<forall>fd c k. made (snd (s_fcntl y fd c k)) = made k \<and> held (snd (s_fcntl y fd c k)) = held k) \<and>
      (\<forall>p q k. (p, q) \<in> set (made k) \<longrightarrow> 0 < held k p \<longrightarrow>
         (case s_read y p 1 k of (got, k1) \<Rightarrow>
            (\<exists>c. got = Some [c]) \<and> made k1 = made k \<and> held k1 = (held k)(p := held k p - 1))) \<and>
      (\<forall>p q k. (p, q) \<in> set (made k) \<longrightarrow> held k p < cap \<longrightarrow>
         (let k1 = snd (s_write y q ''a'' k) in made k1 = made k \<and> held k1 = (held k)(p := held k p + 1))))"

text \<open>
  \<open>epoll_wait\<close> without a timeout, level-triggered: it reports input on registered descriptors that have
  a byte, each once, and at least one when there is one.
\<close>

definition ready_fds :: "('k \<Rightarrow> int \<Rightarrow> int option) \<Rightarrow> ('q \<Rightarrow> int \<Rightarrow> nat) \<Rightarrow> ('k epoll, int, 'q) reactor \<Rightarrow> int set" where
  "ready_fds interest held r = {fd. interest (ep_kernel (re_io r)) fd = Some EPOLLIN \<and> 0 < held (re_kernel r) fd}"

definition poll_contract ::
  "('k \<Rightarrow> int \<Rightarrow> int option) \<Rightarrow> ('q \<Rightarrow> int \<Rightarrow> nat) \<Rightarrow> ('k, 'q) ring_ask \<Rightarrow> bool" where
  "poll_contract interest held ask =
     (\<forall>gr. \<exists>fds. answer (ask gr) 0 = Some (map (\<lambda>fd. (fd, EPOLLIN)) fds) \<and> distinct fds \<and>
        set fds \<subseteq> ready_fds interest held (snd gr) \<and> (fds = [] \<longrightarrow> ready_fds interest held (snd gr) = {}))"


section \<open>The invariant of a run\<close>

definition in_flight :: "('q \<Rightarrow> (int \<times> int) list) \<Rightarrow> ('q \<Rightarrow> int \<Rightarrow> nat) \<Rightarrow> 'q \<Rightarrow> nat" where
  "in_flight made held k = (\<Sum>p \<in> fst ` set (made k). held k p)"

text \<open>
  What \<open>main\<close> sets up and nothing changes later: the array \<open>pipes\<close> holds the ends of the pipes, the
  read end of pipe \<open>i\<close> has a channel with the callback \<open>i\<close>, and \<open>epoll\<close> watches exactly the read ends.
\<close>

definition ring_channel :: "int \<Rightarrow> int \<Rightarrow> int channel" where
  "ring_channel fd i = \<lparr>ch_fd = fd, readcb = Some i, writecb = None, errorcb = None\<rparr>"

definition ring_wired ::
  "('k \<Rightarrow> int \<Rightarrow> int option) \<Rightarrow> ('q \<Rightarrow> (int \<times> int) list) \<Rightarrow> ('k, 'q) ring_state \<Rightarrow> bool" where
  "ring_wired interest made gr =
     (let g = fst gr; r = snd gr; ps = made (re_kernel r) in
      pipes g = concat (map (\<lambda>(p, q). [Some p, Some q]) ps) \<and> int (length ps) = num_pipes g \<and> 0 < num_pipes g \<and>
      2 * num_pipes g \<le> INT_MAX \<and> distinct (map fst ps) \<and> time_empty (re_time r) \<and> needclean r = [] \<and>
      (\<forall>i < length ps. smap_find (fst (ps ! i)) (channels r) = Some (Some (ring_channel (fst (ps ! i)) (int i)))) \<and>
      (\<forall>fd. interest (ep_kernel (re_io r)) fd = (if fd \<in> fst ` set ps then Some EPOLLIN else None)))"

text \<open>The counters while bytes go round: no byte is lost, and the ring runs dry only when all bytes are fired.\<close>

definition ring_counts ::
  "('q \<Rightarrow> (int \<times> int) list) \<Rightarrow> ('q \<Rightarrow> int \<Rightarrow> nat) \<Rightarrow> nat \<Rightarrow> int \<Rightarrow> ring \<Rightarrow> 'q \<Rightarrow> bool" where
  "ring_counts made held cap all g k =
     (0 \<le> writes g \<and> 0 \<le> countread g \<and> countread g + int (in_flight made held k) = fired g \<and>
      fired g + writes g = all \<and> all \<le> INT_MAX \<and> in_flight made held k \<le> cap \<and>
      (in_flight made held k = 0 \<longrightarrow> writes g = 0))"

lemma pairs_nth:
  "i < length ps \<Longrightarrow> concat (map (\<lambda>(p, q). [f p, f q]) ps) ! (2 * i) = f (fst (ps ! i))
     \<and> concat (map (\<lambda>(p, q). [f p, f q]) ps) ! (2 * i + 1) = f (snd (ps ! i))"
  "length (concat (map (\<lambda>(p, q). [f p, f q]) ps)) = 2 * length ps"
proof (induction ps arbitrary: i)
  case (Cons a ps)
  { case 1
    then show ?case using Cons.IH(1) [of "i - 1"] by (cases i) (auto simp: split_beta)
  next
    case 2
    then show ?case using Cons.IH(2) by (simp add: split_beta)
  }
qed simp_all

lemma pipe_at_wired:
  assumes "ring_wired interest made (g, r)" and "0 \<le> i" and "i < num_pipes g"
  shows "pipe_at (2 * i) g = Inr (fst (made (re_kernel r) ! nat i))" "pipe_at (2 * i + 1) g = Inr (snd (made (re_kernel r) ! nat i))"
proof -
  let ?ps = "made (re_kernel r)"
  have p: "pipes g = concat (map (\<lambda>(p, q). [Some p, Some q]) ?ps)" "int (length ?ps) = num_pipes g"
    using assms(1) by (auto simp: ring_wired_def Let_def)
  have i: "nat i < length ?ps" using p(2) assms(2,3) by linarith
  have n: "nat (2 * i) = 2 * nat i" "nat (2 * i + 1) = 2 * nat i + 1" using assms(2) by linarith+
  have l: "length (pipes g) = 2 * length ?ps" unfolding p(1) by (rule pairs_nth(2))
  have e: "pipes g ! (2 * nat i) = Some (fst (?ps ! nat i))" "pipes g ! (2 * nat i + 1) = Some (snd (?ps ! nat i))"
    using pairs_nth(1) [OF i, of Some] unfolding p(1) by auto
  show "pipe_at (2 * i) g = Inr (fst (?ps ! nat i))" "pipe_at (2 * i + 1) g = Inr (snd (?ps ! nat i))"
    unfolding pipe_at_def n e using i l assms(2) by auto
qed

lemma pipe_at_update:
  "pipe_at j (g\<lparr>countread := c\<rparr>) = pipe_at j g" "pipe_at j (g\<lparr>fired := c\<rparr>) = pipe_at j g" "pipe_at j (g\<lparr>writes := c\<rparr>) = pipe_at j g"
  by (simp_all add: pipe_at_def)

lemma in_flight_upd:
  assumes "p \<in> fst ` set (made k)" and "made k1 = made k" and "held k1 = (held k)(p := v)"
  shows "in_flight made held k1 + held k p = in_flight made held k + v"
proof -
  let ?S = "fst ` set (made k)"
  have f: "finite ?S" by simp
  have "in_flight made held k1 = v + sum (held k) (?S - {p})"
    using sum.remove [OF f assms(1), of "held k1"] assms(2,3) by (simp add: in_flight_def)
  moreover have "in_flight made held k = held k p + sum (held k) (?S - {p})"
    using sum.remove [OF f assms(1), of "held k"] by (simp add: in_flight_def)
  ultimately show ?thesis by simp
qed

lemma held_le_in_flight: "p \<in> fst ` set (made k) \<Longrightarrow> held k p \<le> in_flight made held k"
  unfolding in_flight_def by (rule member_le_sum) auto

lemma pipe_contractD:
  assumes "pipe_contract y mkpipe made held cap"
  shows "mkpipe k = (Some (p, q), k1) \<Longrightarrow> 0 \<le> p \<and> p \<notin> fst ` set (made k) \<and> made k1 = made k @ [(p, q)] \<and> held k1 = (held k)(p := 0)"
    and "made (snd (s_fcntl y fd c k)) = made k \<and> held (snd (s_fcntl y fd c k)) = held k"
    and "(p, q) \<in> set (made k) \<Longrightarrow> 0 < held k p \<Longrightarrow>
      \<exists>c k1. s_read y p 1 k = (Some [c], k1) \<and> made k1 = made k \<and> held k1 = (held k)(p := held k p - 1)"
    and "(p, q) \<in> set (made k) \<Longrightarrow> held k p < cap \<Longrightarrow>
      made (snd (s_write y q ''a'' k)) = made k \<and> held (snd (s_write y q ''a'' k)) = (held k)(p := held k p + 1)"
  using assms unfolding pipe_contract_def Let_def by (blast, blast, fastforce, blast)

text \<open>A write to pipe \<open>i\<close> puts one byte into it.\<close>

lemma write_pipe_wired:
  assumes c: "pipe_contract y mkpipe made held cap" and w: "ring_wired interest made (g, r)" and i: "0 \<le> i" "i < num_pipes g"
    and k: "made k = made (re_kernel r)" and room: "held k (fst (made k ! nat i)) < cap"
  shows "\<exists>k1. write_pipe y (2 * i + 1) g k = Inr k1 \<and> made k1 = made k
    \<and> held k1 = (held k)(fst (made k ! nat i) := held k (fst (made k ! nat i)) + 1)"
proof -
  obtain p q where e: "made k ! nat i = (p, q)" by (cases "made k ! nat i")
  have "int (length (made k)) = num_pipes g" using w k by (simp add: ring_wired_def Let_def)
  then have "nat i < length (made k)" using i by linarith
  then have "(p, q) \<in> set (made k)" using e nth_mem by fastforce
  from pipe_contractD(4) [OF c this] room e pipe_at_wired(2) [OF w i] k show ?thesis by (simp add: write_pipe_def)
qed

lemma wired_kernel:
  "ring_wired interest made (g, r) \<Longrightarrow> pipes g' = pipes g \<Longrightarrow> num_pipes g' = num_pipes g \<Longrightarrow> made k = made (re_kernel r) \<Longrightarrow>
   ring_wired interest made (g', r\<lparr>re_kernel := k\<rparr>)"
  by (simp add: ring_wired_def)

text \<open>The configuration of \<open>main\<close>, which a run does not change.\<close>

definition same_conf :: "ring \<Rightarrow> ring \<Rightarrow> bool" where
  "same_conf g g' = (num_pipes g' = num_pipes g \<and> num_active g' = num_active g \<and> num_writes g' = num_writes g \<and> pipes g' = pipes g)"

lemma same_conf_refl [simp]: "same_conf g g"
  and same_conf_trans: "same_conf g g1 \<Longrightarrow> same_conf g1 g2 \<Longrightarrow> same_conf g g2"
  by (simp_all add: same_conf_def)

text \<open>
  A handler whose pipe has a byte: it counts one byte more, keeps the books, and takes nothing from any other pipe.
\<close>

lemma readcb_step:
  assumes c: "pipe_contract y mkpipe made held cap" and w: "ring_wired interest made (g, r)"
    and b: "ring_counts made held cap all g (re_kernel r)"
    and i: "i < length (made (re_kernel r))" and h: "0 < held (re_kernel r) (fst (made (re_kernel r) ! i))"
  shows "\<exists>g1 k1. ring_exec y (int i) (g, r) = Inr (g1, r\<lparr>re_kernel := k1\<rparr>) \<and> ring_wired interest made (g1, r\<lparr>re_kernel := k1\<rparr>)
    \<and> ring_counts made held cap all g1 k1 \<and> countread g1 = countread g + 1 \<and> same_conf g g1
    \<and> made k1 = made (re_kernel r) \<and> (\<forall>fd. fd \<noteq> fst (made (re_kernel r) ! i) \<longrightarrow> held (re_kernel r) fd \<le> held k1 fd)"
proof -
  let ?k = "re_kernel r" and ?n = "num_pipes g"
  let ?p = "fst (made ?k ! i)"
  have n: "int (length (made ?k)) = ?n" "2 * ?n \<le> INT_MAX" using w by (auto simp: ring_wired_def Let_def)
  then have i': "int i < ?n" using i by simp
  have lo: "INT_MIN \<le> 0" by (simp add: INT_MIN_def)
  have mem: "(?p, snd (made ?k ! i)) \<in> set (made ?k)" using i by simp
  then have p: "?p \<in> fst ` set (made ?k)" by force
  obtain x k1 where k1: "s_read y ?p 1 ?k = (Some [x], k1)" "made k1 = made ?k" "held k1 = (held ?k)(?p := held ?k ?p - 1)"
    using pipe_contractD(3) [OF c mem h] by blast
  have f1: "in_flight made held k1 + 1 = in_flight made held ?k" using in_flight_upd [OF p k1(2,3)] h by simp
  let ?g1 = "g\<lparr>countread := countread g + 1\<rparr>"
  have b': "0 \<le> writes g" "0 \<le> countread g" "countread g + int (in_flight made held ?k) = fired g" "fired g + writes g = all"
    "all \<le> INT_MAX" "in_flight made held ?k \<le> cap" using b by (auto simp: ring_counts_def)
  have cr: "to_int (countread g + 1) = countread g + 1" using b' f1 lo by simp
  have at: "pipe_at (2 * int i) g = Inr ?p" using pipe_at_wired(1) [OF w _ i'] by simp
  have small: "cint (2 * int i) = Inr (2 * int i)" "cint (int i + 1) = Inr (int i + 1)" using i' n(2) lo by simp_all
  show ?thesis
  proof (cases "writes g = 0")
    case True
    have "ring_exec y (int i) (g, r) = Inr (?g1, r\<lparr>re_kernel := k1\<rparr>)"
      using True small at k1(1) cr by (simp add: ring_exec_def ring_readcb_def Let_def)
    moreover have "ring_wired interest made (?g1, r\<lparr>re_kernel := k1\<rparr>)" by (rule wired_kernel [OF w]) (simp_all add: k1)
    moreover have "ring_counts made held cap all ?g1 k1" using True b' f1 by (auto simp: ring_counts_def)
    ultimately show ?thesis using k1 by (intro exI [of _ ?g1] exI [of _ k1]) (simp add: same_conf_def)
  next
    case False
    define j where "j = (if ?n \<le> int i + 1 then int i + 1 - ?n else int i + 1)"
    have j: "0 \<le> j" "j < ?n" using i' by (auto simp: j_def)
    have q: "fst (made k1 ! nat j) \<in> fst ` set (made k1)" using j n k1(2) by (auto intro!: imageI nth_mem)
    from held_le_in_flight [where made = made and held = held and k = k1, OF q] f1 b'(6) have room: "held k1 (fst (made k1 ! nat j)) < cap" by linarith
    from write_pipe_wired [OF c w j k1(2) room] obtain k2 where k2: "write_pipe y (2 * j + 1) g k1 = Inr k2" "made k2 = made k1"
      "held k2 = (held k1)(fst (made k1 ! nat j) := held k1 (fst (made k1 ! nat j)) + 1)" by blast
    have f2: "in_flight made held k2 = in_flight made held ?k" using in_flight_upd [where made = made and held = held and k = k1, OF q k2(2,3)] f1 by simp
    let ?g2 = "?g1\<lparr>writes := writes g - 1, fired := fired g + 1\<rparr>"
    have wp: "write_pipe y (2 * j + 1) ?g1 k1 = Inr k2" using k2(1) by (simp add: write_pipe_def pipe_at_update)
    have ci: "cint (2 * j) = Inr (2 * j)" "cint (2 * j + 1) = Inr (2 * j + 1)" "cint (int i + 1 - ?n) = Inr (int i + 1 - ?n)"
      "cint (writes g - 1) = Inr (writes g - 1)" "cint (fired g + 1) = Inr (fired g + 1)"
      using j n(2) i' b' False lo by (auto simp: cint_def INT_MIN_def INT_MAX_def)
    have nx: "next_pipe ?g1 (int i) = Inr j" using small(2) ci(3) by (simp add: next_pipe_def j_def)
    have "ring_exec y (int i) (g, r) = Inr (?g2, r\<lparr>re_kernel := k2\<rparr>)"
      using False small at k1(1) cr nx ci(1,2,4,5) wp by (simp add: ring_exec_def ring_readcb_def Let_def del: cint_Inr)
    moreover have "ring_wired interest made (?g2, r\<lparr>re_kernel := k2\<rparr>)" by (rule wired_kernel [OF w]) (simp_all add: k1 k2)
    moreover have "ring_counts made held cap all ?g2 k2" using False b' f2 f1 by (auto simp: ring_counts_def)
    ultimately show ?thesis using k1 k2 by (intro exI [of _ ?g2] exI [of _ k2]) (auto simp: same_conf_def)
  qed
qed

section \<open>A round of the loop\<close>

lemma wired_io: "ring_wired interest made (g, r) \<Longrightarrow> ep_kernel s = ep_kernel (re_io r) \<Longrightarrow> ring_wired interest made (g, r\<lparr>re_io := s\<rparr>)"
  by (simp add: ring_wired_def)

lemma wired_channel:
  assumes "ring_wired interest made (g, r)" and "fd \<in> fst ` set (made (re_kernel r))"
  shows "\<exists>i < length (made (re_kernel r)). fd = fst (made (re_kernel r) ! i) \<and> channel_at fd r = Inr (ring_channel fd (int i))"
proof -
  from assms(2) obtain i where i: "i < length (made (re_kernel r))" "fd = fst (made (re_kernel r) ! i)"
    by (auto simp: in_set_conv_nth)
  then have "smap_find fd (channels r) = Some (Some (ring_channel fd (int i)))"
    using assms(1) by (simp add: ring_wired_def Let_def)
  with i show ?thesis by (auto simp: channel_at_def smap_index_def)
qed

lemma run_handlers_reported:
  assumes "epoll_readable fd (re_io r)" and "\<not> epoll_writeable fd (re_io r)" and "channel_at fd r = Inr (ring_channel fd i)"
    and "exec i (g, r) = Inr (g1, r1)" and "re_io r1 = re_io r"
  shows "dispatch (epoll_ops ctl) exec (fd # fds) (g, r) = dispatch (epoll_ops ctl) exec fds (g1, r1)"
  using assms by (simp add: run_handler_def epoll_ops_def epoll_result_queries ring_channel_def)

lemma dispatch_counts:
  assumes c: "pipe_contract y mkpipe made held cap"
  shows "ring_wired interest made (g, r) \<Longrightarrow> ring_counts made held cap all g (re_kernel r) \<Longrightarrow> distinct fds \<Longrightarrow>
    \<forall>fd \<in> set fds. fd \<in> fst ` set (made (re_kernel r)) \<and> 0 < held (re_kernel r) fd
      \<and> epoll_readable fd (re_io r) \<and> \<not> epoll_writeable fd (re_io r) \<Longrightarrow>
    \<exists>g1 k1. dispatch (epoll_ops ctl) (ring_exec y) fds (g, r) = Inr (g1, r\<lparr>re_kernel := k1\<rparr>)
      \<and> ring_wired interest made (g1, r\<lparr>re_kernel := k1\<rparr>) \<and> ring_counts made held cap all g1 k1
      \<and> countread g1 = countread g + int (length fds) \<and> same_conf g g1 \<and> made k1 = made (re_kernel r)"
proof (induction fds arbitrary: g r)
  case Nil
  then show ?case by (intro exI [of _ g] exI [of _ "re_kernel r"]) simp
next
  case (Cons fd fds)
  have fd: "fd \<in> fst ` set (made (re_kernel r))" "0 < held (re_kernel r) fd" "epoll_readable fd (re_io r)" "\<not> epoll_writeable fd (re_io r)"
    using Cons.prems(4) by simp_all
  from wired_channel [OF Cons.prems(1) fd(1)] obtain i where i: "i < length (made (re_kernel r))" "fd = fst (made (re_kernel r) ! i)"
    and ch: "channel_at fd r = Inr (ring_channel fd (int i))" by blast
  from readcb_step [OF c Cons.prems(1,2) i(1)] fd(2) i(2) obtain g1 k1 where
    1: "ring_exec y (int i) (g, r) = Inr (g1, r\<lparr>re_kernel := k1\<rparr>)" "ring_wired interest made (g1, r\<lparr>re_kernel := k1\<rparr>)"
    "ring_counts made held cap all g1 k1" "countread g1 = countread g + 1" "same_conf g g1" "made k1 = made (re_kernel r)"
    "\<forall>j. j \<noteq> fd \<longrightarrow> held (re_kernel r) j \<le> held k1 j" by auto
  have d: "dispatch (epoll_ops ctl) (ring_exec y) (fd # fds) (g, r) = dispatch (epoll_ops ctl) (ring_exec y) fds (g1, r\<lparr>re_kernel := k1\<rparr>)"
    by (rule run_handlers_reported [where exec = "ring_exec y", OF fd(3,4) ch 1(1)]) simp
  have "0 < held k1 j" if "j \<in> set fds" for j
    using that Cons.prems(3,4) 1(7) by (metis distinct.simps(2) list.set_intros(2) order_less_le_trans)
  then have "\<forall>j \<in> set fds. j \<in> fst ` set (made k1) \<and> 0 < held k1 j \<and> epoll_readable j (re_io r) \<and> \<not> epoll_writeable j (re_io r)"
    using Cons.prems(4) 1(6) by simp
  then obtain g2 k2 where
    2: "dispatch (epoll_ops ctl) (ring_exec y) fds (g1, r\<lparr>re_kernel := k1\<rparr>) = Inr (g2, r\<lparr>re_kernel := k2\<rparr>)"
    "ring_wired interest made (g2, r\<lparr>re_kernel := k2\<rparr>)" "ring_counts made held cap all g2 k2"
    "countread g2 = countread g1 + int (length fds)" "same_conf g1 g2" "made k2 = made k1"
    using Cons.IH [of g1 "r\<lparr>re_kernel := k1\<rparr>"] Cons.prems(3) 1(2,3) by auto
  from d 2 1(4,6) same_conf_trans [OF 1(5) 2(5)] show ?case by (intro exI [of _ g2] exI [of _ k2]) simp
qed

lemma ready_fds_wired:
  assumes "ring_wired interest made (g, r)"
  shows "ready_fds interest held r = {fd \<in> fst ` set (made (re_kernel r)). 0 < held (re_kernel r) fd}"
    and "(in_flight made held (re_kernel r) = 0) = (ready_fds interest held r = {})"
proof -
  show e: "ready_fds interest held r = {fd \<in> fst ` set (made (re_kernel r)). 0 < held (re_kernel r) fd}"
    using assms by (auto simp: ready_fds_def ring_wired_def Let_def split: if_splits)
  show "(in_flight made held (re_kernel r) = 0) = (ready_fds interest held r = {})"
    unfolding e in_flight_def by auto
qed

text \<open>What \<open>listen\<close> leaves behind when the kernel reports input on \<open>fds\<close>.\<close>

lemma listen_fds:
  assumes "distinct fds"
  shows "\<exists>s1. epoll_listen (Some (map (\<lambda>fd. (fd, EPOLLIN)) fds)) s = (int (length fds), s1) \<and> ep_active s1 = fds
    \<and> ep_kernel s1 = ep_kernel s \<and> (\<forall>fd \<in> set fds. epoll_readable fd s1 \<and> \<not> epoll_writeable fd s1)"
proof -
  let ?evs = "map (\<lambda>fd. (fd, EPOLLIN)) fds"
  let ?s0 = "s\<lparr>ep_res := Some (int (length fds)), ep_result := [], ep_active := []\<rparr>"
  have d: "distinct (map fst ?evs)" "map fst ?evs = fds" using assms by (simp_all add: comp_def)
  have m: "map_of ?evs fd = Some EPOLLIN" if "fd \<in> set fds" for fd using that by (induction fds) auto
  have "from_epoll EPOLLIN = RD" by (simp add: from_epoll_def EPOLLIN_def EPOLLOUT_def EPOLLHUP_def EPOLLERR_def Let_def)
  then have "smap_find fd (ep_result (epoll_collect ?evs ?s0)) = Some RD" if "fd \<in> set fds" for fd
    unfolding epoll_collect_result [OF d(1)] using m [OF that] by simp
  then have "epoll_readable fd (epoll_collect ?evs ?s0) \<and> \<not> epoll_writeable fd (epoll_collect ?evs ?s0)" if "fd \<in> set fds" for fd
    using that by (simp add: epoll_readable_def epoll_writeable_def has_rd_def has_wr_def RD_def WR_def)
  then show ?thesis using d(2)
    by (intro exI [of _ "epoll_collect ?evs ?s0"]) (simp add: epoll_listen_def epoll_collect_frame)
qed

lemma ring_loop_eq:
  assumes w: "ring_wired interest made (g, r)" and a: "answer (ask (g, r)) 0 = Some evs" and l: "epoll_listen (Some evs) (re_io r) = (n, s1)"
    and d: "dispatch (epoll_ops ctl) (ring_exec y) (ep_active s1) (g, r\<lparr>re_io := s1\<rparr>) = Inr (g1, r1)" and cl: "needclean r1 = []"
  shows "ring_loop y ctl ask (g, r) = Inr (g1, r1)"
proof -
  have t: "time_empty (re_time r)" "needclean r = []" and n: "length (made (re_kernel r)) \<noteq> 0"
    and ch: "\<forall>i < length (made (re_kernel r)). smap_find (fst (made (re_kernel r) ! i)) (channels r)
      = Some (Some (ring_channel (fst (made (re_kernel r) ! i)) (int i)))"
    using w by (auto simp: ring_wired_def Let_def)
  from ch n have "\<not> reactor_empty r" by (auto simp: reactor_empty_def)
  moreover have "run_timers (ring_exec y) (ask (g, r)) (g, r\<lparr>re_io := s1\<rparr>) = Inr (g, r\<lparr>re_io := s1\<rparr>)"
    using t(1) by (simp add: run_timers_def time_process_def with_timers_def)
  moreover have "clean_channels r1 = r1" using cl by (simp add: clean_channels_def)
  ultimately show ?thesis using a l d
    by (simp add: ring_loop_def reactor_loop.simps reactor_round_def choose_timeout_def epoll_ops_def)
qed

text \<open>
  One round: with empty pipes it does nothing, otherwise it reads at least one byte and keeps the
  books.
\<close>

lemma ring_loop_round:
  assumes c: "pipe_contract y mkpipe made held cap" and p: "poll_contract interest held ask" and w: "ring_wired interest made (g, r)"
    and b: "in_flight made held (re_kernel r) = 0 \<or> ring_counts made held cap all g (re_kernel r)"
  shows "\<exists>g1 r1. ring_loop y ctl ask (g, r) = Inr (g1, r1) \<and> ring_wired interest made (g1, r1) \<and> same_conf g g1
    \<and> made (re_kernel r1) = made (re_kernel r)
    \<and> (if in_flight made held (re_kernel r) = 0 then g1 = g \<and> re_kernel r1 = re_kernel r
       else ring_counts made held cap all g1 (re_kernel r1) \<and> countread g < countread g1)"
proof -
  obtain fds where fds: "answer (ask (g, r)) 0 = Some (map (\<lambda>fd. (fd, EPOLLIN)) fds)" "distinct fds"
    "set fds \<subseteq> ready_fds interest held r" "fds = [] \<longrightarrow> ready_fds interest held r = {}"
    using p unfolding poll_contract_def by fastforce
  from listen_fds [OF fds(2), of "re_io r"] obtain s1 where s1:
    "epoll_listen (Some (map (\<lambda>fd. (fd, EPOLLIN)) fds)) (re_io r) = (int (length fds), s1)" "ep_active s1 = fds"
    "ep_kernel s1 = ep_kernel (re_io r)" "\<forall>fd \<in> set fds. epoll_readable fd s1 \<and> \<not> epoll_writeable fd s1" by blast
  have w1: "ring_wired interest made (g, r\<lparr>re_io := s1\<rparr>)" using wired_io [OF w s1(3)] .
  note rf = ready_fds_wired [OF w, where held = held]
  show ?thesis
  proof (cases "in_flight made held (re_kernel r) = 0")
    case True
    then have "fds = []" using rf(2) fds(3) by auto
    then have "dispatch (epoll_ops ctl) (ring_exec y) (ep_active s1) (g, r\<lparr>re_io := s1\<rparr>) = Inr (g, r\<lparr>re_io := s1\<rparr>)"
      using s1(2) by simp
    moreover have "needclean (r\<lparr>re_io := s1\<rparr>) = []" using w by (simp add: ring_wired_def Let_def)
    ultimately have "ring_loop y ctl ask (g, r) = Inr (g, r\<lparr>re_io := s1\<rparr>)" using ring_loop_eq [where ask = ask and r = r, OF w fds(1) s1(1)] by blast
    with w1 True show ?thesis by simp
  next
    case False
    with b have bc: "ring_counts made held cap all g (re_kernel (r\<lparr>re_io := s1\<rparr>))" by simp
    have "fds \<noteq> []" using False fds(4) unfolding rf(2) by metis
    have "\<forall>fd \<in> set fds. fd \<in> fst ` set (made (re_kernel (r\<lparr>re_io := s1\<rparr>))) \<and> 0 < held (re_kernel (r\<lparr>re_io := s1\<rparr>)) fd
      \<and> epoll_readable fd (re_io (r\<lparr>re_io := s1\<rparr>)) \<and> \<not> epoll_writeable fd (re_io (r\<lparr>re_io := s1\<rparr>))"
      using fds(3) rf(1) s1(4) by auto
    from dispatch_counts [where ctl = ctl, OF c w1 bc fds(2) this] obtain g1 k1 where
      1: "dispatch (epoll_ops ctl) (ring_exec y) fds (g, r\<lparr>re_io := s1\<rparr>) = Inr (g1, r\<lparr>re_io := s1, re_kernel := k1\<rparr>)"
      "ring_wired interest made (g1, r\<lparr>re_io := s1, re_kernel := k1\<rparr>)" "ring_counts made held cap all g1 k1"
      "countread g1 = countread g + int (length fds)" "same_conf g g1" "made k1 = made (re_kernel r)" by auto
    let ?r1 = "r\<lparr>re_io := s1, re_kernel := k1\<rparr>"
    have n: "needclean ?r1 = []" using w by (simp add: ring_wired_def Let_def)
    have d: "dispatch (epoll_ops ctl) (ring_exec y) (ep_active s1) (g, r\<lparr>re_io := s1\<rparr>) = Inr (g1, ?r1)"
      unfolding s1(2) by (rule 1(1))
    from ring_loop_eq [where ask = ask and r = r, OF w fds(1) s1(1) d n] show ?thesis using 1(2-6) False \<open>fds \<noteq> []\<close> by (intro exI [of _ g1] exI [of _ ?r1]) simp
  qed
qed

text \<open>The rounds end: every one reads a byte, and at most \<open>all\<close> bytes are fired.\<close>

lemma ring_rounds_end:
  assumes c: "pipe_contract y mkpipe made held cap" and p: "poll_contract interest held ask"
  shows "ring_wired interest made (g, r) \<Longrightarrow> ring_counts made held cap all g (re_kernel r) \<Longrightarrow> in_flight made held (re_kernel r) \<noteq> 0 \<Longrightarrow>
    all \<le> countread g + int n \<Longrightarrow> 0 \<le> x \<Longrightarrow> x \<le> countread g \<Longrightarrow>
    \<exists>x1 g1 r1. ring_rounds y ctl ask n x (g, r) = Inr (x1, g1, r1) \<and> ring_wired interest made (g1, r1) \<and> same_conf g g1
      \<and> in_flight made held (re_kernel r1) = 0 \<and> countread g1 = all \<and> fired g1 = all \<and> writes g1 = 0 \<and> 0 < x1 \<and> x1 \<le> all"
proof (induction n arbitrary: g r x)
  case 0
  then have False by (auto simp: ring_counts_def)
  then show ?case ..
next
  case (Suc n)
  from ring_loop_round [OF c p Suc.prems(1) disjI2 [OF Suc.prems(2)], of ctl] Suc.prems(3) obtain g1 r1 where
    1: "ring_loop y ctl ask (g, r) = Inr (g1, r1)" "ring_wired interest made (g1, r1)" "same_conf g g1"
    "ring_counts made held cap all g1 (re_kernel r1)" "countread g < countread g1" by auto
  have b: "countread g1 + int (in_flight made held (re_kernel r1)) = fired g1" "fired g1 + writes g1 = all" "all \<le> INT_MAX" "0 \<le> writes g1"
    "in_flight made held (re_kernel r1) = 0 \<longrightarrow> writes g1 = 0" using 1(4) by (auto simp: ring_counts_def)
  have x: "cint (x + 1) = Inr (x + 1)" using b 1(5) Suc.prems(5,6) by (simp add: INT_MIN_def)
  show ?case
  proof (cases "in_flight made held (re_kernel r1) = 0")
    case True
    with 1 b x Suc.prems(5,6) show ?thesis by auto
  next
    case False
    then have ne: "countread g1 \<noteq> fired g1" using b(1) by simp
    have "all \<le> countread g1 + int n" "0 \<le> x + 1" "x + 1 \<le> countread g1" using 1(5) Suc.prems(4,5,6) by simp_all
    from Suc.IH [OF 1(2,4) False this] 1(1) ne x same_conf_trans [OF 1(3)] show ?thesis by fastforce
  qed
qed

section \<open>A run\<close>

lemma fire_pipes_ok:
  assumes c: "pipe_contract y mkpipe made held cap"
  shows "ring_wired interest made (g, r) \<Longrightarrow> in_flight made held (re_kernel r) + length is \<le> cap \<Longrightarrow>
    0 \<le> fired g \<Longrightarrow> fired g + int (length is) \<le> INT_MAX \<Longrightarrow> \<forall>i \<in> set is. 0 \<le> i * s \<and> i * s < num_pipes g \<Longrightarrow>
    \<exists>k1. fire_pipes y (s * 2) is (g, r) = Inr (g\<lparr>fired := fired g + int (length is)\<rparr>, r\<lparr>re_kernel := k1\<rparr>)
      \<and> made k1 = made (re_kernel r) \<and> in_flight made held k1 = in_flight made held (re_kernel r) + length is"
proof (induction "is" arbitrary: g r)
  case Nil
  then show ?case by (intro exI [of _ "re_kernel r"]) simp
next
  case (Cons i "is")
  let ?k = "re_kernel r" and ?j = "i * s"
  have j: "0 \<le> ?j" "?j < num_pipes g" using Cons.prems(5) by simp_all
  have n: "2 * num_pipes g \<le> INT_MAX" "int (length (made ?k)) = num_pipes g"
    using Cons.prems(1) by (auto simp: ring_wired_def Let_def)
  have p: "fst (made ?k ! nat ?j) \<in> fst ` set (made ?k)" using j n(2) by (auto intro!: imageI nth_mem)
  from held_le_in_flight [where made = made and held = held and k = ?k, OF p] Cons.prems(2)
  have "held ?k (fst (made ?k ! nat ?j)) < cap" by simp
  from write_pipe_wired [OF c Cons.prems(1) j refl this] obtain k1 where k1: "write_pipe y (2 * ?j + 1) g ?k = Inr k1" "made k1 = made ?k"
    "held k1 = (held ?k)(fst (made ?k ! nat ?j) := held ?k (fst (made ?k ! nat ?j)) + 1)" by blast
  have f: "in_flight made held k1 = in_flight made held ?k + 1"
    using in_flight_upd [where made = made and held = held and k = ?k, OF p k1(2,3)] by simp
  let ?g1 = "g\<lparr>fired := fired g + 1\<rparr>" and ?r1 = "r\<lparr>re_kernel := k1\<rparr>"
  have w1: "ring_wired interest made (?g1, ?r1)" by (rule wired_kernel [OF Cons.prems(1)]) (simp_all add: k1)
  have e: "i * (s * 2) = 2 * ?j" by simp
  have ci: "cint (2 * ?j) = Inr (2 * ?j)" "cint (2 * ?j + 1) = Inr (2 * ?j + 1)" "cint (fired g + 1) = Inr (fired g + 1)"
    using j n(1) Cons.prems(3,4) by (auto simp: cint_def INT_MIN_def)
  have step: "fire_pipes y (s * 2) (i # is) (g, r) = fire_pipes y (s * 2) is (?g1, ?r1)"
    unfolding fire_pipes.simps e ci using k1(1) by (simp add: ci)
  have "\<exists>k2. fire_pipes y (s * 2) is (?g1, ?r1) = Inr (?g1\<lparr>fired := fired ?g1 + int (length is)\<rparr>, ?r1\<lparr>re_kernel := k2\<rparr>)
      \<and> made k2 = made (re_kernel ?r1) \<and> in_flight made held k2 = in_flight made held (re_kernel ?r1) + length is"
    by (rule Cons.IH [OF w1]) (use Cons.prems f in auto)
  then show ?case unfolding step using k1(2) f by (auto simp: algebra_simps)
qed

lemma spread_pipes:
  assumes "0 < a" and "0 < n" and "0 \<le> i" and "i < (a::int)"
  shows "0 \<le> i * (n div a) \<and> i * (n div a) < n"
proof (cases "n div a = 0")
  case False
  then have d: "0 < n div a" using assms(1,2) by (simp add: order_le_neq_trans pos_imp_zdiv_nonneg_iff)
  then have "i * (n div a) < a * (n div a)" using assms(4) by (rule mult_strict_right_mono [rotated])
  also have "a * (n div a) \<le> n" using assms(1) by (metis add_le_same_cancel1 mult_div_mod_eq pos_mod_sign le_add_same_cancel1)
  finally show ?thesis using assms(3) d by simp
qed (use assms in simp)

text \<open>The options with which a run makes sense, for a kernel whose pipes have room for \<open>cap\<close> bytes.\<close>

definition ring_conf_ok :: "nat \<Rightarrow> ring \<Rightarrow> bool" where
  "ring_conf_ok cap g =
     (0 < num_pipes g \<and> num_pipes g * 2 + 50 \<le> INT_MAX \<and> 0 < num_active g \<and> num_active g \<le> int cap \<and> 0 \<le> num_writes g \<and>
      num_active g + num_writes g \<le> INT_MAX)"

section \<open>The set-up\<close>

text \<open>A kernel that registers every descriptor that is not registered, and the state after some of the pipes are made.\<close>

definition ctl_adds :: "'k epoll_ctl \<Rightarrow> ('k \<Rightarrow> int \<Rightarrow> int option) \<Rightarrow> bool" where
  "ctl_adds ctl interest = (\<forall>ep fd m k. interest k fd = None \<longrightarrow> fst (ctl ep EPOLL_CTL_ADD fd m k) = 0)"

definition ring_partial ::
  "('k \<Rightarrow> int \<Rightarrow> int option) \<Rightarrow> ('q \<Rightarrow> (int \<times> int) list) \<Rightarrow> nat \<Rightarrow> ('k, 'q) ring_state \<Rightarrow> bool" where
  "ring_partial interest made i gr =
     (let g = fst gr; r = snd gr; ps = made (re_kernel r); fds = fst ` set ps in
      length ps = i \<and> int i \<le> num_pipes g \<and> 2 * num_pipes g \<le> INT_MAX \<and>
      pipes g = concat (map (\<lambda>(p, q). [Some p, Some q]) ps) @ replicate (2 * (nat (num_pipes g) - i)) None \<and>
      distinct (map fst ps) \<and> time_empty (re_time r) \<and> needclean r = [] \<and>
      (\<forall>j < i. smap_find (fst (ps ! j)) (channels r) = Some (Some (ring_channel (fst (ps ! j)) (int j)))) \<and>
      (\<forall>fd. fd \<notin> fds \<longrightarrow> smap_find fd (channels r) = None) \<and>
      (\<forall>fd. smap_find fd (ep_events (re_io r)) = (if fd \<in> fds then Some RD else None)) \<and>
      (\<forall>fd. interest (ep_kernel (re_io r)) fd = (if fd \<in> fds then Some EPOLLIN else None)))"

lemma set_nonblock_pipes:
  "pipe_contract y mkpipe made held cap \<Longrightarrow>
   made (snd (set_nonblock y fd k)) = made k \<and> held (snd (set_nonblock y fd k)) = held k"
  using pipe_contractD(2) [of y mkpipe made held cap] by (auto simp: set_nonblock_def split: prod.splits) (metis snd_conv)+

lemma epoll_add_fresh:
  assumes "ctl_contract ctl interest" and "ctl_adds ctl interest" and "0 \<le> fd" and "smap_find fd (ep_events s) = None"
    and "interest (ep_kernel s) fd = None"
  shows "\<exists>s1. epoll_add ctl fd RD s = (0, s1) \<and> ep_kernel s1 = snd (ctl (epfd s) EPOLL_CTL_ADD fd EPOLLIN (ep_kernel s))
    \<and> interest (ep_kernel s1) = (interest (ep_kernel s))(fd \<mapsto> EPOLLIN)
    \<and> (\<forall>j. smap_find j (ep_events s1) = (if j = fd then Some RD else smap_find j (ep_events s)))"
proof -
  have m: "to_epoll RD = EPOLLIN" by (simp add: to_epoll_def has_rd_def has_wr_def RD_def WR_def EPOLLIN_def)
  obtain x k where k: "ctl (epfd s) EPOLL_CTL_ADD fd EPOLLIN (ep_kernel s) = (x, k)" by (cases "ctl (epfd s) EPOLL_CTL_ADD fd EPOLLIN (ep_kernel s)")
  have x: "x = 0" using assms(2,5) k unfolding ctl_adds_def by (metis fst_conv)
  have "x = -1 \<and> interest k = interest (ep_kernel s) \<or> x = 0 \<and> interest k = (interest (ep_kernel s))(fd \<mapsto> EPOLLIN)"
    using assms(1) k unfolding ctl_contract_def by fastforce
  with x have "interest k = (interest (ep_kernel s))(fd \<mapsto> EPOLLIN)" by simp
  moreover have rd: "RD AND RDWR = RD" "(0::int) OR RD = RD" "RD \<noteq> RDWR" "RD \<noteq> 0" "RDWR \<noteq> 0" "\<not> RD \<le> 0" by (simp_all add: RD_def RDWR_3)
  ultimately show ?thesis using assms(3,4) k x m
    by (auto simp: epoll_add_def smap_index_def Let_def smap_find_set)
qed

lemma pipes_update:
  assumes "length ps = 2 * i" and "0 < m"
  shows "(ps @ replicate (2 * m) None)[2 * i := Some p, 2 * i + 1 := Some q] = ps @ [Some p, Some q] @ replicate (2 * (m - 1)) None"
proof -
  obtain m' where m: "m = Suc m'" using assms(2) by (cases m) auto
  have "(ps @ None # None # r)[2 * i := Some p, 2 * i + 1 := Some q] = ps @ [Some p, Some q] @ r" for r
    using assms(1) by (simp add: list_update_append)
  then show ?thesis by (simp add: m)
qed

text \<open>\<open>set_read_handler\<close> on the read end of a new pipe.\<close>

lemma register_fresh:
  assumes c: "pipe_contract y mkpipe made held cap" and k: "ctl_contract ctl interest" "ctl_adds ctl interest"
    and fd: "0 \<le> fd" "smap_find fd (channels r) = None" "smap_find fd (ep_events (re_io r)) = None" "interest (ep_kernel (re_io r)) fd = None"
  shows "\<exists>r1. set_read_handler (epoll_ops ctl) y fd i r = Inr r1 \<and> re_time r1 = re_time r \<and> needclean r1 = needclean r
    \<and> made (re_kernel r1) = made (re_kernel r) \<and> held (re_kernel r1) = held (re_kernel r)
    \<and> (\<forall>j. smap_find j (channels r1) = (if j = fd then Some (Some (ring_channel fd i)) else smap_find j (channels r)))
    \<and> (\<forall>j. smap_find j (ep_events (re_io r1)) = (if j = fd then Some RD else smap_find j (ep_events (re_io r))))
    \<and> interest (ep_kernel (re_io r1)) = (interest (ep_kernel (re_io r)))(fd \<mapsto> EPOLLIN)"
proof -
  from epoll_add_fresh [OF k fd(1,3,4)] obtain s1 where s1: "epoll_add ctl fd RD (re_io r) = (0, s1)"
    "interest (ep_kernel s1) = (interest (ep_kernel (re_io r)))(fd \<mapsto> EPOLLIN)"
    "\<forall>j. smap_find j (ep_events s1) = (if j = fd then Some RD else smap_find j (ep_events (re_io r)))" by blast
  let ?c = "\<lparr>ch_fd = fd, readcb = None, writecb = None, errorcb = None\<rparr>"
  let ?k = "snd (set_nonblock y fd (re_kernel r))"
  let ?r1 = "r\<lparr>channels := smap_set fd (Some (ring_channel fd i)) (smap_set fd (Some ?c) (channels r)), re_io := s1, re_kernel := ?k\<rparr>"
  have "set_read_handler (epoll_ops ctl) y fd i r = Inr ?r1"
    using fd(1,2) s1(1)
    by (simp add: set_read_handler_def init_channel_def add_read_def io_call_def epoll_ops_def smap_count_def channel_at_def
        smap_index_def smap_find_set put_channel_def ring_channel_def)
  then show ?thesis using s1(2,3) set_nonblock_pipes [OF c, of fd "re_kernel r"]
    by (intro exI [of _ ?r1]) (simp add: smap_find_set)
qed

lemma open_step:
  assumes c: "pipe_contract y mkpipe made held cap" and k: "ctl_contract ctl interest" "ctl_adds ctl interest"
    and b: "ring_partial interest made i (g, r)" and i: "int i < num_pipes g" and mk: "mkpipe (re_kernel r) = (Some (p, q), k1)"
  shows "\<exists>g1 r1. open_pipes y mkpipe ctl (int i # is) (g, r) = open_pipes y mkpipe ctl is (g1, r1) \<and> ring_partial interest made (Suc i) (g1, r1)
    \<and> in_flight made held (re_kernel r1) = in_flight made held (re_kernel r)
    \<and> num_pipes g1 = num_pipes g \<and> num_active g1 = num_active g \<and> num_writes g1 = num_writes g"
proof -
  let ?ps = "made (re_kernel r)"
  let ?g1 = "g\<lparr>pipes := (pipes g)[nat (2 * int i) := Some p, nat (2 * int i + 1) := Some q]\<rparr>"
  have p: "0 \<le> p" "p \<notin> fst ` set ?ps" "made k1 = ?ps @ [(p, q)]" "held k1 = (held (re_kernel r))(p := 0)"
    using pipe_contractD(1) [OF c mk] by simp_all
  have B: "length ?ps = i" "2 * num_pipes g \<le> INT_MAX"
    "pipes g = concat (map (\<lambda>(p, q). [Some p, Some q]) ?ps) @ replicate (2 * (nat (num_pipes g) - i)) None"
    "distinct (map fst ?ps)" "time_empty (re_time r)" "needclean r = []"
    "\<forall>j < i. smap_find (fst (?ps ! j)) (channels r) = Some (Some (ring_channel (fst (?ps ! j)) (int j)))"
    "\<forall>fd. fd \<notin> fst ` set ?ps \<longrightarrow> smap_find fd (channels r) = None"
    "\<forall>fd. smap_find fd (ep_events (re_io r)) = (if fd \<in> fst ` set ?ps then Some RD else None)"
    "\<forall>fd. interest (ep_kernel (re_io r)) fd = (if fd \<in> fst ` set ?ps then Some EPOLLIN else None)"
    using b by (auto simp: ring_partial_def Let_def)
  have l: "length (concat (map (\<lambda>(p, q). [Some p, Some q]) ?ps)) = 2 * i" using pairs_nth(2) [of Some ?ps] B(1) by simp
  have n: "nat (2 * int i) = 2 * i" "nat (2 * int i + 1) = 2 * i + 1" by linarith+
  have pu: "pipes ?g1 = concat (map (\<lambda>(p, q). [Some p, Some q]) (?ps @ [(p, q)])) @ replicate (2 * (nat (num_pipes g) - Suc i)) None"
    using pipes_update [OF l, of "nat (num_pipes g) - i" p q] i B(3) n by simp
  have at: "pipe_at (2 * int i) ?g1 = Inr p"
    using l n unfolding pipe_at_def pu by (simp add: nth_append)
  let ?r = "r\<lparr>re_kernel := k1\<rparr>"
  from register_fresh [OF c k p(1), of ?r "int i"] p(2) B(8,9,10) obtain r1 where r1: "set_read_handler (epoll_ops ctl) y p (int i) ?r = Inr r1"
    "re_time r1 = re_time r" "needclean r1 = needclean r" "made (re_kernel r1) = made k1" "held (re_kernel r1) = held k1"
    "\<forall>j. smap_find j (channels r1) = (if j = p then Some (Some (ring_channel p (int i))) else smap_find j (channels r))"
    "\<forall>j. smap_find j (ep_events (re_io r1)) = (if j = p then Some RD else smap_find j (ep_events (re_io r)))"
    "interest (ep_kernel (re_io r1)) = (interest (ep_kernel (re_io r)))(p \<mapsto> EPOLLIN)" by auto
  have m: "made (re_kernel r1) = ?ps @ [(p, q)]" using r1(4) p(3) by simp
  have ne: "fst (?ps ! j) \<noteq> p" if "j < i" for j using that p(2) B(1) by (metis image_eqI nth_mem)
  have ch: "\<forall>j < Suc i. smap_find (fst ((?ps @ [(p, q)]) ! j)) (channels r1)
      = Some (Some (ring_channel (fst ((?ps @ [(p, q)]) ! j)) (int j)))"
    using r1(6) B(1,7) ne by (auto simp: nth_append less_Suc_eq)
  have "ring_partial interest made (Suc i) (?g1, r1)"
    using B(1,2,4,5,6) p(2) pu ch i r1(2,3) r1(6,7,8) B(8,9,10) unfolding ring_partial_def Let_def fst_conv snd_conv m
    by (auto simp del: concat_append)
  moreover have "in_flight made held (re_kernel r1) = in_flight made held (re_kernel r)"
  proof -
    have "in_flight made held (re_kernel r1) = sum ((held (re_kernel r))(p := 0)) (insert p (fst ` set ?ps))"
      using m r1(5) p(4) by (simp add: in_flight_def)
    also have "\<dots> = sum (held (re_kernel r)) (fst ` set ?ps)" using p(2) by (simp, intro sum.cong) auto
    finally show ?thesis by (simp add: in_flight_def)
  qed
  moreover have "open_pipes y mkpipe ctl (int i # is) (g, r) = open_pipes y mkpipe ctl is (?g1, r1)"
    using mk at r1(1) by (simp add: Let_def)
  ultimately show ?thesis by (intro exI [of _ ?g1] exI [of _ r1]) simp
qed

section \<open>A run\<close>

text \<open>
  However \<open>epoll_wait\<close> picks among the pipes that have a byte, a run ends after at most
  \<open>num_active + num_writes\<close> rounds.
\<close>

lemma ring_run_ends:
  assumes "pipe_contract y mkpipe made held cap" and "poll_contract interest held ask"
    and "ring_wired interest made (g, r)" and "in_flight made held (re_kernel r) = 0"
    and "ring_conf_ok cap g" and "num_active g + num_writes g \<le> int fuel"
  shows "\<exists>m g1 r1. run_once y ctl ask fuel (g, r) = Inr (m, g1, r1)
    \<and> countread g1 = num_active g + num_writes g \<and> fired g1 = num_active g + num_writes g \<and> writes g1 = 0
    \<and> in_flight made held (re_kernel r1) = 0 \<and> ring_wired interest made (g1, r1) \<and> same_conf g g1
    \<and> (case m of None \<Rightarrow> True | Some (x, n) \<Rightarrow> 0 < x \<and> x < n \<and> n = countread g1)"
proof -
  let ?a = "num_active g" and ?all = "num_active g + num_writes g"
  let ?g0 = "g\<lparr>countread := 0, fired := 0, writes := num_writes g\<rparr>"
  have cf: "0 < num_pipes g" "2 * num_pipes g \<le> INT_MAX" "0 < ?a" "?a \<le> int cap" "0 \<le> num_writes g" "?all \<le> INT_MAX"
    using assms(5) by (auto simp: ring_conf_ok_def)
  have w0: "ring_wired interest made (?g0, r)" using wired_kernel [OF assms(3), of ?g0 "re_kernel r"] by simp
  from ring_loop_round [OF assms(1,2) w0 disjI1 [OF assms(4)], of ctl] assms(4) obtain r1 where
    1: "ring_loop y ctl ask (?g0, r) = Inr (?g0, r1)" "ring_wired interest made (?g0, r1)" "re_kernel r1 = re_kernel r" by auto
  let ?s = "num_pipes g div ?a" and ?is = "[0..?a - 1]"
  have s: "num_pipes g sdiv ?a = ?s" using cf by (simp add: signed_divide_int_def)
  have sp: "0 \<le> ?s" "?s \<le> num_pipes g" using cf div_by_1 [of "num_pipes g"] zdiv_mono2 [of "num_pipes g" 1 ?a]
    by (simp_all add: pos_imp_zdiv_nonneg_iff)
  have l: "length ?is = nat ?a" by simp
  have "\<exists>k2. fire_pipes y (?s * 2) ?is (?g0, r1) = Inr (?g0\<lparr>fired := fired ?g0 + int (length ?is)\<rparr>, r1\<lparr>re_kernel := k2\<rparr>)
      \<and> made k2 = made (re_kernel r1) \<and> in_flight made held k2 = in_flight made held (re_kernel r1) + length ?is"
    by (rule fire_pipes_ok [OF assms(1) 1(2)]) (use cf assms(4) 1(3) spread_pipes [of ?a "num_pipes g"] in auto)
  then obtain k2 where 2: "fire_pipes y (?s * 2) ?is (?g0, r1) = Inr (?g0\<lparr>fired := ?a\<rparr>, r1\<lparr>re_kernel := k2\<rparr>)"
    "made k2 = made (re_kernel r1)" "in_flight made held k2 = nat ?a" using l cf(3) assms(4) 1(3) by auto
  let ?g2 = "?g0\<lparr>fired := ?a\<rparr>" and ?r2 = "r1\<lparr>re_kernel := k2\<rparr>"
  have w2: "ring_wired interest made (?g2, ?r2)" by (rule wired_kernel [OF 1(2)]) (simp_all add: 2)
  have b2: "ring_counts made held cap ?all ?g2 (re_kernel ?r2)" using 2(3) cf by (simp add: ring_counts_def nat_le_iff)
  have "\<exists>x1 g1 r1. ring_rounds y ctl ask fuel 0 (?g2, ?r2) = Inr (x1, g1, r1) \<and> ring_wired interest made (g1, r1) \<and> same_conf ?g2 g1
      \<and> in_flight made held (re_kernel r1) = 0 \<and> countread g1 = ?all \<and> fired g1 = ?all \<and> writes g1 = 0 \<and> 0 < x1 \<and> x1 \<le> ?all"
    by (rule ring_rounds_end [OF assms(1,2) w2 b2]) (use 2(3) cf assms(6) in auto)
  then obtain x g3 r3 where 3: "ring_rounds y ctl ask fuel 0 (?g2, ?r2) = Inr (x, g3, r3)" "ring_wired interest made (g3, r3)"
    "same_conf ?g2 g3" "in_flight made held (re_kernel r3) = 0" "countread g3 = ?all" "fired g3 = ?all" "writes g3 = 0" "0 < x" "x \<le> ?all"
    by blast
  have ci: "cint ?s = Inr ?s" "cint (?s * 2) = Inr (?s * 2)" using sp cf by (auto simp: cint_def INT_MIN_def)
  have "run_once y ctl ask fuel (g, r) = Inr (if x \<noteq> countread g3 then Some (x, countread g3) else None, g3, r3)"
    using cf(3) 1(1) 2(1) 3(1) by (simp add: run_once_def s ci)
  with 3 show ?thesis by (auto simp: same_conf_def)
qed

lemma open_pipes_all:
  assumes c: "pipe_contract y mkpipe made held cap" and k: "ctl_contract ctl interest" "ctl_adds ctl interest"
    and mk: "\<forall>k. int (length (made k)) < n \<longrightarrow> fst (mkpipe k) \<noteq> None"
  shows "ring_partial interest made i (g, r) \<Longrightarrow> num_pipes g = n \<Longrightarrow> n = int i + int m \<Longrightarrow>
    \<exists>g1 r1. open_pipes y mkpipe ctl [int i..n - 1] (g, r) = Inr (g1, r1) \<and> ring_partial interest made (i + m) (g1, r1)
      \<and> in_flight made held (re_kernel r1) = in_flight made held (re_kernel r)
      \<and> num_pipes g1 = num_pipes g \<and> num_active g1 = num_active g \<and> num_writes g1 = num_writes g"
proof (induction m arbitrary: i g r)
  case 0
  then show ?case by simp
next
  case (Suc m)
  have "length (made (re_kernel r)) = i" using Suc.prems(1) by (simp add: ring_partial_def Let_def)
  then have "fst (mkpipe (re_kernel r)) \<noteq> None" using mk Suc.prems(3) by simp
  then obtain p q k1 where mkp: "mkpipe (re_kernel r) = (Some (p, q), k1)" by (cases "mkpipe (re_kernel r)") auto
  have u: "[int i..n - 1] = int i # [int (Suc i)..n - 1]" using Suc.prems(3) by (simp add: upto_rec1 add.commute)
  have lt: "int i < num_pipes g" using Suc.prems(2,3) by simp
  from open_step [where held = held, OF c k Suc.prems(1) lt mkp, of "[int (Suc i)..n - 1]"] obtain g1 r1 where
    1: "open_pipes y mkpipe ctl [int i..n - 1] (g, r) = open_pipes y mkpipe ctl [int (Suc i)..n - 1] (g1, r1)"
    "ring_partial interest made (Suc i) (g1, r1)" "in_flight made held (re_kernel r1) = in_flight made held (re_kernel r)"
    "num_pipes g1 = num_pipes g" "num_active g1 = num_active g" "num_writes g1 = num_writes g" unfolding u by blast
  have "num_pipes g1 = n" "n = int (Suc i) + int m" using 1(4) Suc.prems(2,3) by simp_all
  from Suc.IH [OF 1(2) this] 1 show ?case by auto
qed

lemma partial_wired: "ring_partial interest made i (g, r) \<Longrightarrow> num_pipes g = int i \<Longrightarrow> 0 < i \<Longrightarrow> ring_wired interest made (g, r)"
  by (simp add: ring_partial_def ring_wired_def Let_def)

lemma ring_setup_wired:
  assumes "pipe_contract y mkpipe made held cap" and "ctl_contract ctl interest" and "ctl_adds ctl interest"
    and "ep_events io = []" and "interest (ep_kernel io) = Map.empty" and "made k = []"
    and "ring_options opts (ring_start\<lparr>num_pipes := 100, num_active := 1, num_writes := 50\<rparr>) = Inr g" and "ring_conf_ok cap g"
    and "setrlimit (num_pipes g * 2 + 50)" and "can_alloc e (num_pipes g * 2 * 4)"
    and "\<forall>k. int (length (made k)) < num_pipes g \<longrightarrow> fst (mkpipe k) \<noteq> None"
  shows "\<exists>g1 r1. ring_setup e y mkpipe setrlimit ctl opts (reactor_new io k) = Inr (g1, r1) \<and> ring_wired interest made (g1, r1)
    \<and> in_flight made held (re_kernel r1) = 0
    \<and> num_pipes g1 = num_pipes g \<and> num_active g1 = num_active g \<and> num_writes g1 = num_writes g"
proof -
  have cf: "0 < num_pipes g" "num_pipes g * 2 + 50 \<le> INT_MAX" using assms(8) by (auto simp: ring_conf_ok_def)
  let ?g = "g\<lparr>pipes := replicate (nat (num_pipes g * 2)) None\<rparr>"
  have "ring_partial interest made 0 (?g, reactor_new io k)"
    using cf assms(4,5,6) by (simp add: ring_partial_def Let_def reactor_new_def time_new_def time_empty_def nat_mult_distrib mult.commute)
  moreover have z: "in_flight made held (re_kernel (reactor_new io k)) = 0" using assms(6) by (simp add: in_flight_def reactor_new_def)
  ultimately obtain g1 r1 where
    1: "open_pipes y mkpipe ctl [0..num_pipes g - 1] (?g, reactor_new io k) = Inr (g1, r1)"
    "ring_partial interest made (nat (num_pipes g)) (g1, r1)"
    "in_flight made held (re_kernel r1) = 0" "num_pipes g1 = num_pipes g" "num_active g1 = num_active g" "num_writes g1 = num_writes g"
    using open_pipes_all [where held = held, OF assms(1-3,11), of 0 ?g "reactor_new io k" "nat (num_pipes g)"] cf(1) by auto
  have "ring_wired interest made (g1, r1)" using partial_wired [OF 1(2)] 1(4) cf(1) by simp
  moreover have "cint (num_pipes g * 2) = Inr (num_pipes g * 2)" "cint (num_pipes g * 2 + 50) = Inr (num_pipes g * 2 + 50)"
    using cf by (simp_all add: cint_def INT_MIN_def)
  ultimately show ?thesis using 1 assms(7,9,10) cf(1) by (simp add: ring_setup_def)
qed

lemma ring_runs_end:
  assumes c: "pipe_contract y mkpipe made held cap" and p: "poll_contract interest held ask"
  shows "ring_wired interest made (g, r) \<Longrightarrow> in_flight made held (re_kernel r) = 0 \<Longrightarrow> ring_conf_ok cap g \<Longrightarrow>
    num_active g + num_writes g = all \<Longrightarrow> all \<le> int fuel \<Longrightarrow>
    \<exists>out g1 r1. ring_runs y ctl ask fuel n (g, r) = Inr (out, g1, r1) \<and> length out = n \<and> (0 < n \<longrightarrow> countread g1 = all \<and> fired g1 = all)
      \<and> (\<forall>m \<in> set out. case m of None \<Rightarrow> True | Some (x, c) \<Rightarrow> 0 < x \<and> x < c \<and> c = all) \<and> in_flight made held (re_kernel r1) = 0"
proof (induction n arbitrary: g r)
  case (Suc n)
  from ring_run_ends [OF c p Suc.prems(1-3), of fuel ctl] Suc.prems(4,5) obtain m g1 r1 where
    1: "run_once y ctl ask fuel (g, r) = Inr (m, g1, r1)" "countread g1 = all" "fired g1 = all" "in_flight made held (re_kernel r1) = 0"
    "ring_wired interest made (g1, r1)" "same_conf g g1" "case m of None \<Rightarrow> True | Some (x, c) \<Rightarrow> 0 < x \<and> x < c \<and> c = countread g1" by auto
  have "ring_conf_ok cap g1" "num_active g1 + num_writes g1 = all"
    using 1(6) Suc.prems(3,4) by (simp_all add: same_conf_def ring_conf_ok_def)
  from Suc.IH [OF 1(5,4) this Suc.prems(5)] obtain out g2 r2 where
    2: "ring_runs y ctl ask fuel n (g1, r1) = Inr (out, g2, r2)" "length out = n" "0 < n \<longrightarrow> countread g2 = all \<and> fired g2 = all"
    "\<forall>m \<in> set out. case m of None \<Rightarrow> True | Some (x, c) \<Rightarrow> 0 < x \<and> x < c \<and> c = all" "in_flight made held (re_kernel r2) = 0" by blast
  have "countread g2 = all" "fired g2 = all" using 1(2,3) 2(1,3) by (cases n; auto)+
  with 1 2 show ?case by auto
qed simp

section \<open>Properties\<close>

text \<open>C13.
  The benchmark ends when its options are sane (\<open>ring_conf_ok\<close>): at least one pipe and not so many that their
  descriptors leave the range of \<open>int\<close>, at least one active byte and not more than one pipe holds, a number of
  writes that is not negative, and a sum of bytes in the range of \<open>int\<close>. Then, when \<open>setrlimit\<close>, the allocator, \<open>pipe\<close> and
  \<open>epoll_ctl\<close> do what they are asked for, and
  however \<open>epoll_wait\<close> picks among the pipes that have a byte (it may report one of them or all),
  \<open>main\<close> wires the pipes, makes its 25 runs, each in at most \<open>num_active + num_writes\<close> rounds, and returns 0; after the last run
  exactly \<open>num_active + num_writes\<close> bytes were fired and read in it and the pipes are empty; and a run that
  prints a difference of rounds and reads has read that many bytes in fewer rounds. It
  needs neither that the active pipes are different ones nor that there are as many pipes as active
  bytes. (A negative number of writes runs on, and more active bytes than fit into a pipe block.)
\<close>
theorem ring_main_ends:
  assumes "pipe_contract y mkpipe made held cap" and "poll_contract interest held ask"
    and "ctl_contract ctl interest" and "ctl_adds ctl interest"
    and "ep_events io = []" and "interest (ep_kernel io) = Map.empty" and "made k = []"
    and "ring_options opts (ring_start\<lparr>num_pipes := 100, num_active := 1, num_writes := 50\<rparr>) = Inr g" and "ring_conf_ok cap g"
    and "setrlimit (num_pipes g * 2 + 50)" and "can_alloc e (num_pipes g * 2 * 4)"
    and "\<forall>k. int (length (made k)) < num_pipes g \<longrightarrow> fst (mkpipe k) \<noteq> None"
    and "num_active g + num_writes g \<le> int fuel"
  shows "\<exists>out g1 r1. ring_main e y mkpipe setrlimit ctl ask fuel opts (reactor_new io k) = Inr (0, out, g1, r1)
    \<and> length out = 25 \<and> countread g1 = num_active g + num_writes g \<and> fired g1 = num_active g + num_writes g \<and> in_flight made held (re_kernel r1) = 0
    \<and> (\<forall>m \<in> set out. case m of None \<Rightarrow> True | Some (x, c) \<Rightarrow> 0 < x \<and> x < c \<and> c = num_active g + num_writes g)"
proof -
  from ring_setup_wired [where made = made and mkpipe = mkpipe and setrlimit = setrlimit, OF assms(1,3-12)] obtain g1 r1 where
    1: "ring_setup e y mkpipe setrlimit ctl opts (reactor_new io k) = Inr (g1, r1)" "ring_wired interest made (g1, r1)"
    "in_flight made held (re_kernel r1) = 0" "num_pipes g1 = num_pipes g" "num_active g1 = num_active g" "num_writes g1 = num_writes g"
    by blast
  have "ring_conf_ok cap g1" "num_active g1 + num_writes g1 = num_active g + num_writes g"
    using 1(4-6) assms(9) by (simp_all add: ring_conf_ok_def)
  from ring_runs_end [OF assms(1,2) 1(2,3) this assms(13), of ctl 25] 1(1) show ?thesis by (auto simp: ring_main_def)
qed

section \<open>An example\<close>

text \<open>A kernel whose pipe \<open>i\<close> has the ends \<open>2 i\<close> and \<open>2 i + 1\<close>; its state is the number of bytes in each.\<close>

definition ex_held :: "nat list \<Rightarrow> int \<Rightarrow> nat" where
  "ex_held k p = (if 0 \<le> p \<and> p mod 2 = 0 \<and> nat (p div 2) < length k then k ! nat (p div 2) else 0)"

definition ex_made :: "nat list \<Rightarrow> (int \<times> int) list" where
  "ex_made k = map (\<lambda>i. (2 * int i, 2 * int i + 1)) [0..<length k]"

definition ex_mkpipe :: "nat list \<Rightarrow> (int \<times> int) option \<times> nat list" where
  "ex_mkpipe k = (Some (2 * int (length k), 2 * int (length k) + 1), k @ [0])"

definition ex_pipe_sys :: "(nat list, nat) sys" where
  "ex_pipe_sys = \<lparr>
     s_write = (\<lambda>fd s k. (int (length s), k[nat (fd div 2) := k ! nat (fd div 2) + length s])),
     s_eventfd = (\<lambda>k. (-1, k)), s_fcntl = (\<lambda>fd c k. (0, k)), s_setsockopt = (\<lambda>fd opt k. (0, k)),
     s_getsockopt = (\<lambda>fd n k. ((0, 0), k)), s_socketpair = (\<lambda>k. (None, k)), s_socket = (\<lambda>c k. (-1, k)),
     s_close = (\<lambda>fd k. (0, k)), s_bind = (\<lambda>fd a k. (0, k)), s_connect = (\<lambda>fd a k. (-1, k)), s_listen = (\<lambda>fd n k. (0, k)),
     s_accept = (\<lambda>fd k. ((-1, 0), k)), s_getnameinfo = (\<lambda>a k. (None, k)), s_getaddrinfo = (\<lambda>n p k. (None, k)),
     s_freeaddrinfo = (\<lambda>h k. k), s_inet = (\<lambda>n p. 0), s_shutdown = (\<lambda>fd h k. (0, k)),
     s_read = (\<lambda>fd n k. if ex_held k fd = 0 then (None, k) else (Some ''a'', k[nat (fd div 2) := k ! nat (fd div 2) - 1]))\<rparr>"

definition ex_ready :: "(int, int) smap epoll \<Rightarrow> nat list \<Rightarrow> int list" where
  "ex_ready s k = remdups (filter (\<lambda>fd. smap_find fd (ep_kernel s) = Some EPOLLIN \<and> 0 < ex_held k fd) (map fst (ep_kernel s)))"

definition ex_ask :: "((int, int) smap, nat list) ring_ask" where
  "ex_ask gr = \<lparr>clock1 = (0, 0), clock2 = (0, 0), clock3 = (0, 0),
     answer = (\<lambda>_. Some (map (\<lambda>fd. (fd, EPOLLIN)) (ex_ready (re_io (snd gr)) (re_kernel (snd gr))))), timer_fuel = 0\<rparr>"

lemma ex_poll_contract: "poll_contract (\<lambda>k fd. smap_find fd k) ex_held ex_ask"
proof -
  have "fd \<in> fst ` set k" if "smap_find fd k = Some m" for fd m and k :: "(int, int) smap"
    using smap_find_in [OF that] by force
  then have s: "set (ex_ready (re_io r) (re_kernel r)) = ready_fds (\<lambda>k fd. smap_find fd k) ex_held r" for r
    by (auto simp: ready_fds_def ex_ready_def)
  have d: "distinct (ex_ready s k)" for s k by (simp add: ex_ready_def)
  have "\<exists>fds. answer (ex_ask gr) 0 = Some (map (\<lambda>fd. (fd, EPOLLIN)) fds) \<and> distinct fds \<and>
      set fds \<subseteq> ready_fds (\<lambda>k fd. smap_find fd k) ex_held (snd gr) \<and> (fds = [] \<longrightarrow> ready_fds (\<lambda>k fd. smap_find fd k) ex_held (snd gr) = {})" for gr
    by (intro exI [of _ "ex_ready (re_io (snd gr)) (re_kernel (snd gr))"]) (simp add: ex_ask_def d s flip: s)
  then show ?thesis by (simp add: poll_contract_def)
qed

lemma ex_held_update: "j < length k \<Longrightarrow> ex_held (k[j := n]) = (ex_held k)(2 * int j := n)"
  by (auto simp: ex_held_def fun_eq_iff nth_list_update)

lemma ex_pipe_contract: "pipe_contract ex_pipe_sys ex_mkpipe ex_made ex_held 65536"
proof -
  have mem: "\<exists>j < length k. p = 2 * int j \<and> q = 2 * int j + 1" if "(p, q) \<in> set (ex_made k)" for p q k
    using that by (auto simp: ex_made_def)
  have h: "ex_held k (2 * int j) = k ! j" if "j < length k" for j k using that by (simp add: ex_held_def)
  have l: "ex_made (k[j := n]) = ex_made k" for k j n by (simp add: ex_made_def)
  have "ex_held (k @ [0]) = (ex_held k)(2 * int (length k) := 0)" for k
    by (auto simp: ex_held_def fun_eq_iff nth_append)
  moreover have "ex_made (k @ [n]) = ex_made k @ [(2 * int (length k), 2 * int (length k) + 1)]" for k n by (simp add: ex_made_def)
  moreover have "2 * int (length k) \<notin> fst ` set (ex_made k)" for k by (auto simp: ex_made_def)
  moreover have "s_read ex_pipe_sys p 1 k = (Some ''a'', k[nat (p div 2) := ex_held k p - 1]) \<and> ex_made (k[nat (p div 2) := ex_held k p - 1]) = ex_made k
    \<and> ex_held (k[nat (p div 2) := ex_held k p - 1]) = (ex_held k)(p := ex_held k p - 1)"
    if "(p, q) \<in> set (ex_made k)" "0 < ex_held k p" for p q k
    using mem [OF that(1)] that(2) by (auto simp: ex_pipe_sys_def l h ex_held_update)
  moreover have "ex_made (snd (s_write ex_pipe_sys q ''a'' k)) = ex_made k \<and>
    ex_held (snd (s_write ex_pipe_sys q ''a'' k)) = (ex_held k)(p := ex_held k p + 1)" if "(p, q) \<in> set (ex_made k)" for p q k
    using mem [OF that] by (auto simp: ex_pipe_sys_def l h ex_held_update)
  moreover have "snd (s_fcntl ex_pipe_sys fd c k) = k" for fd c k by (simp add: ex_pipe_sys_def)
  ultimately show ?thesis unfolding pipe_contract_def by (auto simp: ex_mkpipe_def Let_def)
qed

theorem ring_main_ends_witness:
  "\<exists>out g1 r1. ring_main \<lparr>can_alloc = (\<lambda>_. True), fresh = (\<lambda>_. NUL)\<rparr> ex_pipe_sys ex_mkpipe (\<lambda>n. n \<le> 1024) list_ctl ex_ask 6
      [(CHR ''n'', ''3''), (CHR ''w'', ''4''), (CHR ''x'', []), (CHR ''a'', ''2'')]
      (reactor_new (ex_io\<lparr>ep_events := [], ep_kernel := []\<rparr>) []) = Inr (0, out, g1, r1) \<and> length out = 25 \<and> countread g1 = 6"
proof -
  let ?g = "ring_start\<lparr>num_pipes := 3, num_active := 2, num_writes := 4\<rparr>"
    and ?o = "[(CHR ''n'', ''3''), (CHR ''w'', ''4''), (CHR ''x'', []), (CHR ''a'', ''2'')]" and ?e = "\<lparr>can_alloc = (\<lambda>_. True), fresh = (\<lambda>_. NUL)\<rparr>"
  have "ring_options ?o (ring_start\<lparr>num_pipes := 100, num_active := 1, num_writes := 50\<rparr>) = Inr ?g" by code_simp
  moreover have "ctl_adds list_ctl (\<lambda>k fd. smap_find fd k)" by (simp add: ctl_adds_def smap_count_def)
  moreover have "ring_conf_ok 65536 ?g" by (simp add: ring_conf_ok_def ring_start_def INT_MAX_def)
  moreover have "ex_made [] = []" by (simp add: ex_made_def)
  moreover have "\<forall>k. int (length (ex_made k)) < num_pipes ?g \<longrightarrow> fst (ex_mkpipe k) \<noteq> None" by (simp add: ex_mkpipe_def)
  ultimately show ?thesis
    using ring_main_ends [OF ex_pipe_contract ex_poll_contract list_ctl_contract, of "ex_io\<lparr>ep_events := [], ep_kernel := []\<rparr>" "[]" ?o ?g
      "\<lambda>n. n \<le> 1024" ?e 6]
    by (auto simp: fun_eq_iff ring_start_def)
qed

end
