(* ===== verification/Libio_Date.thy ===== *)
theory Libio_Date
  imports Libio_Http_Message
begin

text \<open>
  \<open>time::get_date\<close> of \<open>src/core/time.hh\<close>, the value of the \<open>Date\<close> header of a response, with the parts
  of the C library it calls: \<open>gmtime_r\<close> on the proleptic Gregorian calendar and \<open>strftime\<close> for the
  directives of its format. The clock is the argument \<open>t\<close>, seconds since the epoch. The theory shows
  that the date always fits its 50 bytes, that it survives the header parser, and that it names the
  second it was taken in.
\<close>

section \<open>Definitions\<close>

record tm =
  tm_sec :: int
  tm_min :: int
  tm_hour :: int
  tm_mday :: int
  tm_mon :: int
  tm_year :: int
  tm_wday :: int

definition leap_year :: "int \<Rightarrow> bool" where
  "leap_year y = (y mod 4 = 0 \<and> (y mod 100 \<noteq> 0 \<or> y mod 400 = 0))"

definition month_lengths :: "int \<Rightarrow> int list" where
  "month_lengths y = [31, if leap_year y then 29 else 28, 31, 30, 31, 30, 31, 31, 30, 31, 30, 31]"

text \<open>Year and day of the year (from 0) of the day \<open>n\<close> after 1 January of the year 1.\<close>

definition civil_year :: "int \<Rightarrow> int \<times> int" where
  "civil_year n =
     (let r = n mod 146097; b = min 3 (r div 36524); r1 = r - 36524 * b;
          c = r1 div 1461; r2 = r1 mod 1461; d = min 3 (r2 div 365) in
      (400 * (n div 146097) + 100 * b + 4 * c + d + 1, r2 - 365 * d))"

fun civil_month :: "int list \<Rightarrow> int \<Rightarrow> int \<times> int" where
  "civil_month [] d = (0, d)"
| "civil_month (l # ls) d = (if d < l then (0, d) else (case civil_month ls (d - l) of (m, k) \<Rightarrow> (m + 1, k)))"

text \<open>\<open>gmtime_r\<close> fails when the year does not fit an \<open>int\<close>; 719162 days lie before 1970.\<close>

definition gmtime :: "int \<Rightarrow> tm option" where
  "gmtime t =
     (case civil_year (t div 86400 + 719162) of (y, yd) \<Rightarrow>
      case civil_month (month_lengths y) yd of (m, d) \<Rightarrow>
        if INT_MIN \<le> y - 1900 \<and> y - 1900 \<le> INT_MAX
        then Some \<lparr>tm_sec = t mod 60, tm_min = t div 60 mod 60, tm_hour = t div 3600 mod 24, tm_mday = d + 1, tm_mon = m,
                   tm_year = y - 1900, tm_wday = (t div 86400 + 4) mod 7\<rparr>
        else None)"

definition day_names :: "string list" where
  "day_names = [''Sun'', ''Mon'', ''Tue'', ''Wed'', ''Thu'', ''Fri'', ''Sat'']"

definition month_names :: "string list" where
  "month_names = [''Jan'', ''Feb'', ''Mar'', ''Apr'', ''May'', ''Jun'', ''Jul'', ''Aug'', ''Sep'', ''Oct'', ''Nov'', ''Dec'']"

definition two_digits :: "int \<Rightarrow> string" where
  "two_digits n = [digit_char (nat n div 10), digit_char (nat n mod 10)]"

definition directive :: "tm \<Rightarrow> char \<Rightarrow> string" where
  "directive cur c =
     (if c = CHR ''a'' then day_names ! nat (tm_wday cur)
      else if c = CHR ''b'' then month_names ! nat (tm_mon cur)
      else if c = CHR ''d'' then two_digits (tm_mday cur)
      else if c = CHR ''Y'' then to_string (tm_year cur + 1900)
      else if c = CHR ''H'' then two_digits (tm_hour cur)
      else if c = CHR ''M'' then two_digits (tm_min cur)
      else if c = CHR ''S'' then two_digits (tm_sec cur)
      else [])"

fun expand_format :: "tm \<Rightarrow> string \<Rightarrow> string" where
  "expand_format cur [] = []"
| "expand_format cur (c # f) =
     (if c = CHR ''%'' then (case f of [] \<Rightarrow> [] | d # g \<Rightarrow> directive cur d @ expand_format cur g)
      else c # expand_format cur f)"

text \<open>\<open>strftime\<close> returns 0 when the result with its end mark does not fit.\<close>

definition strftime :: "nat \<Rightarrow> string \<Rightarrow> tm \<Rightarrow> string option" where
  "strftime n f cur = (let s = expand_format cur f in if length s < n then Some s else None)"

definition get_date :: "int \<Rightarrow> string res" where
  "get_date t =
     (case gmtime t of
        None \<Rightarrow> Inl Uninitialised
      | Some cur \<Rightarrow> Inr (case strftime 50 ''%a, %d %b %Y %H:%M:%S GMT'' cur of Some s \<Rightarrow> s | None \<Rightarrow> []))"

text \<open>
  The reader of such a date, by the calendar's definition: the days before a year and before a month
  are sums of the lengths of the years and months before.
\<close>

definition days_before :: "int \<Rightarrow> int" where
  "days_before y = 365 * (y - 1) + (y - 1) div 4 - (y - 1) div 100 + (y - 1) div 400"

definition timegm :: "int \<Rightarrow> nat \<Rightarrow> int \<Rightarrow> int \<Rightarrow> int \<Rightarrow> int \<Rightarrow> int" where
  "timegm y m d h mi s =
     (((days_before y - 719162 + sum_list (take m (month_lengths y)) + d - 1) * 24 + h) * 60 + mi) * 60 + s"

fun position :: "'a \<Rightarrow> 'a list \<Rightarrow> nat" where
  "position x [] = 0"
| "position x (y # ys) = (if x = y then 0 else Suc (position x ys))"

definition read_date :: "string \<Rightarrow> int res" where
  "read_date s =
     (let num = (\<lambda>i r. int (digits_value 10 (take 2 (drop i r)))); r = drop 12 s; y = takeWhile (\<lambda>c. c \<noteq> CHR '' '') r;
          h = drop (length y) r in
      bind_res (stol y) (\<lambda>year.
        Inr (timegm year (position (take 3 (drop 8 s)) month_names) (num 5 s) (num 1 h) (num 4 h) (num 7 h))))"

section \<open>The calendar\<close>

text \<open>The closed form of \<open>days_before\<close> is the sum of the lengths of the years.\<close>

lemma div_step:
  assumes "0 < (k::int)"
  shows "y div k = (y - 1) div k + (if y mod k = 0 then 1 else 0)"
proof -
  let ?q = "(y - 1) div k" and ?r = "(y - 1) mod k"
  have y: "y = k * ?q + (?r + 1)" using mult_div_mod_eq [of k "y - 1"] by linarith
  have r: "0 \<le> ?r" "?r < k" using assms by simp_all
  show ?thesis
  proof (cases "?r + 1 = k")
    case True
    then have "y = k * (?q + 1)" using y by (simp add: algebra_simps)
    then have "y div k = ?q + 1" "y mod k = 0" using assms by (metis less_irrefl nonzero_mult_div_cancel_left, metis mod_mult_self1_is_0)
    then show ?thesis by simp
  next
    case False
    then have "?r + 1 < k" using r by simp
    with y r(1) have "y div k = ?q" "y mod k = ?r + 1"
      using int_div_pos_eq [of y k ?q "?r + 1"] int_mod_pos_eq [of y k ?q "?r + 1"] by linarith+
    with r(1) show ?thesis by simp
  qed
qed

lemma days_before_step: "days_before (y + 1) = days_before y + sum_list (month_lengths y)" "days_before 1 = 0"
proof -
  have m: "y mod 4 = 0" if "y mod 100 = 0" using mod_mod_cancel [of 4 100 y] that by simp
  have n: "y mod 100 = 0" if "y mod 400 = 0" using mod_mod_cancel [of 100 400 y] that by simp
  have s: "y + 1 - 1 = y" by simp
  show "days_before (y + 1) = days_before y + sum_list (month_lengths y)"
    unfolding days_before_def s div_step [of 4 y, simplified] div_step [of 100 y, simplified] div_step [of 400 y, simplified]
    by (cases "y mod 4 = 0"; cases "y mod 100 = 0"; cases "y mod 400 = 0") (use m n in \<open>simp_all add: month_lengths_def leap_year_def\<close>)
qed (simp add: days_before_def)

lemma civil_year_ok:
  assumes "civil_year n = (y, yd)"
  shows "days_before y + yd = n" "0 \<le> yd" "yd < sum_list (month_lengths y)"
proof -
  define a where "a = n div 146097"
  define r where "r = n mod 146097"
  define b where "b = min 3 (r div 36524)"
  define r1 where "r1 = r - 36524 * b"
  define c where "c = r1 div 1461"
  define r2 where "r2 = r1 mod 1461"
  define d where "d = min 3 (r2 div 365)"
  have y: "y = 400 * a + 100 * b + 4 * c + d + 1" "yd = r2 - 365 * d"
    using assms by (simp_all add: civil_year_def Let_def a_def r_def b_def r1_def c_def r2_def d_def)
  have n: "n = 146097 * a + r" "0 \<le> r" "r < 146097" by (simp_all add: a_def r_def)
  have b: "0 \<le> b" "b \<le> 3" "0 \<le> r1" "r1 \<le> 36524" "b < 3 \<Longrightarrow> r1 < 36524"
    using n(2,3) unfolding r1_def b_def by (auto simp: min_def)
  have c: "0 \<le> c" "c \<le> 24" "r1 = 1461 * c + r2" "0 \<le> r2" "r2 < 1461" using b(3,4) unfolding c_def r2_def by auto
  have d: "0 \<le> d" "d \<le> 3" "0 \<le> yd" "yd \<le> 365" "d < 3 \<Longrightarrow> yd < 365" using c(4,5) unfolding y(2) d_def by (auto simp: min_def)
  have q: "(y - 1) div 4 = 100 * a + 25 * b + c" "(y - 1) div 100 = 4 * a + b" "(y - 1) div 400 = a"
    using y(1) b(1,2) c(1,2) d(1,2) int_div_pos_eq [of "y - 1" 4 "100 * a + 25 * b + c" d]
      int_div_pos_eq [of "y - 1" 100 "4 * a + b" "4 * c + d"] int_div_pos_eq [of "y - 1" 400 a "100 * b + 4 * c + d"] by linarith+
  show "days_before y + yd = n" unfolding days_before_def q using y n(1) c(3) by (simp add: r1_def)
  show "0 \<le> yd" by (rule d(3))
  have m: "leap_year y \<Longrightarrow> sum_list (month_lengths y) = 366" "\<not> leap_year y \<Longrightarrow> sum_list (month_lengths y) = 365"
    by (simp_all add: month_lengths_def)
  have "leap_year y" if "yd = 365"
  proof -
    from that d(2,5) have d3: "d = 3" by linarith
    with that y(2) have r2: "r2 = 1460" by simp
    then have c24: "b = 3 \<or> c < 24" using c(2,3) b(2,4,5) by linarith
    have "y = 4 * (100 * a + 25 * b + c + 1)" using y(1) d3 by simp
    then have "y mod 4 = 0" by simp
    moreover have "y mod 100 \<noteq> 0 \<or> y mod 400 = 0"
    proof (cases "c < 24")
      case True
      have "y mod 100 = 4 * c + 4" by (rule int_mod_pos_eq [of _ _ "4 * a + b"]) (use y(1) d3 True c(1) in auto)
      then show ?thesis using c(1) by simp
    next
      case False
      then have "y = 400 * (a + 1)" using y(1) d3 c24 c(2) by simp
      then show ?thesis by simp
    qed
    ultimately show ?thesis by (simp add: leap_year_def)
  qed
  then show "yd < sum_list (month_lengths y)" using m d(4) by (cases "leap_year y"; cases "yd = 365") auto
qed

lemma civil_month_ok:
  "civil_month ls d = (m, k) \<Longrightarrow> 0 \<le> d \<Longrightarrow> d < sum_list ls \<Longrightarrow>
   0 \<le> m \<and> m < int (length ls) \<and> sum_list (take (nat m) ls) + k = d \<and> 0 \<le> k \<and> k < ls ! nat m"
proof (induction ls d arbitrary: m k rule: civil_month.induct)
  case (2 l ls d)
  show ?case
  proof (cases "d < l")
    case False
    obtain m' k' where mk: "civil_month ls (d - l) = (m', k')" by (cases "civil_month ls (d - l)")
    from 2(1) [OF False mk] 2(3,4) False have "0 \<le> m' \<and> m' < int (length ls) \<and> sum_list (take (nat m') ls) + k' = d - l \<and> 0 \<le> k' \<and> k' < ls ! nat m'"
      by simp
    moreover have "m = m' + 1" "k = k'" using 2(2) False mk by simp_all
    moreover have "nat (m' + 1) = Suc (nat m')" if "0 \<le> m'" using that by simp
    ultimately show ?thesis by simp
  qed (use 2 in simp)
qed simp

lemma days_before_mono: "y \<le> z \<Longrightarrow> days_before y \<le> days_before z"
proof (induction z rule: int_ge_induct)
  case (step z)
  have "0 \<le> sum_list (month_lengths z)" by (simp add: month_lengths_def)
  with step days_before_step(1) [of z] show ?case by linarith
qed simp

text \<open>The year of the day \<open>n\<close> by comparison.\<close>

lemma civil_year_less: "civil_year n = (y, yd) \<Longrightarrow> n < days_before z \<Longrightarrow> y < z"
  using civil_year_ok(1,2) [of n y yd] days_before_mono [of z y] by linarith

lemma civil_year_ge: "civil_year n = (y, yd) \<Longrightarrow> days_before z \<le> n \<Longrightarrow> z \<le> y"
  using civil_year_ok(1,3) [of n y yd] days_before_mono [of "y + 1" z] days_before_step(1) [of y] by linarith

lemma sum_seconds: "((t div 86400 * 24 + t div 3600 mod 24) * 60 + t div 60 mod 60) * 60 + t mod 60 = (t::int)"
proof -
  have "t div 86400 = t div 3600 div 24" "t div 3600 = t div 60 div 60" by (simp_all add: zdiv_zmult2_eq [symmetric])
  then show ?thesis by (simp add: mult.commute [of _ 24] mult.commute [of _ 60])
qed

lemma gmtime_ok:
  assumes "0 \<le> t" and "t \<le> 2 ^ 55"
  shows "\<exists>cur. gmtime t = Some cur \<and> timegm (tm_year cur + 1900) (nat (tm_mon cur)) (tm_mday cur) (tm_hour cur) (tm_min cur) (tm_sec cur) = t
    \<and> 0 \<le> tm_wday cur \<and> tm_wday cur < 7 \<and> 0 \<le> tm_mon cur \<and> tm_mon cur < 12 \<and> 1 \<le> tm_mday cur \<and> tm_mday cur \<le> 31
    \<and> 0 \<le> tm_hour cur \<and> tm_hour cur < 24 \<and> 0 \<le> tm_min cur \<and> tm_min cur < 60 \<and> 0 \<le> tm_sec cur \<and> tm_sec cur < 60
    \<and> 1970 \<le> tm_year cur + 1900 \<and> tm_year cur + 1900 < 10 ^ 10 \<and> (t < 253402300800 \<longrightarrow> tm_year cur + 1900 < 10000)"
proof -
  let ?n = "t div 86400 + 719162"
  obtain y yd where y: "civil_year ?n = (y, yd)" by (cases "civil_year ?n")
  obtain m d where m: "civil_month (month_lengths y) yd = (m, d)" by (cases "civil_month (month_lengths y) yd")
  note yo = civil_year_ok [OF y]
  note mo = civil_month_ok [OF m yo(2,3)]
  have n: "719162 \<le> ?n" "?n < 730485000000" using assms by auto
  have "1970 \<le> y" by (rule civil_year_ge [OF y]) (use n(1) in \<open>simp add: days_before_def\<close>)
  moreover have "y < 2000000001" by (rule civil_year_less [OF y]) (use n(2) in \<open>simp add: days_before_def\<close>)
  moreover have "y < 10000" if "t < 253402300800" by (rule civil_year_less [OF y]) (use that in \<open>simp add: days_before_def\<close>)
  moreover have "m < 12" using mo by (simp add: month_lengths_def)
  moreover have "d < 31"
  proof -
    have "month_lengths y ! nat m \<in> set (month_lengths y)" using mo by (intro nth_mem) linarith
    then have "month_lengths y ! nat m \<le> 31" by (auto simp: month_lengths_def split: if_splits)
    with mo show ?thesis by linarith
  qed
  moreover have "timegm y (nat m) (d + 1) (t div 3600 mod 24) (t div 60 mod 60) (t mod 60) = t"
  proof -
    have "days_before y - 719162 + sum_list (take (nat m) (month_lengths y)) + (d + 1) - 1 = t div 86400" using mo yo(1) by linarith
    then show ?thesis unfolding timegm_def using sum_seconds [of t] by simp
  qed
  ultimately have f: "1970 \<le> y" "y < 2000000001" "t < 253402300800 \<longrightarrow> y < 10000" "m < 12" "d < 31" "0 \<le> m" "0 \<le> d"
    "timegm y (nat m) (d + 1) (t div 3600 mod 24) (t div 60 mod 60) (t mod 60) = t" using mo by blast+
  define hh mi se wd where d: "hh = t div 3600 mod 24" "mi = t div 60 mod 60" "se = t mod 60" "wd = (t div 86400 + 4) mod 7"
  have bd: "0 \<le> hh" "hh < 24" "0 \<le> mi" "mi < 60" "0 \<le> se" "se < 60" "0 \<le> wd" "wd < 7" by (simp_all add: d)
  let ?cur = "\<lparr>tm_sec = se, tm_min = mi, tm_hour = hh, tm_mday = d + 1, tm_mon = m, tm_year = y - 1900, tm_wday = wd\<rparr>"
  have "gmtime t = Some ?cur" using f(1,2) by (simp add: gmtime_def y m INT_MIN_def INT_MAX_def d)
  then show ?thesis using f [folded d] bd by (intro exI [of _ ?cur]) simp
qed

lemma expand_date:
  "expand_format cur ''%a, %d %b %Y %H:%M:%S GMT'' =
     day_names ! nat (tm_wday cur) @ '', '' @ two_digits (tm_mday cur) @ '' '' @ month_names ! nat (tm_mon cur) @ '' ''
     @ to_string (tm_year cur + 1900) @ '' '' @ two_digits (tm_hour cur) @ '':'' @ two_digits (tm_min cur) @ '':''
     @ two_digits (tm_sec cur) @ '' GMT''"
  by (simp add: directive_def)

lemma names_ok:
  "s \<in> set day_names \<Longrightarrow> length s = 3 \<and> clean s \<and> hd s \<notin> set ws" "s \<in> set month_names \<Longrightarrow> length s = 3 \<and> clean s"
  by (auto simp: day_names_def month_names_def clean_def ws_def is_eol_def CR_def LF_def NUL_def)

lemma two_digits_ok:
  assumes "0 \<le> n" and "n < 100"
  shows "length (two_digits n) = 2" "clean (two_digits n)" "digits_value 10 (two_digits n) = nat n"
proof -
  have d: "nat n div 10 < 10" "nat n mod 10 < 10" using assms by auto
  show "length (two_digits n) = 2" by (simp add: two_digits_def)
  show "clean (two_digits n)" using digit_char_plain d by (simp add: two_digits_def clean_def)
  show "digits_value 10 (two_digits n) = nat n" using d by (simp add: two_digits_def digits_value_def)
qed

lemma position_nth: "distinct xs \<Longrightarrow> i < length xs \<Longrightarrow> position (xs ! i) xs = i"
proof (induction xs arbitrary: i)
  case (Cons x xs)
  then show ?case by (cases i) auto
qed simp

text \<open>The date as text: its parts by position, and what a reader of the text gets.\<close>

lemma date_text:
  assumes s: "s = w @ '', '' @ two_digits d @ '' '' @ month_names ! m @ '' '' @ to_string y @ '' '' @ two_digits h @ '':''
      @ two_digits mi @ '':'' @ two_digits sec @ '' GMT''"
    and w: "w \<in> set day_names" and m: "m < 12" and y: "0 \<le> y" "y < 10 ^ 10"
    and r: "0 \<le> d" "d < 100" "0 \<le> h" "h < 100" "0 \<le> mi" "mi < 100" "0 \<le> sec" "sec < 100"
  shows "length s = 25 + length (to_string y)" "clean s" "trimmed s" "read_date s = Inr (timegm y m d h mi sec)"
proof -
  have mn: "month_names ! m \<in> set month_names" using m by (intro nth_mem) (simp add: month_names_def)
  note n = names_ok(1) [OF w] names_ok(2) [OF mn]
  obtain w1 w2 w3 where w3: "w = [w1, w2, w3]" using n(1) by (auto simp: numeral_3_eq_3 length_Suc_conv)
  obtain m1 m2 m3 where m3: "month_names ! m = [m1, m2, m3]" using n(2) by (auto simp: numeral_3_eq_3 length_Suc_conv)
  have t: "\<exists>a b. two_digits x = [a, b]" for x by (simp add: two_digits_def)
  obtain d1 d2 where d: "two_digits d = [d1, d2]" using t by blast
  obtain h1 h2 where h: "two_digits h = [h1, h2]" using t by blast
  obtain i1 i2 where i: "two_digits mi = [i1, i2]" using t by blast
  obtain s1 s2 where s2: "two_digits sec = [s1, s2]" using t by blast
  have lits: "clean '', ''" "clean '' ''" "clean '':''" "clean '' GMT''"
    by (simp_all add: clean_def is_eol_def CR_def LF_def NUL_def)
  show "length s = 25 + length (to_string y)" unfolding s w3 m3 d h i s2 by simp
  show "clean s" unfolding s clean_append using n two_digits_ok(2) r to_string_plain [OF y(1)] lits
    by (simp add: clean_append lits)
  have "hd w \<notin> set ws" using n(1) by blast
  then show "trimmed s" by (simp add: trimmed_def s w3 ws_def)
  have ns: "CHR '' '' \<notin> set (to_string y)" using to_string_plain [OF y(1)] by blast
  then have "\<forall>c \<in> set (to_string y). c \<noteq> CHR '' ''" by metis
  then have tw: "takeWhile (\<lambda>c. c \<noteq> CHR '' '') (to_string y @ CHR '' '' # x) = to_string y" for x
    by (subst takeWhile_append2) simp_all
  have st: "stol (to_string y) = Inr y" using y by (intro stol_to_string) (simp_all add: LONG_MAX_def)
  have "position (month_names ! m) month_names = m" by (rule position_nth) (use m in \<open>simp_all add: month_names_def\<close>)
  then have p: "position [m1, m2, m3] month_names = m" by (simp add: m3)
  have dv: "digits_value 10 [d1, d2] = nat d" "digits_value 10 [h1, h2] = nat h" "digits_value 10 [i1, i2] = nat mi"
    "digits_value 10 [s1, s2] = nat sec" using two_digits_ok(3) r d h i s2 by metis+
  show "read_date s = Inr (timegm y m d h mi sec)"
    unfolding s w3 m3 d h i s2 using r by (simp add: read_date_def tw st p dv Let_def)
qed

lemma to_string_four: "1000 \<le> y \<Longrightarrow> y < 10000 \<Longrightarrow> length (to_string y) = 4"
proof -
  assume y: "1000 \<le> y" "y < 10000"
  let ?n = "nat y"
  have n: "\<not> ?n < 10" "\<not> ?n div 10 < 10" "\<not> ?n div 10 div 10 < 10" "?n div 10 div 10 div 10 < 10" "\<not> y < 0" using y by auto
  have "length (nat_str 10 ?n) = 4"
    by (simp add: nat_str.simps [of 10 ?n] nat_str.simps [of 10 "?n div 10"] nat_str.simps [of 10 "?n div 10 div 10"]
        nat_str.simps [of 10 "?n div 10 div 10 div 10"] n del: div_mult2_eq)
  with n(5) show ?thesis by (simp add: to_string_def)
qed

lemma get_date_text:
  assumes "0 \<le> t" and "t \<le> 2 ^ 55"
  shows "\<exists>s. get_date t = Inr s \<and> s \<noteq> [] \<and> length s < 50 \<and> clean s \<and> trimmed s \<and> read_date s = Inr t
    \<and> (t < 253402300800 \<longrightarrow> length s = 29)"
proof -
  from gmtime_ok [OF assms] obtain cur where g: "gmtime t = Some cur"
    "timegm (tm_year cur + 1900) (nat (tm_mon cur)) (tm_mday cur) (tm_hour cur) (tm_min cur) (tm_sec cur) = t"
    and r: "0 \<le> tm_wday cur" "tm_wday cur < 7" "0 \<le> tm_mon cur" "tm_mon cur < 12" "1 \<le> tm_mday cur" "tm_mday cur \<le> 31"
      "0 \<le> tm_hour cur" "tm_hour cur < 24" "0 \<le> tm_min cur" "tm_min cur < 60" "0 \<le> tm_sec cur" "tm_sec cur < 60"
      "1970 \<le> tm_year cur + 1900" "tm_year cur + 1900 < 10 ^ 10" "t < 253402300800 \<longrightarrow> tm_year cur + 1900 < 10000" by blast
  let ?y = "tm_year cur + 1900" and ?s = "expand_format cur ''%a, %d %b %Y %H:%M:%S GMT''"
  have w: "day_names ! nat (tm_wday cur) \<in> set day_names" using r(1,2) by (intro nth_mem) (simp add: day_names_def nat_less_iff)
  have m: "nat (tm_mon cur) < 12" using r(3,4) by simp
  have b: "0 \<le> ?y" "0 \<le> tm_mday cur" "tm_mday cur < 100" "tm_hour cur < 100" "tm_min cur < 100" "tm_sec cur < 100" using r by simp_all
  note tx = date_text [OF expand_date w m b(1) r(14) b(2,3) r(7) b(4) r(9) b(5) r(11) b(6), unfolded g(2)]
  have "length (to_string ?y) \<le> 10" using to_string_length [of "nat ?y"] b(1) r(14) by simp
  then have l: "length ?s < 50" using tx(1) by simp
  then have "get_date t = Inr ?s" using g(1) by (simp add: get_date_def strftime_def del: expand_format.simps)
  moreover have "?s \<noteq> []" using tx(1) by force
  moreover have "length ?s = 29" if "t < 253402300800" using tx(1) to_string_four [of ?y] r(13,15) that by simp
  ultimately show ?thesis using l tx(2,3,4) by blast
qed

section \<open>The stamp of a response\<close>

text \<open>C12.
  A response is stamped with the time it was built at: at every second from 1970 on (to the year of
  \<open>2 ^ 55\<close> seconds, and with 29 characters up to the year 9999) \<open>get_date\<close> gives a text that fits its
  50 bytes, never the empty one, and a response that \<open>set_response\<close> builds with it and \<open>send_to\<close>
  writes is read back by \<open>parse\<close> in one call: the code, the reason, the headers, the body byte for
  byte, and a \<open>Date\<close> header from which the reader of dates gets that second back.
\<close>
theorem response_stamped:
  fixes c b :: buffer and reason :: string
  assumes "buffer_ok c" and "buffer_ok b" and "buffer_content b = []" and "has_body code" and "clean reason"
    and "0 \<le> t" and "t \<le> 2 ^ 55"
    and "buffer_used b + int (length reason + length (buffer_content c)) + 250 \<le> 1073741824"
  shows "\<exists>date r0 r c' r' b' r2 b2. get_date t = Inr date \<and> request_new (granting f) = Inr r0
    \<and> set_response (granting f) date code reason (Some c) r0 = Inr (r, c')
    \<and> send_to (granting f) r b = Inr (r', b')
    \<and> parse (granting f) r0 b' = Inr (ALLREAD, r2, b2)
    \<and> parsed_response code reason date r2 \<and> body r2 = buffer_content c \<and> buffer_content b2 = []
    \<and> bind_res (get_header ''Date'' r2) read_date = Inr t \<and> (t < 253402300800 \<longrightarrow> length date = 29)"
proof -
  from get_date_text [OF assms(6,7)] obtain date where d: "get_date t = Inr date" "date \<noteq> []" "length date < 50" "clean date"
    "trimmed date" "read_date date = Inr t" "t < 253402300800 \<longrightarrow> length date = 29" by blast
  have "buffer_used b + int (length reason + length date + length (buffer_content c)) + 200 \<le> 1073741824"
    using assms(8) d(3) by linarith
  from response_roundtrip [where f = f, OF assms(1-5) d(4,5,2) this] obtain r0 r c' r' b' r2 b2 where
    1: "request_new (granting f) = Inr r0" "set_response (granting f) date code reason (Some c) r0 = Inr (r, c')"
    "send_to (granting f) r b = Inr (r', b')" "parse (granting f) r0 b' = Inr (ALLREAD, r2, b2)"
    "parsed_response code reason date r2" "body r2 = buffer_content c" "buffer_content b2 = []" by blast
  have "get_header ''Date'' r2 = Inr date" using 1(5) by (simp add: parsed_response_def)
  with d(6) have "bind_res (get_header ''Date'' r2) read_date = Inr t" by simp
  with 1 d(1,7) show ?thesis by blast
qed

theorem response_stamped_witness:
  "get_date 784111777 = Inr ''Sun, 06 Nov 1994 08:49:37 GMT'' \<and>
   (\<exists>date r0 r c' r' b' r2 b2. get_date 784111777 = Inr date \<and> request_new (granting (\<lambda>_. NUL)) = Inr r0
    \<and> set_response (granting (\<lambda>_. NUL)) date 200 ''OK'' (Some (mkbuf [] ''hello'' [])) r0 = Inr (r, c')
    \<and> send_to (granting (\<lambda>_. NUL)) r (mkbuf [] [] []) = Inr (r', b')
    \<and> parse (granting (\<lambda>_. NUL)) r0 b' = Inr (ALLREAD, r2, b2)
    \<and> body r2 = ''hello'' \<and> bind_res (get_header ''Date'' r2) read_date = Inr 784111777)"
proof -
  have "get_date 784111777 = Inr ''Sun, 06 Nov 1994 08:49:37 GMT''" by code_simp
  moreover have "has_body 200" "clean ''OK''" by (simp_all add: has_body_def clean_def is_eol_def CR_def LF_def NUL_def)
  ultimately show ?thesis
    using response_stamped [of "mkbuf [] ''hello'' []" "mkbuf [] [] []" 200 "''OK''" 784111777 "\<lambda>_. NUL"]
    by (simp add: buffer_used_def INT_MAX_def) blast
qed

end
