(* ===== verification/Spec2Isabelle.thy ===== *)
theory Spec2Isabelle
  imports Libio_String Libio_Http_Loop Libio_Http_Session Libio_Webbench Libio_Thread_Loop Libio_Proactor Libio_Bench Libio_Date
begin

text \<open>
  A verification of \<open>libio\<close>, a C++ network library: event loops, buffers, timers and threads in
  \<open>src/core\<close> and \<open>src/model\<close>, an HTTP parser and server in \<open>src/http\<close>, and example programs in
  \<open>src/sample\<close>.

  \<^bold>\<open>How the program is put together.\<close> A \<open>reactor\<close> owns a multiplexer (\<open>epoll\<close>, \<open>poll\<close> or \<open>select\<close>),
  a timer manager and a map from descriptors to handlers. A round of its loop asks the timers how long
  to wait, waits in the multiplexer, runs the due timers, then the handlers of the reported
  descriptors, and last drops the channels that lost both handlers. On top of it are a server that forks
  (\<open>process_loop\<close>), a server with threads (\<open>thread_loop\<close>), a \<open>proactor\<close>, and the HTTP server: one thread
  accepts clients on a reactor with \<open>select\<close> and deals them to HTTP threads, each of which runs a reactor
  with \<open>epoll\<close> as a task of the thread pool. A client becomes a connection with two buffers; its read
  handler feeds the parser, the parser's requests go to the handlers of the application, and their answers to
  the output buffer, which the write handler sends.

  \<^bold>\<open>Conventions.\<close> An operation that can fail returns \<open>fault + 'a\<close> (\<open>'a res\<close>): undefined behaviour (an
  \<open>int\<close> overflow, an access outside an object, a null or dangling pointer, an uninitialised member), an
  exception, a call of \<open>exit\<close> or \<open>abort\<close>, or running out of fuel (\<open>NoReturn\<close>) are values of \<open>fault\<close>. The
  value -1 that a function of the source returns for an error is returned as -1. C++ objects are
  records whose fields are the members; a method is a function from the object to the object and its
  result. What is outside the repository is an argument: the allocator (\<open>heap_env\<close>), the system calls
  (\<open>sys\<close>, \<open>sys_read\<close>, \<open>sys_write\<close>, \<open>epoll_ctl\<close>, \<open>sigsys\<close>), the clock, the callbacks. Where a theorem relies on
  them, their documented behaviour is a named predicate (\<open>read_contract\<close>, \<open>write_contract\<close>,
  \<open>sys_contract\<close>, \<open>ctl_contract\<close>, \<open>sig_contract\<close>, \<open>bench_contract\<close>, \<open>server_responds\<close>, \<open>wakes\<close>, \<open>pipe_contract\<close>, \<open>poll_contract\<close>), which an example at the end of a theory satisfies.
\<close>

section \<open>The theories\<close>

text \<open>
  \<^bold>\<open>Shared.\<close> \<open>Libio_Prelude\<close>: faults and results, the 32-bit \<open>int\<close>, memory objects with checked
  accesses, number parsing and printing, and \<open>outcome F P m\<close>, which says that \<open>m\<close> ends with a fault in \<open>F\<close> or a value
  with \<open>P\<close>. \<open>Libio_Map\<close>: \<open>std::map\<close> as sorted association lists, behind the locale \<open>keyed_store\<close>.
  \<open>Libio_Byte_Queue\<close>: the locale of a byte queue, which \<open>Libio_Buffer\<close> interprets and the writers of messages use.

  \<^bold>\<open>src/core.\<close> \<open>Libio_String\<close> is \<open>string.hh\<close>: the percent decoder equals a plain one and inverts encoding.
  \<open>Libio_Buffer\<close> is \<open>buffer.hh\<close>: the invariant \<open>buffer_ok\<close> and the abstract queue \<open>buffer_content\<close>, every
  method's effect on both, and that no access leaves the allocation. \<open>Libio_Multiplexer\<close> states what the
  reactor needs of a multiplexer; \<open>Libio_Epoll\<close>, \<open>Libio_Poll\<close> and \<open>Libio_Select\<close> are \<open>epoll.hh\<close>,
  \<open>poll.hh\<close> and \<open>select.hh\<close>: the event map mirrors the kernel's, what is watched is what was asked for last, and which
  descriptors \<open>select\<close> can hold. \<open>Libio_Time\<close> is \<open>time.hh\<close>: the order and liveness of timers, and that \<open>process\<close>
  fires exactly the due ones; \<open>Libio_Date\<close> is its \<open>get_date\<close>, on the calendar of \<open>gmtime_r\<close>, up to the \<open>Date\<close> header that
  the receiver of a response reads. \<open>Libio_Lock\<close> and \<open>Libio_Thread\<close> are \<open>lock.hh\<close> and \<open>thread.hh\<close>: first in, first
  out, and a step relation of the pool with the invariant that no notification is lost. \<open>Libio_Socket\<close> is \<open>socket.hh\<close>:
  what every path opens and releases. \<open>Libio_Signal\<close> is \<open>signal.hh\<close>, \<open>Libio_Connection\<close> is \<open>connection.hh\<close>.

  \<^bold>\<open>src/model.\<close> \<open>Libio_Reactor\<close> is \<open>reactor.hh\<close>, over the record \<open>io_ops\<close> of the multiplexer's operations
  and the locale \<open>reactor_io\<close> of what they promise, interpreted for \<open>epoll\<close> and \<open>poll\<close>: a round never follows a
  null channel. \<open>Libio_Process\<close>, \<open>Libio_Thread_Loop\<close> and \<open>Libio_Proactor\<close> are \<open>process_loop.hh\<close>, \<open>thread_loop.hh\<close> and
  \<open>proactor.hh\<close>: what the master knows of its workers, that no client is lost and none waits while all threads rest, and that operations are started
  at most once and in order, under every interleaving.

  \<^bold>\<open>src/http.\<close> \<open>Libio_Request\<close> is \<open>request.hh\<close>, \<open>request.cc\<close> and the codes of \<open>http.hh\<close>: the parser, the
  builders of messages and the parser's safety. \<open>Libio_Http_Message\<close> shows that what \<open>set_request\<close> or \<open>set_response\<close> builds and
  \<open>send_to\<close> writes is read back; \<open>Libio_Http_Stream\<close> treats chunked bodies and input that arrives in pieces.
  \<open>Libio_Http_Server\<close> is \<open>http_connection\<close>, \<open>http_thread\<close> and \<open>http_multithread_server\<close>;
  \<open>Libio_Http_Serving\<close> holds its theorems (routing, pipelined requests, chunked replies, what a receiver decodes from them, reuse of
  connections, distribution of clients, the start of a server), \<open>Libio_Http_Loop\<close> that the loop of \<open>parse_request\<close> ends.
  \<open>Libio_Http_Input\<close> shows that the parser moves an emptied input buffer back to its start, so that a connection never runs out of
  room. The locale \<open>http_app\<close> in \<open>Libio_Http_Serving\<close> is what the server needs of an application: each well-formed request makes
  its handler append one reply and arm the write interest. It is interpreted for handlers that call \<open>send_reply\<close> (\<open>answer_app\<close>) and
  for the file server (\<open>web_app\<close>).

  \<^bold>\<open>src/sample.\<close> \<open>Libio_Webserver\<close> is \<open>webserver.cc\<close> with \<open>core/file.hh\<close>: a request for a file is answered with
  it, any other with the page for missing files. \<open>Libio_Http_Session\<close> puts the layers together: for every sequence of the readiness events a client in good order causes
  (requests in the library's form that arrive whole in one \<open>read\<close>, idle reads, partial and refused writes; \<open>healthy\<close>), each run through \<open>on_read\<close> or \<open>on_write\<close>, the invariant \<open>session_ok\<close> says that
  what was sent and what is in the output buffer are the replies due, in order, and that output left is watched for writing;
  \<open>session_delivers\<close> concludes that every reply arrives. Requests that ask for \<open>Connection: close\<close> and the cases in which the
  code goes wrong (a request cut inside its headers, the end of the input) are not events of these sessions. \<open>Libio_Webbench\<close> is \<open>mywebbench.cc\<close>: its request is one the server's parser reads, a client process ends and
  leaves nothing open when no call waits for ever, hangs on a silent server, and the parent's totals are exact. \<open>Libio_Bench\<close> is \<open>bench.cc\<close>, the benchmark of the multiplexer: a ring
  of pipes driven by \<open>loop(true, true)\<close> of the reactor over \<open>epoll\<close>, which loses no byte and ends.
\<close>

section \<open>State and operations\<close>

text \<open>
  \<^bold>\<open>Buffers.\<close> \<open>buffer\<close> has the members of the class; \<open>originbuf\<close> is the allocation and \<open>bufptr\<close> the
  offset of \<open>buf_\<close> in it. Overloads have different names: \<open>push\<close> is \<open>buffer_push_mem\<close>,
  \<open>buffer_push_string\<close>, \<open>buffer_push_buffer\<close>; \<open>pop\<close> is \<open>buffer_pop_mem\<close> and \<open>buffer_pop_line\<close>.

  \<^bold>\<open>Heap objects\<close> that are shared live at numbers: timers in \<open>store\<close>, connections in \<open>ht_conns\<close>. A lambda that
  captures \<open>this\<close> is a value of a datatype of closures (\<open>hcb\<close>, \<open>phandler\<close>) with the number of the object.
  A channel that \<open>channels[fd]\<close> has inserted by accident is the entry \<open>None\<close>.

  \<^bold>\<open>Threads.\<close> The pool and the proactor are step relations on program counters, one access to shared data per step; the
  containers of \<open>lock.hh\<close> are atomic because each method holds the mutex throughout. The wake-up
  handlers of \<open>thread_loop\<close> start when their \<open>eventfd\<close> is readable and interleave turn by turn. The HTTP threads share nothing but their queue of clients.

  \<^bold>\<open>Processes.\<close> A round of the master takes the delivered signals and the answers of \<open>waitpid\<close> as inputs
  and records what it asks of the system.
\<close>

section \<open>Bounds and fuel\<close>

text \<open>
  Theorems that a write succeeds ask that at most \<open>2 ^ 30\<close> bytes are in use (1073741824): below that the doubling in
  \<open>expand\<close> cannot leave the range of \<open>int\<close>. Above it the model still says what happens, a fault or -1.

  Loops that structural recursion does not carry: the doubling in \<open>expand\<close>, the scan of \<open>find\<close> and the parser have
  termination proofs with measures; the parser's is the input left, then the stage. The loop of \<open>parse_request\<close>, the loop
  of \<open>process\<close> over timers, the drain of a client queue and the benchmark loop take fuel. \<open>parse_request_terminates\<close> shows that
  fuel above the bytes of input plus the queued requests gives one and the same answer; \<open>process_fires_due\<close> gives
  fuel that is enough when the callbacks leave the timers alone; one turn per client and one more is what \<open>tl_on_wakeup\<close>
  takes; a session needs more turns than an event brings requests, and an event brings at most the 4096 bytes of one \<open>read\<close>; \<open>ring_main_ends\<close> takes one round per byte as fuel of a run; \<open>bench_ends_clean\<close> bounds the benchmark by the looks at the flag before the alarm.
\<close>

section \<open>Not modelled\<close>

text \<open>
  \<open>lock_list::insert\<close>, which cannot be instantiated; the
  future returned by \<open>push\<close> of the thread pool and \<open>get_thread\<close>; the times \<open>bench.cc\<close> measures; everything that is only printed. Memory
  ordering of unlocked reads is not modelled: a step of a thread sees the current state. The kernel's removal of a closed descriptor from the
  interest list of \<open>epoll\<close> is modelled in \<open>conn_close\<close>, where watched descriptors are closed, and calls that wait for ever in
  \<open>Libio_Webbench\<close>, whose sockets are blocking. The tests and
  Makefiles are left out. In the sources several functions do not do what they mean to; such
  behaviour is modelled as it is, and the theorems named for it (\<open>rearm_lost\<close>, \<open>second_sigchld_lost\<close>,
  \<open>submission_unnoticed\<close>, \<open>eof_leaks_connection\<close>, \<open>reused_descriptor_unwatched\<close>, \<open>silent_server_hangs\<close>, \<open>resize_detached_faults\<close> and others) say what happens.
\<close>

end
